(* ===== verification/Prelude.thy ===== *)
theory Prelude
  imports Main "HOL-Library.Sublist"
begin

text \<open>
  The part of JavaScript that the polyfills under \<^verbatim>\<open>src/crates/node/polyfills\<close> use, and the
  generic facts the component theories share.

  A JavaScript string is the list of its UTF-16 code units; a code unit is a \<^typ>\<open>nat\<close>, since the
  sources only ever compare the numbers that \<^verbatim>\<open>charCodeAt\<close> returns. A read out of range is
  \<^verbatim>\<open>NaN\<close> in JavaScript and \<^const>\<open>None\<close> here: every comparison with a number is then false,
  as in the source. Exceptions are the left summand of a sum.
\<close>

named_theorems js_simps \<open>unfolding of the JavaScript primitives on their usual arguments\<close>

type_synonym code_unit = nat
type_synonym js_string = "nat list"

text \<open>String literals of the sources.\<close>

definition js :: "string \<Rightarrow> js_string" where
  "js s = map of_char s"

subsection \<open>Values of unknown type, errors\<close>

text \<open>
  The entry points check \<^verbatim>\<open>typeof\<close> of their arguments. A value that is not a string is only
  observed through its type.
\<close>

datatype js_typeof = TUndefined | TNull | TBoolean | TNumber | TBigint | TSymbol | TFunction | TObject

datatype js_value = JStr js_string | JOther js_typeof

datatype node_error =
    ERR_INVALID_ARG_TYPE string
  | ERR_OUT_OF_RANGE string js_string
  | ERR_INVALID_ARG_VALUE string
  | ERR_BUFFER_OUT_OF_BOUNDS
  | ERR_INVALID_URI
  | ERR_UNKNOWN_ENCODING
  | ERR_INVALID_THIS string
  | ERR_STRING_TOO_LONG
  | ERR_UNHANDLED_ERROR
  | TypeError string
  | RangeError string
  | PlainError string

type_synonym 'a result = "node_error + 'a"

fun bindE :: "'a result \<Rightarrow> ('a \<Rightarrow> 'b result) \<Rightarrow> 'b result" where
  "bindE (Inl e) f = Inl e"
| "bindE (Inr a) f = f a"

lemma bindE_eq_Inr [simp]: "bindE m f = Inr b \<longleftrightarrow> (\<exists>a. m = Inr a \<and> f a = Inr b)"
  by (cases m) auto

lemma bindE_eq_Inl: "bindE m f = Inl e \<longleftrightarrow> m = Inl e \<or> (\<exists>a. m = Inr a \<and> f a = Inl e)"
  by (cases m) auto

subsection \<open>String primitives\<close>

definition charCodeAt :: "js_string \<Rightarrow> int \<Rightarrow> code_unit option" where
  "charCodeAt s i = (if 0 \<le> i \<and> i < int (length s) then Some (s ! nat i) else None)"

definition rel_index :: "int \<Rightarrow> int \<Rightarrow> int" where
  "rel_index n k = (if k < 0 then max 0 (n + k) else min k n)"

definition js_slice :: "js_string \<Rightarrow> int \<Rightarrow> int \<Rightarrow> js_string" where
  "js_slice s a b =
     (let n = int (length s); from = rel_index n a; to = rel_index n b
      in take (nat (to - from)) (drop (nat from) s))"

definition js_slice_from :: "js_string \<Rightarrow> int \<Rightarrow> js_string" where
  "js_slice_from s a = js_slice s a (int (length s))"

fun lastIndexOf_from :: "js_string \<Rightarrow> js_string \<Rightarrow> nat \<Rightarrow> int" where
  "lastIndexOf_from s t 0 = (if prefix t s then 0 else -1)"
| "lastIndexOf_from s t (Suc k) =
     (if prefix t (drop (Suc k) s) then int (Suc k) else lastIndexOf_from s t k)"

definition lastIndexOf :: "js_string \<Rightarrow> js_string \<Rightarrow> int" where
  "lastIndexOf s t = lastIndexOf_from s t (length s)"

fun js_join :: "js_string \<Rightarrow> js_string list \<Rightarrow> js_string" where
  "js_join sep [] = []"
| "js_join sep [x] = x"
| "js_join sep (x # y # ys) = x @ sep @ js_join sep (y # ys)"

subsection \<open>Facts about the primitives\<close>

lemma charCodeAt_nat [js_simps, simp]:
  "i < length s \<Longrightarrow> charCodeAt s (int i) = Some (s ! i)"
  by (simp add: charCodeAt_def)

lemma charCodeAt_beyond [simp]: "int (length s) \<le> i \<Longrightarrow> charCodeAt s i = None"
  by (simp add: charCodeAt_def)

lemma charCodeAt_zero: "charCodeAt s 0 = (case s of [] \<Rightarrow> None | c # _ \<Rightarrow> Some c)"
  by (auto simp: charCodeAt_def split: list.splits)

lemma charCodeAt_last: "s \<noteq> [] \<Longrightarrow> charCodeAt s (int (length s) - 1) = Some (last s)"
  by (simp add: charCodeAt_def last_conv_nth nat_diff_distrib' Suc_leI)

lemma charCodeAt_append_left:
  "i < int (length s) \<Longrightarrow> charCodeAt (s @ t) i = charCodeAt s i"
  by (simp add: charCodeAt_def nth_append nat_less_iff)

lemma js_slice_nat [js_simps]:
  assumes "a \<le> b" "b \<le> length s"
  shows "js_slice s (int a) (int b) = take (b - a) (drop a s)"
  using assms by (simp add: js_slice_def rel_index_def Let_def nat_diff_distrib')

lemma js_slice_from_nat [js_simps]:
  "a \<le> length s \<Longrightarrow> js_slice_from s (int a) = drop a s"
  by (simp add: js_slice_from_def js_slice_nat)

lemma js_slice_zero [js_simps]: "b \<le> length s \<Longrightarrow> js_slice s 0 (int b) = take b s"
  using js_slice_nat [of 0 b s] by simp

lemma js_join_snoc:
  "js_join sep (xs @ [x]) = (if xs = [] then x else js_join sep xs @ sep @ x)"
proof (induction xs rule: induct_list012)
  case (3 y z zs)
  then show ?case by simp
qed auto

lemma js_join_Cons:
  "js_join sep (x # xs) = (if xs = [] then x else x @ sep @ js_join sep xs)"
  by (cases xs) auto

lemma js_join_append:
  "xs \<noteq> [] \<Longrightarrow> ys \<noteq> [] \<Longrightarrow> js_join sep (xs @ ys) = js_join sep xs @ sep @ js_join sep ys"
  by (induction xs rule: induct_list012) (auto simp: js_join_Cons)

lemma js_join_eq_Nil:
  "(\<forall>x\<in>set xs. x \<noteq> []) \<Longrightarrow> js_join sep xs = [] \<longleftrightarrow> xs = []"
  by (cases xs) (auto simp: js_join_Cons)

lemma length_js_join_last:
  "xs \<noteq> [] \<Longrightarrow> length (last xs) \<le> length (js_join sep xs)"
  by (cases xs rule: rev_cases) (auto simp: js_join_snoc)

lemma lastIndexOf_from_single_notin:
  "c \<notin> set s \<Longrightarrow> lastIndexOf_from s [c] k = -1"
proof (induction k)
  case 0
  then show ?case by (cases s) auto
next
  case (Suc k)
  have "\<not> prefix [c] (drop (Suc k) s)"
    using Suc.prems by (meson in_set_dropD list.set_intros(1) set_mono_prefix subsetD)
  with Suc show ?case by simp
qed

lemma lastIndexOf_from_single:
  assumes "c \<notin> set t"
  shows "lastIndexOf_from (s @ c # t) [c] (length s + k) = int (length s)"
proof (induction k)
  case 0
  have "prefix [c] (drop (length s) (s @ c # t))" by simp
  then show ?case by (cases "length s") auto
next
  case (Suc k)
  have "c \<notin> set (drop k t)" using assms by (auto dest: in_set_dropD)
  then have "\<not> prefix [c] (drop (Suc (length s + k)) (s @ c # t))"
    by (cases "drop k t") auto
  with Suc show ?case by simp
qed

lemma lastIndexOf_notin: "c \<notin> set s \<Longrightarrow> lastIndexOf s [c] = -1"
  by (simp add: lastIndexOf_def lastIndexOf_from_single_notin)

lemma lastIndexOf_append:
  "c \<notin> set t \<Longrightarrow> lastIndexOf (s @ c # t) [c] = int (length s)"
  using lastIndexOf_from_single [of c t s "Suc (length t)"] by (simp add: lastIndexOf_def)

lemma lastIndexOf_snoc:
  "lastIndexOf (s @ [c]) [d] = (if c = d then int (length s) else lastIndexOf s [d])"
proof (cases "d \<in> set s")
  case True
  then obtain a b where "s = a @ d # b" "d \<notin> set b" by (meson split_list_last)
  then show ?thesis
    using lastIndexOf_append [of d "b @ [c]" a] lastIndexOf_append [of d b a]
      lastIndexOf_append [of d "[]" "a @ d # b"] by auto
next
  case False
  then show ?thesis using lastIndexOf_append [of d "[]" s] by (auto simp: lastIndexOf_notin)
qed

lemma charCodeAt_Cons [simp]:
  "charCodeAt (c # s) (int (Suc i)) = charCodeAt s (int i)"
  "charCodeAt (c # s) (1 + int i) = charCodeAt s (int i)"
  "charCodeAt (c # s) 1 = charCodeAt s 0"
  by (simp_all add: charCodeAt_def nat_add_distrib)

lemma charCodeAt_append_right:
  "charCodeAt (s @ c # t) (int (length s)) = Some c"
  by (simp add: charCodeAt_def)

lemma charCodeAt_append_length: "charCodeAt (s @ t) (int (length s)) = charCodeAt t 0"
  by (simp add: charCodeAt_def nth_append)

lemma count_join_single:
  "xs \<noteq> [] \<Longrightarrow> \<forall>x\<in>set xs. c \<notin> set x \<Longrightarrow> count_list (js_join [c] xs) c = length xs - 1"
proof (induction xs)
  case (Cons x xs)
  then show ?case by (cases xs) (auto simp: count_list_0_iff)
qed simp

end
