(* ===== verification/Path_Util.thy ===== *)
theory Path_Util
  imports Prelude
begin

text \<open>
  \<^verbatim>\<open>path/_constants.ts\<close>, \<^verbatim>\<open>path/_util.ts\<close> and \<^verbatim>\<open>path/_interface.ts\<close>: the character codes,
  the separator tests, \<^verbatim>\<open>normalizeString\<close> and \<^verbatim>\<open>_format\<close>. The loop of
  \<^verbatim>\<open>normalizeString\<close> works on the characters of the output (it searches the last separator
  and cuts the string there); the locale \<open>path_separators\<close> proves once, for POSIX and Windows
  separators alike, that it implements resolution of dot segments on a stack of segments.
\<close>

subsection \<open>Constants\<close>

abbreviation (input) CHAR_UPPERCASE_A :: code_unit where "CHAR_UPPERCASE_A \<equiv> 65"
abbreviation (input) CHAR_LOWERCASE_A :: code_unit where "CHAR_LOWERCASE_A \<equiv> 97"
abbreviation (input) CHAR_UPPERCASE_Z :: code_unit where "CHAR_UPPERCASE_Z \<equiv> 90"
abbreviation (input) CHAR_LOWERCASE_Z :: code_unit where "CHAR_LOWERCASE_Z \<equiv> 122"
abbreviation (input) CHAR_DOT :: code_unit where "CHAR_DOT \<equiv> 46"
abbreviation (input) CHAR_FORWARD_SLASH :: code_unit where "CHAR_FORWARD_SLASH \<equiv> 47"
abbreviation (input) CHAR_BACKWARD_SLASH :: code_unit where "CHAR_BACKWARD_SLASH \<equiv> 92"
abbreviation (input) CHAR_COLON :: code_unit where "CHAR_COLON \<equiv> 58"
abbreviation (input) CHAR_QUESTION_MARK :: code_unit where "CHAR_QUESTION_MARK \<equiv> 63"

subsection \<open>Argument check and separator tests\<close>

definition assertPath :: "js_value \<Rightarrow> js_string result" where
  "assertPath path = (case path of JStr s \<Rightarrow> Inr s | JOther _ \<Rightarrow> Inl (ERR_INVALID_ARG_TYPE ''path''))"

lemma assertPath_simps [simp]:
  "assertPath (JStr s) = Inr s" "assertPath (JOther t) = Inl (ERR_INVALID_ARG_TYPE ''path'')"
  by (simp_all add: assertPath_def)

definition isPosixPathSeparator :: "code_unit option \<Rightarrow> bool" where
  "isPosixPathSeparator code \<longleftrightarrow> code = Some CHAR_FORWARD_SLASH"

definition isPathSeparator :: "code_unit option \<Rightarrow> bool" where
  "isPathSeparator code \<longleftrightarrow> isPosixPathSeparator code \<or> code = Some CHAR_BACKWARD_SLASH"

definition isWindowsDeviceRoot :: "code_unit option \<Rightarrow> bool" where
  "isWindowsDeviceRoot code =
     (case code of None \<Rightarrow> False
      | Some c \<Rightarrow> CHAR_LOWERCASE_A \<le> c \<and> c \<le> CHAR_LOWERCASE_Z \<or>
                 CHAR_UPPERCASE_A \<le> c \<and> c \<le> CHAR_UPPERCASE_Z)"

subsection \<open>normalizeString\<close>

text \<open>The local variables of the loop; \<open>code\<close> starts undefined.\<close>

record norm_state =
  res :: js_string
  lastSegmentLength :: int
  lastSlash :: int
  dots :: int
  code :: "code_unit option"

definition norm_init :: norm_state where
  "norm_init = \<lparr>res = [], lastSegmentLength = 0, lastSlash = -1, dots = 0, code = None\<rparr>"

text \<open>The branch taken at a separator when the segment before it is \<^verbatim>\<open>..\<close>.\<close>

definition norm_dotdot :: "bool \<Rightarrow> js_string \<Rightarrow> int \<Rightarrow> norm_state \<Rightarrow> norm_state" where
  "norm_dotdot allowAboveRoot separator i st =
     (let r = res st; n = int (length r);
          st' = st\<lparr>lastSlash := i, dots := 0\<rparr>;
          not_dotdot = (n < 2 \<or> lastSegmentLength st \<noteq> 2 \<or>
            charCodeAt r (n - 1) \<noteq> Some CHAR_DOT \<or> charCodeAt r (n - 2) \<noteq> Some CHAR_DOT)
      in if not_dotdot \<and> n > 2 then
           (let lastSlashIndex = lastIndexOf r separator
            in if lastSlashIndex = -1 then st'\<lparr>res := [], lastSegmentLength := 0\<rparr>
               else let r' = js_slice r 0 lastSlashIndex
                    in st'\<lparr>res := r',
                           lastSegmentLength := int (length r') - 1 - lastIndexOf r' separator\<rparr>)
         else if not_dotdot \<and> (n = 2 \<or> n = 1) then st'\<lparr>res := [], lastSegmentLength := 0\<rparr>
         else if allowAboveRoot then
           st'\<lparr>res := (if n > 0 then r @ separator @ [CHAR_DOT, CHAR_DOT]
                       else [CHAR_DOT, CHAR_DOT]),
               lastSegmentLength := 2\<rparr>
         else st')"

definition norm_body ::
  "js_string \<Rightarrow> bool \<Rightarrow> js_string \<Rightarrow> (code_unit option \<Rightarrow> bool) \<Rightarrow> int \<Rightarrow> norm_state \<Rightarrow> norm_state" where
  "norm_body path allowAboveRoot separator isSep i st =
     (if isSep (code st) then
        if lastSlash st = i - 1 \<or> dots st = 1 then st\<lparr>lastSlash := i, dots := 0\<rparr>
        else if lastSlash st \<noteq> i - 1 \<and> dots st = 2 then norm_dotdot allowAboveRoot separator i st
        else st\<lparr>res := (if length (res st) > 0
                         then res st @ separator @ js_slice path (lastSlash st + 1) i
                         else js_slice path (lastSlash st + 1) i),
                lastSegmentLength := i - lastSlash st - 1, lastSlash := i, dots := 0\<rparr>
      else if code st = Some CHAR_DOT \<and> dots st \<noteq> -1 then st\<lparr>dots := dots st + 1\<rparr>
      else st\<lparr>dots := -1\<rparr>)"

function norm_loop ::
  "js_string \<Rightarrow> bool \<Rightarrow> js_string \<Rightarrow> (code_unit option \<Rightarrow> bool) \<Rightarrow> nat \<Rightarrow> norm_state \<Rightarrow> js_string" where
  "norm_loop path allowAboveRoot separator isSep i st =
     (if i < length path then
        norm_loop path allowAboveRoot separator isSep (Suc i)
          (norm_body path allowAboveRoot separator isSep (int i) (st\<lparr>code := charCodeAt path (int i)\<rparr>))
      else if i > length path then res st
      else if isSep (code st) then res st
      else norm_loop path allowAboveRoot separator isSep (Suc i)
          (norm_body path allowAboveRoot separator isSep (int i) (st\<lparr>code := Some CHAR_FORWARD_SLASH\<rparr>)))"
  by pat_completeness auto
termination
  by (relation "measure (\<lambda>(path, _, _, _, i, _). Suc (length path) - i)") auto

declare norm_loop.simps [simp del]

definition normalizeString ::
  "js_string \<Rightarrow> bool \<Rightarrow> js_string \<Rightarrow> (code_unit option \<Rightarrow> bool) \<Rightarrow> js_string" where
  "normalizeString path allowAboveRoot separator isSep =
     norm_loop path allowAboveRoot separator isSep 0 norm_init"

subsection \<open>Format\<close>

text \<open>
  \<^verbatim>\<open>ParsedPath\<close>; the input of \<^verbatim>\<open>format\<close> is a partial one, and an absent
  property behaves as an empty string does, since the code only tests truthiness.
\<close>

record ParsedPath =
  root :: js_string
  dir :: js_string
  base :: js_string
  ext :: js_string
  name :: js_string

definition js_or :: "js_string \<Rightarrow> js_string \<Rightarrow> js_string" where
  "js_or a b = (if a \<noteq> [] then a else b)"

definition format_path :: "js_string \<Rightarrow> ParsedPath \<Rightarrow> js_string" where
  "format_path sep pathObject =
     (let dir' = js_or (dir pathObject) (root pathObject);
          base' = js_or (base pathObject) (name pathObject @ ext pathObject)
      in if dir' = [] then base'
         else if dir' = root pathObject then dir' @ base'
         else dir' @ sep @ base')"

subsection \<open>Specification: resolution of dot segments on a stack\<close>

abbreviation (input) dot_seg :: js_string where "dot_seg \<equiv> [CHAR_DOT]"
abbreviation (input) dotdot_seg :: js_string where "dotdot_seg \<equiv> [CHAR_DOT, CHAR_DOT]"

fun split_acc :: "(code_unit option \<Rightarrow> bool) \<Rightarrow> js_string \<Rightarrow> js_string \<Rightarrow> js_string list" where
  "split_acc isSep cur [] = [cur]"
| "split_acc isSep cur (c # cs) =
     (if isSep (Some c) then cur # split_acc isSep [] cs else split_acc isSep (cur @ [c]) cs)"

definition segments :: "(code_unit option \<Rightarrow> bool) \<Rightarrow> js_string \<Rightarrow> js_string list" where
  "segments isSep s = split_acc isSep [] s"

definition seg_step :: "bool \<Rightarrow> js_string list \<Rightarrow> js_string \<Rightarrow> js_string list" where
  "seg_step up stack seg =
     (if seg = [] \<or> seg = dot_seg then stack
      else if seg = dotdot_seg then
        (if stack \<noteq> [] \<and> last stack \<noteq> dotdot_seg then butlast stack
         else if up then stack @ [dotdot_seg] else stack)
      else stack @ [seg])"

definition resolve_segs :: "bool \<Rightarrow> js_string list \<Rightarrow> js_string list \<Rightarrow> js_string list" where
  "resolve_segs up stack segs = foldl (seg_step up) stack segs"

lemma resolve_segs_simps [simp]:
  "resolve_segs up stack [] = stack"
  "resolve_segs up stack (s # ss) = resolve_segs up (seg_step up stack s) ss"
  by (simp_all add: resolve_segs_def)

lemma resolve_segs_append:
  "resolve_segs up stack (ss @ ts) = resolve_segs up (resolve_segs up stack ss) ts"
  by (simp add: resolve_segs_def)

definition seg_ok :: "(code_unit option \<Rightarrow> bool) \<Rightarrow> js_string \<Rightarrow> bool" where
  "seg_ok isSep s \<longleftrightarrow> s \<noteq> [] \<and> (\<forall>c\<in>set s. \<not> isSep (Some c))"

definition dot_count :: "js_string \<Rightarrow> int" where
  "dot_count s = (if \<forall>c\<in>set s. c = CHAR_DOT then int (length s) else -1)"

lemma dot_count_simps [simp]:
  "dot_count [] = 0"
  "dot_count (s @ [c]) = (if c = CHAR_DOT \<and> dot_count s \<noteq> -1 then dot_count s + 1 else -1)"
  by (auto simp: dot_count_def)

lemma dot_count_1: "dot_count s = 1 \<longleftrightarrow> s = dot_seg"
  by (cases s) (auto simp: dot_count_def)

lemma dot_count_2: "dot_count s = 2 \<longleftrightarrow> s = dotdot_seg"
  by (cases s; cases "tl s") (auto simp: dot_count_def)

text \<open>The stacks that resolution produces: leading \<^verbatim>\<open>..\<close> only, and only for relative paths.\<close>

definition plain_seg :: "js_string \<Rightarrow> bool" where
  "plain_seg s \<longleftrightarrow> s \<noteq> [] \<and> s \<noteq> dot_seg \<and> s \<noteq> dotdot_seg"

definition canonical :: "bool \<Rightarrow> js_string list \<Rightarrow> bool" where
  "canonical up st \<longleftrightarrow>
     list_all plain_seg (dropWhile (\<lambda>s. s = dotdot_seg) st) \<and> (up \<or> dotdot_seg \<notin> set st)"

lemma canonical_Nil [simp]: "canonical up []"
  by (simp add: canonical_def)

lemma canonical_snoc:
  "canonical up (st @ [s]) \<longleftrightarrow>
     canonical up st \<and> (plain_seg s \<or> s = dotdot_seg \<and> up \<and> (st = [] \<or> last st = dotdot_seg))"
proof (cases "\<forall>x\<in>set st. x = dotdot_seg")
  case True
  then have d: "dropWhile (\<lambda>s. s = dotdot_seg) (st @ [s]) = (if s = dotdot_seg then [] else [s])"
      "dropWhile (\<lambda>s. s = dotdot_seg) st = []"
    by (simp_all add: dropWhile_append2)
  have "st \<noteq> [] \<Longrightarrow> last st = dotdot_seg" using True last_in_set [of st] by blast
  moreover have "st \<noteq> [] \<Longrightarrow> dotdot_seg \<in> set st" using True by (cases st) auto
  ultimately show ?thesis
    unfolding canonical_def d by (cases "st = []") (auto simp: plain_seg_def)
next
  case False
  define P where "P = (\<lambda>s. s = dotdot_seg)"
  obtain y where y: "y \<in> set st" "\<not> P y" using False unfolding P_def by blast
  then have ds: "dropWhile P (st @ [s]) = dropWhile P st @ [s]" by (rule dropWhile_append1)
  obtain x xs where d: "dropWhile P st = x # xs" using y by (cases "dropWhile P st") auto
  obtain u where u: "st = u @ x # xs" using d by (metis takeWhile_dropWhile_id)
  have l: "last st \<in> set (x # xs)" "st \<noteq> []" unfolding u by simp_all
  show ?thesis
  proof (cases "list_all plain_seg (x # xs)")
    case True
    then have "last st \<noteq> dotdot_seg" using l(1) unfolding list_all_iff plain_seg_def by blast
    then show ?thesis
      unfolding canonical_def P_def [symmetric] ds d using True l(2) by (auto simp: plain_seg_def)
  next
    case no: False
    then show ?thesis unfolding canonical_def P_def [symmetric] ds d by auto
  qed
qed

lemma canonical_butlast: "canonical up st \<Longrightarrow> canonical up (butlast st)"
  by (cases st rule: rev_cases) (simp_all add: canonical_snoc)

lemma canonical_step: "canonical up st \<Longrightarrow> canonical up (seg_step up st s)"
  by (cases up; cases "st = []")
    (auto simp: seg_step_def canonical_snoc canonical_snoc [of _ "[]", simplified] plain_seg_def canonical_butlast)

lemma canonical_resolve: "canonical up st \<Longrightarrow> canonical up (resolve_segs up st ss)"
  by (induction ss arbitrary: st) (simp_all add: canonical_step)

lemma resolve_canonical: "canonical up ss \<Longrightarrow> resolve_segs up [] ss = ss"
proof (induction ss rule: rev_induct)
  case (snoc s ss)
  then show ?case
    by (auto simp: canonical_snoc resolve_segs_append seg_step_def plain_seg_def)
qed simp

lemma canonical_False: "canonical False st \<longleftrightarrow> (\<forall>s\<in>set st. plain_seg s)"
proof (induction st rule: rev_induct)
  case (snoc s st)
  then show ?case by (auto simp: canonical_snoc)
qed simp

lemma resolve_plain: "(\<forall>s\<in>set ss. plain_seg s) \<Longrightarrow> resolve_segs up st ss = st @ ss"
  by (induction ss arbitrary: st) (auto simp: seg_step_def plain_seg_def)

lemma resolve_dotdots:
  "(\<forall>s\<in>set ys. plain_seg s) \<Longrightarrow> resolve_segs up (xs @ ys) (replicate (length ys) dotdot_seg) = xs"
proof (induction ys rule: rev_induct)
  case (snoc y ys)
  then show ?case by (simp add: seg_step_def plain_seg_def flip: append_assoc)
qed simp

lemma resolve_filter:
  "resolve_segs up st (filter (\<lambda>s. s \<noteq> []) ss) = resolve_segs up st ss"
  by (induction ss arbitrary: st) (auto simp: seg_step_def)

lemma seg_step_relative:
  assumes "canonical True st"
  shows "resolve_segs False d (seg_step True st s) = seg_step False (resolve_segs False d st) s"
proof (cases "s = dotdot_seg \<and> st \<noteq> [] \<and> last st \<noteq> dotdot_seg")
  case True
  then obtain ys y where st: "st = ys @ [y]" by (cases st rule: rev_cases) auto
  with True assms have "plain_seg y" by (auto simp: canonical_snoc)
  with True st show ?thesis by (auto simp: seg_step_def resolve_segs_append plain_seg_def)
next
  case False
  then show ?thesis by (auto simp: seg_step_def resolve_segs_append)
qed

text \<open>Resolving a relative path first and following the result is the same as following it.\<close>

lemma resolve_relative:
  "canonical True st \<Longrightarrow>
     resolve_segs False d (resolve_segs True st ss) = resolve_segs False (resolve_segs False d st) ss"
proof (induction ss arbitrary: st)
  case (Cons s ss)
  then show ?case using canonical_step [of True st s] by (simp add: seg_step_relative)
qed simp

lemma split_acc_sep:
  "isSep (Some c) \<Longrightarrow> split_acc isSep cur (s @ c # t) = split_acc isSep cur s @ split_acc isSep [] t"
  by (induction s arbitrary: cur) auto

lemma split_acc_nosep:
  "(\<forall>c\<in>set s. \<not> isSep (Some c)) \<Longrightarrow> split_acc isSep cur s = [cur @ s]"
  by (induction s arbitrary: cur) auto

lemma segments_sep:
  "isSep (Some c) \<Longrightarrow> segments isSep (s @ c # t) = segments isSep s @ segments isSep t"
  by (simp add: segments_def split_acc_sep)

lemma segments_Cons_sep: "isSep (Some c) \<Longrightarrow> segments isSep (c # t) = [] # segments isSep t"
  by (simp add: segments_def)

lemma segments_snoc_sep: "isSep (Some c) \<Longrightarrow> segments isSep (s @ [c]) = segments isSep s @ [[]]"
  by (simp add: segments_def split_acc_sep)

lemma segments_nosep: "(\<forall>c\<in>set s. \<not> isSep (Some c)) \<Longrightarrow> segments isSep s = [s]"
  by (simp add: segments_def split_acc_nosep)

lemma set_split_acc:
  "x \<in> set (split_acc isSep cur s) \<Longrightarrow> \<forall>c\<in>set cur. \<not> isSep (Some c) \<Longrightarrow> c \<in> set x \<Longrightarrow> \<not> isSep (Some c)"
proof (induction s arbitrary: cur)
  case (Cons a s)
  show ?case
  proof (cases "isSep (Some a)")
    case True
    then have "x = cur \<or> x \<in> set (split_acc isSep [] s)" using Cons.prems by simp
    then show ?thesis using Cons.IH [of "[]"] Cons.prems by auto
  next
    case False
    then show ?thesis using Cons.IH [of "cur @ [a]"] Cons.prems by simp
  qed
qed simp

lemma set_segments: "x \<in> set (segments isSep s) \<Longrightarrow> c \<in> set x \<Longrightarrow> \<not> isSep (Some c)"
  unfolding segments_def by (rule set_split_acc) auto

locale path_separators =
  fixes isSep :: "code_unit option \<Rightarrow> bool" and sep :: code_unit
  assumes isSep_sep: "isSep (Some sep)"
    and isSep_slash: "isSep (Some CHAR_FORWARD_SLASH)"
    and not_isSep_None: "\<not> isSep None"
    and not_isSep_dot: "\<not> isSep (Some CHAR_DOT)"
begin

lemma seg_ok_dotdot: "seg_ok isSep dotdot_seg"
  using not_isSep_dot by (simp add: seg_ok_def)

lemma seg_step_ok:
  assumes "\<forall>x\<in>set st. seg_ok isSep x" "\<forall>c\<in>set cur. \<not> isSep (Some c)"
  shows "\<forall>x\<in>set (seg_step up st cur). seg_ok isSep x"
  using assms seg_ok_dotdot by (auto simp: seg_step_def seg_ok_def dest: in_set_butlastD)

lemma sep_notin_ok: "seg_ok isSep x \<Longrightarrow> sep \<notin> set x"
  using isSep_sep by (auto simp: seg_ok_def)

text \<open>What the loop keeps: the output is the stack joined, the current segment is what was
  read since the last separator.\<close>

definition norm_rel :: "js_string \<Rightarrow> js_string list \<Rightarrow> js_string \<Rightarrow> nat \<Rightarrow> norm_state \<Rightarrow> bool" where
  "norm_rel path st cur i s \<longleftrightarrow>
     res s = js_join [sep] st \<and>
     lastSegmentLength s = (if st = [] then 0 else int (length (last st))) \<and>
     lastSlash s = int i - 1 - int (length cur) \<and> dots s = dot_count cur \<and>
     length cur \<le> i \<and> cur = take (length cur) (drop (i - length cur) path) \<and>
     (\<forall>x\<in>set st. seg_ok isSep x) \<and> (\<forall>c\<in>set cur. \<not> isSep (Some c))"

lemma norm_rel_Nil:
  "norm_rel path st [] i s \<longleftrightarrow>
     res s = js_join [sep] st \<and>
     lastSegmentLength s = (if st = [] then 0 else int (length (last st))) \<and>
     lastSlash s = int i - 1 \<and> dots s = 0 \<and> (\<forall>x\<in>set st. seg_ok isSep x)"
  by (simp add: norm_rel_def)

lemma join_pop:
  assumes "\<forall>x\<in>set (ys @ [y]). seg_ok isSep x" "ys \<noteq> []"
  shows "lastIndexOf (js_join [sep] (ys @ [y])) [sep] = int (length (js_join [sep] ys))"
  using assms sep_notin_ok [of y] by (simp add: js_join_snoc lastIndexOf_append)

lemma lastIndexOf_join:
  assumes "\<forall>x\<in>set ys. seg_ok isSep x" "ys \<noteq> []"
  shows "int (length (js_join [sep] ys)) - 1 - lastIndexOf (js_join [sep] ys) [sep]
           = int (length (last ys))"
proof (cases ys rule: rev_cases)
  case (snoc zs z)
  with assms show ?thesis
    using join_pop [of zs z] sep_notin_ok [of z] by (cases "zs = []") (auto simp: js_join_snoc lastIndexOf_notin)
qed (use assms in simp)

lemma last_is_dotdot:
  assumes "st \<noteq> []"
  defines "r \<equiv> js_join [sep] st"
  shows "(int (length r) < 2 \<or> int (length (last st)) \<noteq> 2 \<or>
      charCodeAt r (int (length r) - 1) \<noteq> Some CHAR_DOT \<or>
      charCodeAt r (int (length r) - 2) \<noteq> Some CHAR_DOT) \<longleftrightarrow> last st \<noteq> dotdot_seg"
proof -
  obtain ys y where st: "st = ys @ [y]" using assms by (cases st rule: rev_cases) auto
  obtain p where r: "r = p @ y"
    by (metis r_def st js_join_snoc append_assoc append_Nil that)
  show ?thesis
  proof (cases "length y = 2")
    case True
    then obtain a b where y: "y = [a, b]" by (auto simp: length_Suc_conv numeral_2_eq_2)
    show ?thesis by (simp add: r y st charCodeAt_def nth_append nat_add_distrib) blast
  next
    case False
    then show ?thesis by (auto simp: st)
  qed
qed

lemma length_join_two:
  assumes "\<forall>x\<in>set (ys @ [y]). seg_ok isSep x" "ys \<noteq> []"
  shows "2 < length (js_join [sep] (ys @ [y]))"
proof -
  have "js_join [sep] ys \<noteq> []" "y \<noteq> []"
    using assms by (auto simp: js_join_eq_Nil seg_ok_def)
  then show ?thesis using assms by (cases "js_join [sep] ys"; cases y) (auto simp: js_join_snoc)
qed

lemma norm_dotdot_rel:
  assumes rel: "norm_rel path st dotdot_seg i s"
  shows "norm_rel path (seg_step up st dotdot_seg) [] (Suc i) (norm_dotdot up [sep] (int i) s)"
proof (cases "st = []")
  case True
  then have "res s = []" "lastSegmentLength s = 0" using rel by (simp_all add: norm_rel_def)
  then show ?thesis
    using True seg_ok_dotdot by (simp add: norm_rel_Nil norm_dotdot_def seg_step_def Let_def)
next
  case False
  then obtain ys y where st: "st = ys @ [y]" by (cases st rule: rev_cases) auto
  let ?r = "js_join [sep] st"
  have ok: "\<forall>x\<in>set (ys @ [y]). seg_ok isSep x" and r: "res s = ?r"
    and len: "lastSegmentLength s = int (length (last st))"
    using rel False by (auto simp: norm_rel_def st)
  have ne: "?r \<noteq> []" using ok by (simp add: st js_join_eq_Nil seg_ok_def)
  then have len12: "2 < length ?r \<or> length ?r = 2 \<or> length ?r = 1"
    unfolding length_greater_0_conv [symmetric] by arith
  note nd = last_is_dotdot [OF False]
  show ?thesis
  proof (cases "last st = dotdot_seg")
    case True
    then have "norm_dotdot up [sep] (int i) s = (if up
        then s\<lparr>lastSlash := int i, dots := 0, res := ?r @ [sep] @ dotdot_seg, lastSegmentLength := 2\<rparr>
        else s\<lparr>lastSlash := int i, dots := 0\<rparr>)"
      using nd ne by (simp add: norm_dotdot_def r len Let_def)
    then show ?thesis
      using True False seg_ok_dotdot r len ok [folded st]
      by (simp add: norm_rel_Nil seg_step_def js_join_snoc)
  next
    case pop: False
    show ?thesis
    proof (cases "ys = []")
      case True
      have "lastIndexOf ?r [sep] = -1"
        using ok sep_notin_ok by (simp add: st True lastIndexOf_notin)
      then have "norm_dotdot up [sep] (int i) s
          = s\<lparr>lastSlash := int i, dots := 0, res := [], lastSegmentLength := 0\<rparr>"
        using nd pop len12 by (auto simp: norm_dotdot_def r len Let_def)
      then show ?thesis
        using pop True by (simp add: norm_rel_Nil seg_step_def st)
    next
      case False
      have "norm_dotdot up [sep] (int i) s
          = s\<lparr>lastSlash := int i, dots := 0, res := js_join [sep] ys,
              lastSegmentLength := int (length (last ys))\<rparr>"
        using nd pop length_join_two [OF ok False] join_pop [OF ok False] lastIndexOf_join [of ys] ok False
        by (auto simp: norm_dotdot_def r len Let_def st js_slice_zero js_join_snoc)
      then show ?thesis
        using pop False ok by (simp add: norm_rel_Nil seg_step_def st)
    qed
  qed
qed

lemma norm_body_sep:
  assumes rel: "norm_rel path st cur i s" and "isSep (code s)" "i \<le> length path"
  shows "norm_rel path (seg_step up st cur) [] (Suc i) (norm_body path up [sep] isSep (int i) s)"
proof -
  consider "cur = []" | "cur = dot_seg" | "cur = dotdot_seg"
    | "cur \<noteq> []" "cur \<noteq> dot_seg" "cur \<noteq> dotdot_seg" by blast
  then show ?thesis
  proof cases
    case 3
    then have "norm_body path up [sep] isSep (int i) s = norm_dotdot up [sep] (int i) s"
      using rel assms(2) by (simp add: norm_rel_def norm_body_def dot_count_def)
    with norm_dotdot_rel [of path st i s up] rel 3 show ?thesis by simp
  next
    case 4
    have sl: "js_slice path (lastSlash s + 1) (int i) = cur"
      using rel assms(3) js_slice_nat [of "i - length cur" i path]
      by (simp add: norm_rel_def of_nat_diff)
    have "dot_count cur \<noteq> 1" "dot_count cur \<noteq> 2"
      using 4 by (simp_all add: dot_count_1 dot_count_2)
    then have "norm_body path up [sep] isSep (int i) s =
        s\<lparr>res := js_join [sep] (st @ [cur]), lastSegmentLength := int (length cur),
          lastSlash := int i, dots := 0\<rparr>"
      using rel assms(2) sl 4 js_join_eq_Nil [of st "[sep]"]
      by (auto simp: norm_rel_def norm_body_def js_join_snoc seg_ok_def)
    then show ?thesis
      using rel 4 by (auto simp: norm_rel_def seg_step_def seg_ok_def)
  qed (use rel assms(2) in \<open>auto simp: norm_rel_def norm_body_def seg_step_def dot_count_def\<close>)
qed

lemma norm_body_char:
  assumes rel: "norm_rel path st cur i s" and "i < length path"
    and "code s = Some (path ! i)" "\<not> isSep (code s)"
  shows "norm_rel path st (cur @ [path ! i]) (Suc i) (norm_body path up [sep] isSep (int i) s)"
proof -
  have "take (Suc (length cur)) (drop (i - length cur) path) = cur @ [path ! i]"
    using rel assms(2) by (simp add: norm_rel_def take_Suc_conv_app_nth nth_drop)
  then show ?thesis
    using rel assms by (auto simp: norm_rel_def norm_body_def)
qed

lemma norm_loop_spec:
  assumes "norm_rel path st cur i s" "i \<le> length path" "isSep (code s) \<Longrightarrow> cur = []"
  shows "norm_loop path up [sep] isSep i s =
    js_join [sep] (resolve_segs up st (split_acc isSep cur (drop i path)))"
  using assms
proof (induction "length path - i" arbitrary: st cur i s)
  case 0
  let ?s = "s\<lparr>code := Some CHAR_FORWARD_SLASH\<rparr>"
  have i: "i = length path" using 0 by simp
  have "norm_rel path st cur i ?s" using 0(2) by (simp add: norm_rel_def)
  then have "norm_rel path (seg_step up st cur) [] (Suc i) (norm_body path up [sep] isSep (int i) ?s)"
    by (rule norm_body_sep) (use isSep_slash i in auto)
  then have "res (norm_body path up [sep] isSep (int i) ?s) = js_join [sep] (seg_step up st cur)"
    by (simp add: norm_rel_def)
  moreover have "res s = js_join [sep] st" using 0(2) by (simp add: norm_rel_def)
  moreover have "norm_loop path up [sep] isSep i s = (if isSep (code s) then res s
      else res (norm_body path up [sep] isSep (int i) ?s))"
    unfolding i by (simp add: norm_loop.simps [of path up "[sep]" isSep "length path"]
        norm_loop.simps [of path up "[sep]" isSep "Suc (length path)"])
  ultimately show ?case
    using 0(4) i by (cases "isSep (code s)") (simp_all add: seg_step_def)
next
  case (Suc k)
  let ?s = "s\<lparr>code := charCodeAt path (int i)\<rparr>"
  let ?b = "norm_body path up [sep] isSep (int i) ?s"
  have i: "i < length path" using Suc by simp
  then have d: "drop i path = path ! i # drop (Suc i) path" by (simp add: Cons_nth_drop_Suc)
  have rel: "norm_rel path st cur i ?s" using Suc.prems(1) by (simp add: norm_rel_def)
  have step: "norm_loop path up [sep] isSep i s = norm_loop path up [sep] isSep (Suc i) ?b"
    using i by (simp add: norm_loop.simps [of path up "[sep]" isSep i])
  have code: "code ?b = Some (path ! i)"
    using i by (simp add: norm_body_def norm_dotdot_def Let_def)
  show ?case
  proof (cases "isSep (Some (path ! i))")
    case True
    have "norm_rel path (seg_step up st cur) [] (Suc i) ?b"
      using norm_body_sep [OF rel, of up] i True by simp
    then show ?thesis
      unfolding step d using Suc.hyps i True by simp
  next
    case False
    have "norm_rel path st (cur @ [path ! i]) (Suc i) ?b"
      using norm_body_char [OF rel i, of up] i False by simp
    then show ?thesis
      unfolding step d using Suc.hyps(1) [of "Suc i" st "cur @ [path ! i]" ?b] Suc.hyps(2) i False code
      by simp
  qed
qed

lemma normalizeString_spec:
  "normalizeString path up [sep] isSep = js_join [sep] (resolve_segs up [] (segments isSep path))"
  unfolding normalizeString_def segments_def
  by (subst norm_loop_spec [where st = "[]" and cur = "[]"])
    (auto simp: norm_rel_def norm_init_def not_isSep_None)

lemma segments_join:
  "(\<forall>x\<in>set st. seg_ok isSep x) \<Longrightarrow> st \<noteq> [] \<Longrightarrow> segments isSep (js_join [sep] st) = st"
proof (induction st)
  case (Cons x xs)
  then show ?case
    using isSep_sep by (auto simp: js_join_Cons segments_nosep segments_sep seg_ok_def)
qed simp

lemma resolve_ok:
  "(\<forall>x\<in>set st. seg_ok isSep x) \<Longrightarrow> (\<forall>x\<in>set ss. \<forall>c\<in>set x. \<not> isSep (Some c)) \<Longrightarrow>
     \<forall>x\<in>set (resolve_segs up st ss). seg_ok isSep x"
proof (induction ss arbitrary: st)
  case (Cons a ss)
  then show ?case using seg_step_ok [of st a up] by simp
qed simp

lemma resolve_segments_ok:
  "(\<forall>x\<in>set st. seg_ok isSep x) \<Longrightarrow> x \<in> set (resolve_segs up st (segments isSep p)) \<Longrightarrow> seg_ok isSep x"
  using resolve_ok [of st "segments isSep p" up] set_segments by blast

lemma resolve_join:
  "(\<forall>x\<in>set st. seg_ok isSep x) \<Longrightarrow> canonical up st \<Longrightarrow>
     resolve_segs up [] (segments isSep (js_join [sep] st)) = st"
proof (cases "st = []")
  case True
  then show ?thesis by (simp add: segments_def seg_step_def)
qed (simp add: segments_join resolve_canonical)

end

interpretation posix: path_separators isPosixPathSeparator CHAR_FORWARD_SLASH
  by unfold_locales (simp_all add: isPosixPathSeparator_def)

interpretation win32: path_separators isPathSeparator CHAR_BACKWARD_SLASH
  by unfold_locales (simp_all add: isPathSeparator_def isPosixPathSeparator_def)

end
