(* ===== verification/Path_Scan.thy ===== *)
theory Path_Scan
  imports Path_Util
begin

text \<open>
  The scanning loops that \<^verbatim>\<open>path/_posix.ts\<close> and \<^verbatim>\<open>path/_win32.ts\<close> contain in the same
  words, once with \<^verbatim>\<open>code === CHAR_FORWARD_SLASH\<close> and once with
  \<^verbatim>\<open>isPathSeparator(code)\<close>: the test is the argument \<open>isSep\<close>. A loop
  \<^verbatim>\<open>for (i = path.length - 1; i >= start; --i)\<close> is a recursion on \<open>n = i + 1\<close>. Sentinels
  \<^verbatim>\<open>-1\<close> stay \<^typ>\<open>int\<close>.
\<close>

subsection \<open>The loops\<close>

text \<open>\<^verbatim>\<open>for (; i < n; ++i) { if (!P(s.charCodeAt(i))) break; }\<close>\<close>

function scan_while :: "(code_unit option \<Rightarrow> bool) \<Rightarrow> js_string \<Rightarrow> nat \<Rightarrow> nat \<Rightarrow> nat" where
  "scan_while P s i n =
     (if i < n \<and> P (charCodeAt s (int i)) then scan_while P s (Suc i) n else i)"
  by pat_completeness auto
termination
  by (relation "measure (\<lambda>(_, _, i, n). n - i)") auto

declare scan_while.simps [simp del]

text \<open>The loop of \<^verbatim>\<open>dirname\<close>, down to \<open>offset\<close>; the value of \<open>end\<close>.\<close>

fun dirname_loop :: "(code_unit option \<Rightarrow> bool) \<Rightarrow> js_string \<Rightarrow> nat \<Rightarrow> bool \<Rightarrow> nat \<Rightarrow> int" where
  "dirname_loop isSep path offset matchedSlash 0 = -1"
| "dirname_loop isSep path offset matchedSlash (Suc i) =
     (if i < offset then -1
      else if isSep (charCodeAt path (int i)) then
        (if \<not> matchedSlash then int i else dirname_loop isSep path offset matchedSlash i)
      else dirname_loop isSep path offset False i)"

text \<open>The loop of \<^verbatim>\<open>basename\<close> without an extension; the values of \<open>start\<close> and \<open>end\<close>.\<close>

fun basename_loop ::
  "(code_unit option \<Rightarrow> bool) \<Rightarrow> js_string \<Rightarrow> nat \<Rightarrow> bool \<Rightarrow> int \<Rightarrow> nat \<Rightarrow> int \<times> int" where
  "basename_loop isSep path start matchedSlash end 0 = (int start, end)"
| "basename_loop isSep path start matchedSlash end (Suc i) =
     (if i < start then (int start, end)
      else if isSep (charCodeAt path (int i)) then
        (if \<not> matchedSlash then (int i + 1, end)
         else basename_loop isSep path start matchedSlash end i)
      else if end = -1 then basename_loop isSep path start False (int i + 1) i
      else basename_loop isSep path start matchedSlash end i)"

text \<open>The loop of \<^verbatim>\<open>basename\<close> with an extension; \<open>start\<close>, \<open>end\<close> and
  \<open>firstNonSlashEnd\<close>.\<close>

fun basename_ext_loop ::
  "(code_unit option \<Rightarrow> bool) \<Rightarrow> js_string \<Rightarrow> js_string \<Rightarrow> nat \<Rightarrow> bool \<Rightarrow> int \<Rightarrow> int \<Rightarrow> int \<Rightarrow> nat
     \<Rightarrow> int \<times> int \<times> int" where
  "basename_ext_loop isSep path ex start matchedSlash extIdx firstNonSlashEnd end 0 =
     (int start, end, firstNonSlashEnd)"
| "basename_ext_loop isSep path ex start matchedSlash extIdx firstNonSlashEnd end (Suc i) =
     (if i < start then (int start, end, firstNonSlashEnd)
      else let c = charCodeAt path (int i) in
      if isSep c then
        (if \<not> matchedSlash then (int i + 1, end, firstNonSlashEnd)
         else basename_ext_loop isSep path ex start matchedSlash extIdx firstNonSlashEnd end i)
      else
        (let ms = (if firstNonSlashEnd = -1 then False else matchedSlash);
             fnse = (if firstNonSlashEnd = -1 then int i + 1 else firstNonSlashEnd)
         in if extIdx \<ge> 0 then
              (if c = charCodeAt ex extIdx then
                 basename_ext_loop isSep path ex start ms (extIdx - 1) fnse
                   (if extIdx - 1 = -1 then int i else end) i
               else basename_ext_loop isSep path ex start ms (-1) fnse fnse i)
            else basename_ext_loop isSep path ex start ms extIdx fnse end i))"

text \<open>The loop of \<^verbatim>\<open>extname\<close> and \<^verbatim>\<open>parse\<close>.\<close>

record ext_scan =
  startDot :: int
  startPart :: int
  end_idx :: int
  matchedSlash :: bool
  preDotState :: int

fun ext_loop ::
  "(code_unit option \<Rightarrow> bool) \<Rightarrow> js_string \<Rightarrow> nat \<Rightarrow> ext_scan \<Rightarrow> nat \<Rightarrow> ext_scan" where
  "ext_loop isSep path start st 0 = st"
| "ext_loop isSep path start st (Suc i) =
     (if i < start then st
      else let c = charCodeAt path (int i) in
      if isSep c then
        (if \<not> matchedSlash st then st\<lparr>startPart := int i + 1\<rparr>
         else ext_loop isSep path start st i)
      else
        (let st1 = (if end_idx st = -1 then st\<lparr>matchedSlash := False, end_idx := int i + 1\<rparr> else st);
             st2 = (if c = Some CHAR_DOT then
                      (if startDot st1 = -1 then st1\<lparr>startDot := int i\<rparr>
                       else if preDotState st1 \<noteq> 1 then st1\<lparr>preDotState := 1\<rparr> else st1)
                    else if startDot st1 \<noteq> -1 then st1\<lparr>preDotState := -1\<rparr> else st1)
         in ext_loop isSep path start st2 i))"

text \<open>The condition under which both say that there is no extension.\<close>

definition no_ext :: "ext_scan \<Rightarrow> bool" where
  "no_ext st \<longleftrightarrow> startDot st = -1 \<or> end_idx st = -1 \<or> preDotState st = 0 \<or>
     (preDotState st = 1 \<and> startDot st = end_idx st - 1 \<and> startDot st = startPart st + 1)"

definition ext_scan_init :: "int \<Rightarrow> ext_scan" where
  "ext_scan_init sp =
     \<lparr>startDot = -1, startPart = sp, end_idx = -1, matchedSlash = True, preDotState = 0\<rparr>"

subsection \<open>What they find\<close>

text \<open>The path without trailing separators, its last component, and the extension of a component.\<close>

definition trim_seps :: "(code_unit option \<Rightarrow> bool) \<Rightarrow> js_string \<Rightarrow> js_string" where
  "trim_seps isSep p = rev (dropWhile (\<lambda>c. isSep (Some c)) (rev p))"

definition last_part :: "(code_unit option \<Rightarrow> bool) \<Rightarrow> js_string \<Rightarrow> js_string" where
  "last_part isSep p = rev (takeWhile (\<lambda>c. \<not> isSep (Some c)) (rev p))"

definition base_of :: "(code_unit option \<Rightarrow> bool) \<Rightarrow> js_string \<Rightarrow> js_string" where
  "base_of isSep p = last_part isSep (trim_seps isSep p)"

definition stem_of :: "js_string \<Rightarrow> js_string" where
  "stem_of b =
     (let d = dropWhile (\<lambda>c. c \<noteq> CHAR_DOT) (rev b)
      in if tl d = [] \<or> b = dotdot_seg then b else rev (tl d))"

definition ext_of :: "js_string \<Rightarrow> js_string" where
  "ext_of b = drop (length (stem_of b)) b"

lemma trim_seps_snoc [simp]:
  "trim_seps isSep [] = []"
  "trim_seps isSep (p @ [c]) = (if isSep (Some c) then trim_seps isSep p else p @ [c])"
  by (simp_all add: trim_seps_def)

lemma last_part_snoc [simp]:
  "last_part isSep [] = []"
  "last_part isSep (p @ [c]) = (if isSep (Some c) then [] else last_part isSep p @ [c])"
  by (simp_all add: last_part_def)

lemma prefix_trim_seps: "prefix (trim_seps isSep p) p"
  by (induction p rule: rev_induct) auto

lemma last_part_noSep: "c \<in> set (last_part isSep p) \<Longrightarrow> \<not> isSep (Some c)"
  by (auto simp: last_part_def dest: set_takeWhileD)

lemma suffix_last_part: "suffix (last_part isSep p) p"
  by (induction p rule: rev_induct) auto

lemma stem_ext: "stem_of b @ ext_of b = b"
proof -
  have "prefix (stem_of b) b"
  proof -
    have "suffix (tl (dropWhile (\<lambda>c. c \<noteq> CHAR_DOT) (rev b))) (rev b)"
      by (meson suffix_dropWhile suffix_order.trans suffix_tl)
    then show ?thesis by (simp add: stem_of_def Let_def suffix_to_prefix)
  qed
  then show ?thesis by (metis ext_of_def prefix_def append_eq_conv_conj)
qed

lemma scan_while_eq:
  assumes "i \<le> n" "n \<le> length s"
  shows "scan_while P s i n = i + length (takeWhile (\<lambda>c. P (Some c)) (take (n - i) (drop i s)))"
  using assms
proof (induction P s i n rule: scan_while.induct)
  case (1 P s i n)
  show ?case
  proof (cases "i < n")
    case True
    then have d: "take (n - i) (drop i s) = s ! i # take (n - Suc i) (drop (Suc i) s)"
      using 1(3) by (metis Cons_nth_drop_Suc Suc_diff_Suc less_le_trans take_Suc_Cons)
    show ?thesis
      using 1 True by (subst scan_while.simps) (simp add: d)
  next
    case False
    then show ?thesis using 1 by (subst scan_while.simps) simp
  qed
qed

text \<open>\<open>part_start isSep path n\<close>: where the component that ends before index \<open>n\<close> starts.\<close>

definition part_start :: "(code_unit option \<Rightarrow> bool) \<Rightarrow> js_string \<Rightarrow> nat \<Rightarrow> nat" where
  "part_start isSep path n = n - length (last_part isSep (take n path))"

definition trim_len :: "(code_unit option \<Rightarrow> bool) \<Rightarrow> js_string \<Rightarrow> nat \<Rightarrow> nat" where
  "trim_len isSep path n = length (trim_seps isSep (take n path))"

lemma length_last_part_le: "length (last_part isSep p) \<le> length p"
  using suffix_last_part suffix_length_le by blast

lemma part_start_simps [simp]:
  "part_start isSep path 0 = 0"
  "i < length path \<Longrightarrow> part_start isSep path (Suc i) =
     (if isSep (Some (path ! i)) then Suc i else part_start isSep path i)"
  by (simp_all add: part_start_def take_Suc_conv_app_nth)

lemma part_start_le: "part_start isSep path n \<le> n"
  by (simp add: part_start_def)

lemma trim_len_simps [simp]:
  "trim_len isSep path 0 = 0"
  "i < length path \<Longrightarrow> trim_len isSep path (Suc i) =
     (if isSep (Some (path ! i)) then trim_len isSep path i else Suc i)"
  by (simp_all add: trim_len_def take_Suc_conv_app_nth)

lemma trim_len_le: "trim_len isSep path n \<le> n"
  unfolding trim_len_def using prefix_length_le [OF prefix_trim_seps, of isSep "take n path"] by simp

lemma trim_len_nonsep:
  "n \<le> length path \<Longrightarrow> trim_len isSep path n = Suc k \<Longrightarrow> \<not> isSep (Some (path ! k))"
  by (induction n) (auto split: if_splits)

lemma dirname_loop_part:
  "n \<le> length path \<Longrightarrow> dirname_loop isSep path offset False n =
     (if offset < part_start isSep path n then int (part_start isSep path n) - 1 else -1)"
proof (induction n)
  case (Suc n)
  then show ?case using part_start_le [of isSep path n] by auto
qed simp

lemma dirname_loop_trim:
  "n \<le> length path \<Longrightarrow>
     dirname_loop isSep path offset True n = dirname_loop isSep path offset False (trim_len isSep path n)"
proof (induction n)
  case (Suc n)
  have "dirname_loop isSep path offset False (trim_len isSep path n) = -1" if "n < offset"
    using that trim_len_le [of isSep path n]
    by (cases "trim_len isSep path n") auto
  with Suc show ?case by auto
qed simp

lemma dirname_loop_eq:
  assumes "n \<le> length path"
  shows "dirname_loop isSep path offset True n =
    (let m = part_start isSep path (trim_len isSep path n)
     in if offset < m then int m - 1 else -1)"
  using assms trim_len_le [of isSep path n]
  by (simp add: dirname_loop_trim dirname_loop_part Let_def)

lemma basename_loop_part:
  "n \<le> length path \<Longrightarrow> start \<le> n \<Longrightarrow> e \<noteq> -1 \<Longrightarrow> basename_loop isSep path start False e n =
     (int (max start (part_start isSep path n)), e)"
proof (induction n)
  case (Suc n)
  then show ?case
    using part_start_le [of isSep path n] by (cases "n < start") (auto simp: max_def)
qed simp

lemma basename_loop_eq:
  "n \<le> length path \<Longrightarrow> start \<le> n \<Longrightarrow> basename_loop isSep path start True (-1) n =
     (let k = trim_len isSep path n in
      if k \<le> start then (int start, -1) else (int (max start (part_start isSep path k)), int k))"
proof (induction n)
  case (Suc n)
  show ?case
  proof (cases "n < start")
    case True
    then show ?thesis
      using Suc.prems trim_len_le [of isSep path n] by (auto simp: Let_def)
  next
    case False
    then show ?thesis
      using Suc basename_loop_part [of n path start "int n + 1" isSep] by (auto simp: Let_def)
  qed
qed simp

text \<open>The characters of \<open>path\<close> from \<open>i\<close> to before \<open>k\<close>.\<close>

definition sub :: "js_string \<Rightarrow> nat \<Rightarrow> nat \<Rightarrow> js_string" where
  "sub path i k = take (k - i) (drop i path)"

lemma sub_self [simp]: "sub path i i = []"
  by (simp add: sub_def)

lemma sub_Cons: "i < k \<Longrightarrow> k \<le> length path \<Longrightarrow> sub path i k = path ! i # sub path (Suc i) k"
  by (metis Cons_nth_drop_Suc Suc_diff_Suc le_trans less_eq_Suc_le sub_def take_Suc_Cons)

lemma length_sub [simp]: "i \<le> k \<Longrightarrow> k \<le> length path \<Longrightarrow> length (sub path i k) = k - i"
  by (simp add: sub_def)

lemma sub_split: "i \<le> j \<Longrightarrow> j \<le> k \<Longrightarrow> sub path i k = sub path i j @ sub path j k"
proof -
  assume "i \<le> j" "j \<le> k"
  then have "k - i = (j - i) + (k - j)" "(j - i) + i = j" by auto
  then show ?thesis unfolding sub_def by (metis take_add drop_drop)
qed

lemma sub_slice: "i \<le> k \<Longrightarrow> k \<le> length path \<Longrightarrow> js_slice path (int i) (int k) = sub path i k"
  by (simp add: js_slice_nat sub_def)

lemma sub_part_start:
  assumes "k \<le> length path"
  shows "sub path (part_start isSep path k) k = last_part isSep (take k path)"
proof -
  obtain u where u: "take k path = u @ last_part isSep (take k path)"
    using suffix_last_part suffix_def by metis
  then have "length u = part_start isSep path k"
    using assms by (metis add_diff_cancel_right' length_append length_take min.absorb2 part_start_def)
  moreover have "sub path (length u) k = drop (length u) (take k path)"
    by (simp add: sub_def drop_take)
  ultimately show ?thesis by (metis append_eq_conv_conj u)
qed

lemma suffix_mismatch: "d \<noteq> c \<Longrightarrow> \<not> suffix (v @ d # w) (u @ c # w)"
  by (simp add: suffix_to_prefix)

definition ext_end :: "js_string \<Rightarrow> js_string \<Rightarrow> nat \<Rightarrow> int" where
  "ext_end ex b k =
     (if suffix ex b then int k - int (length ex) else if suffix b ex then -1 else int k)"

lemma basename_ext_loop_done:
  "n \<le> length path \<Longrightarrow> start \<le> n \<Longrightarrow> k \<noteq> -1 \<Longrightarrow>
     basename_ext_loop isSep path ex start False (-1) k e n =
       (int (max start (part_start isSep path n)), e, k)"
proof (induction n)
  case (Suc n)
  then show ?case
    using part_start_le [of isSep path n] by (cases "n < start") (auto simp: max_def Let_def)
qed simp

lemma basename_ext_loop_match:
  assumes "n \<le> k" "k \<le> length path" "start \<le> n"
    and "suffix (sub path n k) ex" "k - n < length ex"
  shows "basename_ext_loop isSep path ex start False (int (length ex) - 1 - int (k - n)) (int k) (-1) n =
    (let m = max start (part_start isSep path n) in (int m, ext_end ex (sub path m k) k, int k))"
  using assms
proof (induction n)
  case 0
  then have "\<not> suffix ex (sub path 0 k)" by (auto dest: suffix_length_le)
  with 0 show ?case by (simp add: ext_end_def)
next
  case (Suc i)
  let ?w = "sub path (Suc i) k"
  have len: "length ?w = k - Suc i" and i: "i < length path" using Suc.prems by auto
  have short: "\<not> suffix ex ?w" using len Suc.prems by (auto dest: suffix_length_le)
  obtain v where v: "ex = v @ ?w" using Suc.prems(4) by (auto simp: suffix_def)
  then have "v \<noteq> []" using Suc.prems(5) len by (cases v) auto
  then obtain v' d where ex: "ex = v' @ d # ?w" using v by (cases v rule: rev_cases) auto
  define E where "E = int (length ex) - 1 - int (k - Suc i)"
  have E: "E = int (length v')" using len by (simp add: ex E_def)
  have d: "charCodeAt ex E = Some d"
    unfolding E by (simp add: ex charCodeAt_def)
  have sub: "sub path i k = path ! i # ?w" using Suc.prems by (simp add: sub_Cons)
  show ?case
  proof (cases "i < start \<or> isSep (Some (path ! i))")
    case True
    then have m: "max start (part_start isSep path (Suc i)) = Suc i"
      using Suc.prems(3) part_start_le [of isSep path i] i by auto
    have "basename_ext_loop isSep path ex start False E (int k) (-1) (Suc i) = (int (Suc i), -1, int k)"
      using True Suc.prems(3) i by (cases "i < start") simp_all
    then show ?thesis
      unfolding E_def [symmetric] m using Suc.prems(4) short by (simp add: ext_end_def)
  next
    case False
    let ?m = "max start (part_start isSep path i)"
    have m: "?m \<le> i" using False part_start_le [of isSep path i] by auto
    have comp: "sub path ?m k = sub path ?m i @ path ! i # ?w"
      using sub_split [OF m, of k path] Suc.prems sub by simp
    show ?thesis
    proof (cases "path ! i = d")
      case eq: True
      show ?thesis
      proof (cases "v' = []")
        case True
        then have "suffix ex (sub path ?m k)" using eq comp by (simp add: ex suffix_def)
        moreover have "int (length ex) = int k - int i"
          using True len Suc.prems by (simp add: ex of_nat_diff)
        ultimately show ?thesis
          unfolding E_def [symmetric]
          using False d eq i True E Suc.prems basename_ext_loop_done [of i path start "int k" isSep ex "int i"]
          by (simp add: ext_end_def Let_def)
      next
        case ne: False
        have suf: "suffix (sub path i k) ex" using eq sub by (simp add: ex suffix_def)
        have lt: "k - i < length ex" using ne len Suc.prems by (cases v') (auto simp: ex)
        have E1: "E - 1 = int (length ex) - 1 - int (k - i)"
          using Suc.prems(1) by (simp add: E_def of_nat_diff)
        have "basename_ext_loop isSep path ex start False (E - 1) (int k) (-1) i =
            (let m = ?m in (int m, ext_end ex (sub path m k) k, int k))"
          unfolding E1 by (rule Suc.IH [OF _ _ _ suf lt]) (use False Suc.prems in auto)
        then show ?thesis
          unfolding E_def [symmetric] using False d eq i ne E Suc.prems by (simp add: Let_def)
      qed
    next
      case neq: False
      have "\<not> suffix ex (sub path ?m k)" "\<not> suffix (sub path ?m k) ex"
        unfolding comp ex by (rule suffix_mismatch, use neq in simp)+
      then show ?thesis
        unfolding E_def [symmetric]
        using False d neq i E Suc.prems basename_ext_loop_done [of i path start "int k" isSep ex "int k"]
        by (simp add: ext_end_def Let_def)
    qed
  qed
qed

lemma basename_ext_loop_eq:
  assumes "n \<le> length path" "start \<le> n" "ex \<noteq> []"
  shows "basename_ext_loop isSep path ex start True (int (length ex) - 1) (-1) (-1) n =
    (let k = trim_len isSep path n; m = max start (part_start isSep path k) in
     if k \<le> start then (int start, -1, -1) else (int m, ext_end ex (sub path m k) k, int k))"
  using assms
proof (induction n)
  case (Suc i)
  have i: "i < length path" using Suc.prems by simp
  show ?case
  proof (cases "i < start")
    case True
    then show ?thesis using Suc.prems trim_len_le [of isSep path i] by (auto simp: Let_def)
  next
    case start: False
    show ?thesis
    proof (cases "isSep (Some (path ! i))")
      case True
      then show ?thesis using Suc start i by (simp add: Let_def)
    next
      case False
      \<comment> \<open>the first non-separator: the same as a step in the middle of a component\<close>
      have "basename_ext_loop isSep path ex start True (int (length ex) - 1) (-1) (-1) (Suc i) =
        basename_ext_loop isSep path ex start False (int (length ex) - 1 - int (Suc i - Suc i)) (int (Suc i)) (-1) (Suc i)"
        using False start i by (simp add: Let_def add.commute)
      also have "\<dots> = (let m = max start (part_start isSep path (Suc i))
          in (int m, ext_end ex (sub path m (Suc i)) (Suc i), int (Suc i)))"
        by (rule basename_ext_loop_match) (use i start Suc.prems in auto)
      finally show ?thesis using False start i by (simp add: Let_def)
    qed
  qed
qed simp

text \<open>The state of the extension scan after it has read a whole piece \<open>w\<close> of a component,
  which starts at index \<open>s0\<close>.\<close>

definition dot_idx :: "js_string \<Rightarrow> int" where
  "dot_idx w = int (length (dropWhile (\<lambda>c. c \<noteq> CHAR_DOT) (rev w))) - 1"

definition pre_dot :: "js_string \<Rightarrow> int" where
  "pre_dot w = (if dot_idx w \<le> 0 then 0 else if hd w = CHAR_DOT then 1 else -1)"

definition ext_desc :: "nat \<Rightarrow> js_string \<Rightarrow> int \<Rightarrow> ext_scan" where
  "ext_desc s0 w sp =
     \<lparr>startDot = (if dot_idx w = -1 then -1 else int s0 + dot_idx w), startPart = sp,
      end_idx = int s0 + int (length w), matchedSlash = False, preDotState = pre_dot w\<rparr>"

lemma dot_idx_Nil [simp]: "dot_idx [] = -1"
  by (simp add: dot_idx_def)

lemma dot_idx_Cons:
  "dot_idx (c # w) = (if dot_idx w = -1 then (if c = CHAR_DOT then 0 else -1) else dot_idx w + 1)"
  by (auto simp: dot_idx_def dropWhile_append)

lemma dot_idx_ge: "-1 \<le> dot_idx w"
  by (simp add: dot_idx_def)

lemma ext_loop_part:
  assumes "n \<le> k" "k \<le> length path" "start \<le> n" "\<not> isSep (Some CHAR_DOT)"
  shows "ext_loop isSep path start (ext_desc n (sub path n k) sp) n =
    (let m = part_start isSep path n in
     if start < m then ext_desc m (sub path m k) (int m) else ext_desc start (sub path start k) sp)"
  using assms
proof (induction n)
  case 0
  then show ?case by simp
next
  case (Suc i)
  let ?w = "sub path (Suc i) k"
  have i: "i < length path" and sub: "sub path i k = path ! i # ?w"
    using Suc.prems by (auto simp: sub_Cons)
  consider "i < start" | "\<not> i < start" "isSep (Some (path ! i))" | "\<not> i < start" "\<not> isSep (Some (path ! i))"
    by blast
  then show ?case
  proof cases
    case 1
    then have "start = Suc i" using Suc.prems by simp
    then show ?thesis using part_start_le [of isSep path "Suc i"] by (simp add: Let_def)
  next
    case 2
    then show ?thesis using i by (simp add: ext_desc_def Let_def add.commute)
  next
    case 3
    have "ext_loop isSep path start (ext_desc (Suc i) ?w sp) (Suc i)
        = ext_loop isSep path start (ext_desc i (sub path i k) sp) i"
      unfolding sub using 3 i dot_idx_ge [of ?w]
      by (auto simp: Let_def ext_desc_def pre_dot_def dot_idx_Cons ac_simps)
    with Suc 3 i show ?thesis by simp
  qed
qed

lemma ext_loop_eq:
  assumes "n \<le> length path" "start \<le> n" "\<not> isSep (Some CHAR_DOT)"
  shows "ext_loop isSep path start (ext_scan_init sp) n =
    (let k = trim_len isSep path n; m = part_start isSep path k in
     if k \<le> start then ext_scan_init sp
     else if start < m then ext_desc m (sub path m k) (int m)
     else ext_desc start (sub path start k) sp)"
  using assms
proof (induction n)
  case (Suc i)
  have i: "i < length path" using Suc.prems by simp
  consider "i < start" | "\<not> i < start" "isSep (Some (path ! i))" | "\<not> i < start" "\<not> isSep (Some (path ! i))"
    by blast
  then show ?case
  proof cases
    case 1
    then show ?thesis using Suc.prems trim_len_le [of isSep path i] by (auto simp: Let_def)
  next
    case 2
    then show ?thesis using Suc i by (simp add: Let_def ext_scan_init_def)
  next
    case 3
    have "ext_loop isSep path start (ext_scan_init sp) (Suc i)
        = ext_loop isSep path start (ext_desc (Suc i) (sub path (Suc i) (Suc i)) sp) (Suc i)"
      using 3 i by (auto simp: Let_def ext_desc_def ext_scan_init_def pre_dot_def ac_simps)
    also have "\<dots> = (let m = part_start isSep path (Suc i) in
       if start < m then ext_desc m (sub path m (Suc i)) (int m)
       else ext_desc start (sub path start (Suc i)) sp)"
      by (rule ext_loop_part) (use 3 i Suc.prems in auto)
    finally show ?thesis using 3 i by (simp add: Let_def)
  qed
qed simp

lemma dot_idx_stem:
  assumes "0 < dot_idx w" "w \<noteq> dotdot_seg"
  shows "stem_of w = take (nat (dot_idx w)) w" "dot_idx w < int (length w)"
proof -
  define d where "d = dropWhile (\<lambda>c. c \<noteq> CHAR_DOT) (rev w)"
  obtain t where t: "rev w = t @ d" unfolding d_def by (metis takeWhile_dropWhile_id)
  then have w: "w = rev d @ rev t" by (metis rev_append rev_rev_ident)
  have len: "dot_idx w = int (length d) - 1" by (simp add: dot_idx_def d_def)
  then obtain a b d' where d: "d = a # b # d'"
    using assms(1) by (cases d; cases "tl d") auto
  show "dot_idx w < int (length w)" unfolding len by (simp add: w)
  have "stem_of w = rev (tl d)" using assms(2) d by (simp add: stem_of_def Let_def d_def [symmetric])
  also have "\<dots> = take (nat (dot_idx w)) w"
    unfolding len by (subst w) (simp add: d nat_add_distrib)
  finally show "stem_of w = take (nat (dot_idx w)) w" .
qed

lemma stem_of_no_ext:
  assumes "dot_idx w \<le> 0"
  shows "stem_of w = w"
proof -
  define d where "d = dropWhile (\<lambda>c. c \<noteq> CHAR_DOT) (rev w)"
  have "tl d = []" using assms by (cases d) (auto simp: dot_idx_def d_def [symmetric])
  then show ?thesis by (simp add: stem_of_def Let_def d_def [symmetric])
qed

lemma hd_dotdot: "dot_idx w = 1 \<Longrightarrow> hd w = CHAR_DOT \<Longrightarrow> length w = 2 \<Longrightarrow> w = dotdot_seg"
  by (cases w; cases "tl w") (auto simp: dot_idx_Cons split: if_splits)

lemma dot_idx_bound: "dot_idx w < int (length w)"
  using length_dropWhile_le [of "\<lambda>c. c \<noteq> CHAR_DOT" "rev w"] by (simp add: dot_idx_def)

text \<open>With the start of the component as \<open>startPart\<close>, the scan finds the extension.\<close>

lemma no_ext_desc:
  "w \<noteq> [] \<Longrightarrow> no_ext (ext_desc s0 w (int s0)) \<longleftrightarrow> dot_idx w \<le> 0 \<or> w = dotdot_seg"
  using dot_idx_ge [of w] hd_dotdot [of w]
  by (auto simp: no_ext_def ext_desc_def pre_dot_def dot_idx_Cons)

lemma no_ext_init [simp]: "no_ext (ext_scan_init sp)"
  by (simp add: no_ext_def ext_scan_init_def)

lemma ext_of_none: "dot_idx w \<le> 0 \<or> w = dotdot_seg \<Longrightarrow> ext_of w = []"
  by (auto simp: ext_of_def stem_of_no_ext stem_of_def [of dotdot_seg])

lemma trim_seps_take: "trim_seps isSep p = take (trim_len isSep p (length p)) p"
  using prefix_trim_seps [of isSep p] by (metis append_eq_conv_conj prefixE take_all order_refl trim_len_def)

lemma base_of_sub:
  "base_of isSep p = sub p (part_start isSep p (trim_len isSep p (length p))) (trim_len isSep p (length p))"
  using trim_len_le [of isSep p "length p"] sub_part_start [of "trim_len isSep p (length p)" p isSep]
  by (simp add: base_of_def trim_seps_take)

lemma base_of_nosep: "c \<in> set (base_of isSep p) \<Longrightarrow> \<not> isSep (Some c)"
  by (simp add: base_of_def last_part_noSep)

lemma base_of_Nil: "base_of isSep p = [] \<longleftrightarrow> trim_len isSep p (length p) = 0"
proof -
  define k where "k = trim_len isSep p (length p)"
  have "k \<le> length p" by (simp add: k_def trim_len_le)
  show ?thesis
  proof (cases k)
    case (Suc j)
    then have "\<not> isSep (Some (p ! j))" "j < length p"
      using trim_len_nonsep [of "length p" p isSep j] \<open>k \<le> length p\<close> by (simp_all add: k_def)
    then have "part_start isSep p k \<le> j" using Suc part_start_le [of isSep p j] by simp
    then show ?thesis
      using Suc \<open>k \<le> length p\<close> unfolding base_of_sub k_def [symmetric] by (simp add: sub_def)
  qed (simp add: base_of_sub k_def)
qed

lemma part_start_sep:
  "n \<le> length p \<Longrightarrow> part_start isSep p n = Suc j \<Longrightarrow> j < n \<and> isSep (Some (p ! j))"
  by (induction n) (auto split: if_splits dest: less_SucI)

text \<open>The path cut at its last component.\<close>

lemma path_decomp:
  assumes "m = part_start isSep p (trim_len isSep p (length p))"
  shows "trim_seps isSep p = take m p @ base_of isSep p"
proof -
  define k where "k = trim_len isSep p (length p)"
  have k: "k \<le> length p" "m \<le> k" using assms trim_len_le part_start_le by (simp_all add: k_def)
  then have "take k p = take m p @ sub p m k"
    using sub_split [of 0 m k p] by (simp add: sub_def)
  then show ?thesis by (simp add: trim_seps_take base_of_sub assms k_def)
qed

text \<open>What the scan of \<^verbatim>\<open>extname\<close> and \<^verbatim>\<open>parse\<close> reports, in terms of the component.\<close>

lemma slice_ext:
  assumes "m \<le> k" "k \<le> length p" "0 < dot_idx (sub p m k)" "sub p m k \<noteq> dotdot_seg"
  shows "js_slice p (int m + dot_idx (sub p m k)) (int k) = ext_of (sub p m k)"
    "js_slice p (int m) (int m + dot_idx (sub p m k)) = stem_of (sub p m k)"
proof -
  let ?w = "sub p m k"
  define i where "i = nat (dot_idx ?w)"
  have i: "dot_idx ?w = int i" "i < k - m" and st: "stem_of ?w = take i ?w"
    using dot_idx_stem [OF assms(3,4)] assms by (simp_all add: i_def)
  have "js_slice p (int (m + i)) (int k) = sub p (m + i) k" using assms i by (intro sub_slice) auto
  also have "\<dots> = drop i ?w" by (simp add: sub_def drop_take add.commute)
  finally show "js_slice p (int m + dot_idx ?w) (int k) = ext_of ?w"
    using i st assms by (simp add: ext_of_def)
  have "js_slice p (int m) (int (m + i)) = sub p m (m + i)" using assms i by (intro sub_slice) auto
  also have "\<dots> = take i ?w" using i by (simp add: sub_def min_def)
  finally show "js_slice p (int m) (int m + dot_idx ?w) = stem_of ?w" using i st by simp
qed

end
