(* ===== verification/Path_Posix.thy ===== *)
theory Path_Posix
  imports Path_Scan
begin

text \<open>
  \<^verbatim>\<open>path/_posix.ts\<close>. Every exported function is a definition with the prefix
  \<open>posix_\<close>; the part of it after the argument checks, which the other functions call on
  strings, is a definition of its own with the suffix \<open>_str\<close>. \<^verbatim>\<open>Deno.cwd\<close> is the
  argument \<open>cwd\<close>: \<^const>\<open>None\<close> when it is not a function, otherwise what the call returns
  or throws.
\<close>

type_synonym cwd_fn = "js_value result option"

definition posix_sep :: js_string where "posix_sep = [CHAR_FORWARD_SLASH]"
definition posix_delimiter :: js_string where "posix_delimiter = [CHAR_COLON]"

subsection \<open>resolve\<close>

text \<open>One pass of the loop body after \<^verbatim>\<open>assertPath\<close>: the new \<^verbatim>\<open>resolvedPath\<close> and
  \<^verbatim>\<open>resolvedAbsolute\<close>. An empty entry is skipped.\<close>

definition posix_resolve_entry :: "js_string \<Rightarrow> js_string \<Rightarrow> js_string \<times> bool" where
  "posix_resolve_entry path resolvedPath =
     (if path = [] then (resolvedPath, False)
      else (path @ [CHAR_FORWARD_SLASH] @ resolvedPath, charCodeAt path 0 = Some CHAR_FORWARD_SLASH))"

text \<open>The loop runs from the last segment to the first, then once for the working directory.\<close>

fun posix_resolve_loop :: "cwd_fn \<Rightarrow> js_value list \<Rightarrow> js_string \<Rightarrow> (js_string \<times> bool) result" where
  "posix_resolve_loop cwd [] resolvedPath =
     (case cwd of None \<Rightarrow> Inl (TypeError ''Resolved a relative path without a CWD.'')
      | Some r \<Rightarrow> bindE r (\<lambda>v. bindE (assertPath v) (\<lambda>path. Inr (posix_resolve_entry path resolvedPath))))"
| "posix_resolve_loop cwd (v # vs) resolvedPath =
     bindE (assertPath v) (\<lambda>path.
       let (resolvedPath', resolvedAbsolute) = posix_resolve_entry path resolvedPath
       in if resolvedAbsolute then Inr (resolvedPath', True)
          else posix_resolve_loop cwd vs resolvedPath')"

definition posix_resolve_finish :: "js_string \<Rightarrow> bool \<Rightarrow> js_string" where
  "posix_resolve_finish resolvedPath resolvedAbsolute =
     (let r = normalizeString resolvedPath (\<not> resolvedAbsolute) [CHAR_FORWARD_SLASH] isPosixPathSeparator
      in if resolvedAbsolute then (if length r > 0 then [CHAR_FORWARD_SLASH] @ r else [CHAR_FORWARD_SLASH])
         else if length r > 0 then r else [CHAR_DOT])"

definition posix_resolve :: "cwd_fn \<Rightarrow> js_value list \<Rightarrow> js_string result" where
  "posix_resolve cwd pathSegments =
     bindE (posix_resolve_loop cwd (rev pathSegments) [])
       (\<lambda>(resolvedPath, resolvedAbsolute). Inr (posix_resolve_finish resolvedPath resolvedAbsolute))"

subsection \<open>normalize, isAbsolute, join\<close>

definition posix_normalize_str :: "js_string \<Rightarrow> js_string" where
  "posix_normalize_str path =
     (if length path = 0 then [CHAR_DOT]
      else let isAbs = (charCodeAt path 0 = Some CHAR_FORWARD_SLASH);
               trailingSeparator = (charCodeAt path (int (length path) - 1) = Some CHAR_FORWARD_SLASH);
               p = normalizeString path (\<not> isAbs) [CHAR_FORWARD_SLASH] isPosixPathSeparator;
               p = (if length p = 0 \<and> \<not> isAbs then [CHAR_DOT] else p);
               p = (if length p > 0 \<and> trailingSeparator then p @ [CHAR_FORWARD_SLASH] else p)
           in if isAbs then [CHAR_FORWARD_SLASH] @ p else p)"

definition posix_normalize :: "js_value \<Rightarrow> js_string result" where
  "posix_normalize path = bindE (assertPath path) (\<lambda>p. Inr (posix_normalize_str p))"

definition posix_isAbsolute :: "js_value \<Rightarrow> bool result" where
  "posix_isAbsolute path =
     bindE (assertPath path) (\<lambda>p. Inr (length p > 0 \<and> charCodeAt p 0 = Some CHAR_FORWARD_SLASH))"

text \<open>\<^verbatim>\<open>joined\<close> starts undefined; \<^verbatim>\<open>!joined\<close> holds of undefined and of the empty string
  alike, and only non-empty strings are assigned, so both are the empty list here.\<close>

fun posix_join_loop :: "js_value list \<Rightarrow> js_string \<Rightarrow> js_string result" where
  "posix_join_loop [] joined = Inr joined"
| "posix_join_loop (v # vs) joined =
     bindE (assertPath v) (\<lambda>path.
       posix_join_loop vs
         (if length path > 0 then (if joined = [] then path else joined @ [CHAR_FORWARD_SLASH] @ path)
          else joined))"

definition posix_join :: "js_value list \<Rightarrow> js_string result" where
  "posix_join paths =
     (if length paths = 0 then Inr [CHAR_DOT]
      else bindE (posix_join_loop paths [])
        (\<lambda>joined. if joined = [] then Inr [CHAR_DOT] else Inr (posix_normalize_str joined)))"

subsection \<open>relative\<close>

text \<open>The comparison loop: an early return, or the value of \<^verbatim>\<open>lastCommonSep\<close> at the end.\<close>

function posix_rel_compare ::
  "js_string \<Rightarrow> js_string \<Rightarrow> nat \<Rightarrow> nat \<Rightarrow> nat \<Rightarrow> nat \<Rightarrow> nat \<Rightarrow> nat \<Rightarrow> int \<Rightarrow> js_string + int" where
  "posix_rel_compare from to fromStart toStart fromLen toLen len i lastCommonSep =
     (if i \<ge> len then
        (if toLen > len then
           (if charCodeAt to (int (toStart + i)) = Some CHAR_FORWARD_SLASH
            then Inl (js_slice_from to (int (toStart + i + 1)))
            else if i = 0 then Inl (js_slice_from to (int (toStart + i)))
            else Inr lastCommonSep)
         else if fromLen > len then
           (if charCodeAt from (int (fromStart + i)) = Some CHAR_FORWARD_SLASH then Inr (int i)
            else if i = 0 then Inr 0
            else Inr lastCommonSep)
         else Inr lastCommonSep)
      else let fromCode = charCodeAt from (int (fromStart + i));
               toCode = charCodeAt to (int (toStart + i))
           in if fromCode \<noteq> toCode then Inr lastCommonSep
              else posix_rel_compare from to fromStart toStart fromLen toLen len (Suc i)
                (if fromCode = Some CHAR_FORWARD_SLASH then int i else lastCommonSep))"
  by pat_completeness auto
termination
  by (relation "measure (\<lambda>(_, _, _, _, _, _, len, i, _). len - i)") auto

declare posix_rel_compare.simps [simp del]

text \<open>\<^verbatim>\<open>for (i = fromStart + lastCommonSep + 1; i <= fromEnd; ++i)\<close>\<close>

function posix_rel_out :: "js_string \<Rightarrow> nat \<Rightarrow> nat \<Rightarrow> js_string \<Rightarrow> js_string" where
  "posix_rel_out from fromEnd i out =
     (if i > fromEnd then out
      else posix_rel_out from fromEnd (Suc i)
        (if i = fromEnd \<or> charCodeAt from (int i) = Some CHAR_FORWARD_SLASH
         then (if length out = 0 then out @ dotdot_seg else out @ [CHAR_FORWARD_SLASH] @ dotdot_seg)
         else out))"
  by pat_completeness auto
termination
  by (relation "measure (\<lambda>(_, n, i, _). Suc n - i)") auto

declare posix_rel_out.simps [simp del]

text \<open>What follows the comparison: one \<^verbatim>\<open>..\<close> for each name left in \<^verbatim>\<open>from\<close>, then
  the rest of \<^verbatim>\<open>to\<close>.\<close>

definition posix_rel_finish :: "js_string \<Rightarrow> nat \<Rightarrow> js_string \<Rightarrow> nat \<Rightarrow> int \<Rightarrow> js_string" where
  "posix_rel_finish from fromStart to toStart lastCommonSep =
     (let out = posix_rel_out from (length from) (nat (int fromStart + lastCommonSep + 1)) []
      in if length out > 0 then out @ js_slice_from to (int toStart + lastCommonSep)
         else let toStart' = int toStart + lastCommonSep
              in js_slice_from to
                   (if charCodeAt to toStart' = Some CHAR_FORWARD_SLASH then toStart' + 1 else toStart'))"

text \<open>The body after both paths have been resolved and found different.\<close>

definition posix_relative_str :: "js_string \<Rightarrow> js_string \<Rightarrow> js_string" where
  "posix_relative_str from to =
     (let fromEnd = length from;
          fromStart = scan_while (\<lambda>c. c = Some CHAR_FORWARD_SLASH) from 1 fromEnd;
          fromLen = fromEnd - fromStart;
          toEnd = length to;
          toStart = scan_while (\<lambda>c. c = Some CHAR_FORWARD_SLASH) to 1 toEnd;
          toLen = toEnd - toStart;
          len = (if fromLen < toLen then fromLen else toLen)
      in case posix_rel_compare from to fromStart toStart fromLen toLen len 0 (-1) of
           Inl ret \<Rightarrow> ret
         | Inr lastCommonSep \<Rightarrow> posix_rel_finish from fromStart to toStart lastCommonSep)"

definition posix_relative :: "cwd_fn \<Rightarrow> js_value \<Rightarrow> js_value \<Rightarrow> js_string result" where
  "posix_relative cwd from to =
     bindE (assertPath from) (\<lambda>f. bindE (assertPath to) (\<lambda>t.
       if f = t then Inr []
       else bindE (posix_resolve cwd [JStr f]) (\<lambda>f'. bindE (posix_resolve cwd [JStr t]) (\<lambda>t'.
         if f' = t' then Inr [] else Inr (posix_relative_str f' t')))))"

definition posix_toNamespacedPath :: "js_value \<Rightarrow> js_value" where
  "posix_toNamespacedPath path = path"

subsection \<open>dirname, basename, extname\<close>

definition posix_dirname_str :: "js_string \<Rightarrow> js_string" where
  "posix_dirname_str path =
     (if length path = 0 then [CHAR_DOT]
      else let hasRoot = (charCodeAt path 0 = Some CHAR_FORWARD_SLASH);
               end = dirname_loop (\<lambda>c. c = Some CHAR_FORWARD_SLASH) path 1 True (length path)
           in if end = -1 then (if hasRoot then [CHAR_FORWARD_SLASH] else [CHAR_DOT])
              else if hasRoot \<and> end = 1 then [CHAR_FORWARD_SLASH, CHAR_FORWARD_SLASH]
              else js_slice path 0 end)"

definition posix_dirname :: "js_value \<Rightarrow> js_string result" where
  "posix_dirname path = bindE (assertPath path) (\<lambda>p. Inr (posix_dirname_str p))"

text \<open>\<^verbatim>\<open>ext\<close> defaults to the empty string, so an undefined argument arrives as \<open>[]\<close>.\<close>

definition posix_basename_str :: "js_string \<Rightarrow> js_string \<Rightarrow> js_string" where
  "posix_basename_str path ex =
     (if length ex > 0 \<and> length ex \<le> length path then
        (if length ex = length path \<and> ex = path then []
         else let (start, end, firstNonSlashEnd) =
                    basename_ext_loop (\<lambda>c. c = Some CHAR_FORWARD_SLASH) path ex 0 True
                      (int (length ex) - 1) (-1) (-1) (length path);
                  end' = (if start = end then firstNonSlashEnd
                          else if end = -1 then int (length path) else end)
              in js_slice path start end')
      else
        (let (start, end) = basename_loop (\<lambda>c. c = Some CHAR_FORWARD_SLASH) path 0 True (-1) (length path)
         in if end = -1 then [] else js_slice path start end))"

definition posix_basename :: "js_value \<Rightarrow> js_value \<Rightarrow> js_string result" where
  "posix_basename path ex =
     (case ex of
        JOther t \<Rightarrow> if t = TUndefined then bindE (assertPath path) (\<lambda>p. Inr (posix_basename_str p []))
                   else Inl (ERR_INVALID_ARG_TYPE ''ext'')
      | JStr e \<Rightarrow> bindE (assertPath path) (\<lambda>p. Inr (posix_basename_str p e)))"

definition posix_extname_str :: "js_string \<Rightarrow> js_string" where
  "posix_extname_str path =
     (let st = ext_loop (\<lambda>c. c = Some CHAR_FORWARD_SLASH) path 0 (ext_scan_init 0) (length path)
      in if no_ext st then [] else js_slice path (startDot st) (end_idx st))"

definition posix_extname :: "js_value \<Rightarrow> js_string result" where
  "posix_extname path = bindE (assertPath path) (\<lambda>p. Inr (posix_extname_str p))"

subsection \<open>format, parse\<close>

text \<open>\<^verbatim>\<open>typeof pathObject !== "object"\<close> and \<^verbatim>\<open>null\<close> are the left summand.\<close>

definition posix_format :: "js_typeof + ParsedPath \<Rightarrow> js_string result" where
  "posix_format pathObject =
     (case pathObject of Inl _ \<Rightarrow> Inl (ERR_INVALID_ARG_TYPE ''pathObject'')
      | Inr po \<Rightarrow> Inr (format_path [CHAR_FORWARD_SLASH] po))"

definition empty_parsed :: ParsedPath where
  "empty_parsed = \<lparr>root = [], dir = [], base = [], ext = [], name = []\<rparr>"

definition posix_parse_str :: "js_string \<Rightarrow> ParsedPath" where
  "posix_parse_str path =
     (if length path = 0 then empty_parsed
      else let isAbs = (charCodeAt path 0 = Some CHAR_FORWARD_SLASH);
               ret = (if isAbs then empty_parsed\<lparr>root := [CHAR_FORWARD_SLASH]\<rparr> else empty_parsed);
               start = (if isAbs then 1 else 0);
               st = ext_loop (\<lambda>c. c = Some CHAR_FORWARD_SLASH) path start (ext_scan_init 0) (length path);
               ret = (if no_ext st then
                        (if end_idx st \<noteq> -1 then
                           (if startPart st = 0 \<and> isAbs
                            then ret\<lparr>base := js_slice path 1 (end_idx st), name := js_slice path 1 (end_idx st)\<rparr>
                            else ret\<lparr>base := js_slice path (startPart st) (end_idx st),
                                     name := js_slice path (startPart st) (end_idx st)\<rparr>)
                         else ret)
                      else
                        (if startPart st = 0 \<and> isAbs
                         then ret\<lparr>name := js_slice path 1 (startDot st), base := js_slice path 1 (end_idx st),
                                  ext := js_slice path (startDot st) (end_idx st)\<rparr>
                         else ret\<lparr>name := js_slice path (startPart st) (startDot st),
                                  base := js_slice path (startPart st) (end_idx st),
                                  ext := js_slice path (startDot st) (end_idx st)\<rparr>))
           in if startPart st > 0 then ret\<lparr>dir := js_slice path 0 (startPart st - 1)\<rparr>
              else if isAbs then ret\<lparr>dir := [CHAR_FORWARD_SLASH]\<rparr> else ret)"

definition posix_parse :: "js_value \<Rightarrow> ParsedPath result" where
  "posix_parse path = bindE (assertPath path) (\<lambda>p. Inr (posix_parse_str p))"

subsection \<open>The reference semantics: a path as a change of directory\<close>

text \<open>
  A directory is the list of the names from the root to it. Following a path from a directory
  starts over at the root when the path is absolute.
\<close>

abbreviation psegs :: "js_string \<Rightarrow> js_string list" where
  "psegs \<equiv> segments isPosixPathSeparator"

definition is_abs :: "js_string \<Rightarrow> bool" where
  "is_abs p \<longleftrightarrow> charCodeAt p 0 = Some CHAR_FORWARD_SLASH"

definition cd :: "js_string list \<Rightarrow> js_string \<Rightarrow> js_string list" where
  "cd d p = resolve_segs False (if is_abs p then [] else d) (psegs p)"

definition dir_ok :: "js_string list \<Rightarrow> bool" where
  "dir_ok d \<longleftrightarrow> canonical False d \<and> (\<forall>s\<in>set d. seg_ok isPosixPathSeparator s)"

definition print_dir :: "js_string list \<Rightarrow> js_string" where
  "print_dir d = CHAR_FORWARD_SLASH # js_join [CHAR_FORWARD_SLASH] d"

lemma isPosix_slash [simp]: "isPosixPathSeparator (Some c) \<longleftrightarrow> c = CHAR_FORWARD_SLASH"
  by (simp add: isPosixPathSeparator_def)

lemma is_abs_simps [simp]: "\<not> is_abs []" "is_abs (c # p) \<longleftrightarrow> c = CHAR_FORWARD_SLASH"
  by (simp_all add: is_abs_def charCodeAt_zero)

lemma is_abs_append: "p \<noteq> [] \<Longrightarrow> is_abs (p @ q) \<longleftrightarrow> is_abs p"
  by (cases p) simp_all

lemma psegs_simps [simp]:
  "psegs [] = [[]]"
  "psegs (CHAR_FORWARD_SLASH # p) = [] # psegs p"
  "psegs (p @ CHAR_FORWARD_SLASH # q) = psegs p @ psegs q"
  by (simp_all add: segments_def split_acc_sep)

lemma seg_step_empty [simp]: "seg_step up st [] = st"
  by (simp add: seg_step_def)

lemma dir_ok_Nil [simp]: "dir_ok []"
  by (simp add: dir_ok_def)

lemma dir_ok_resolve: "dir_ok d \<Longrightarrow> dir_ok (resolve_segs False d (psegs p))"
  using posix.resolve_segments_ok by (auto simp: dir_ok_def canonical_resolve)

lemma dir_ok_cd: "dir_ok d \<Longrightarrow> dir_ok (cd d p)"
  by (simp add: cd_def dir_ok_resolve)

lemma cd_Nil [simp]: "cd d [] = d"
  by (simp add: cd_def)

lemma print_dir_psegs: "dir_ok d \<Longrightarrow> resolve_segs False st (psegs (print_dir d)) = st @ d"
  by (cases "d = []")
    (simp_all add: print_dir_def dir_ok_def posix.segments_join canonical_False resolve_plain)

lemma cd_print_dir [simp]: "dir_ok d \<Longrightarrow> cd st (print_dir d) = d"
  using print_dir_psegs [of d "[]"] by (simp add: cd_def print_dir_def)

lemma print_dir_inj: "dir_ok d \<Longrightarrow> dir_ok e \<Longrightarrow> print_dir d = print_dir e \<longleftrightarrow> d = e"
  by (metis cd_print_dir)

subsection \<open>resolve follows its arguments from the working directory\<close>

lemma resolve_entry_absolute: "posix_resolve_entry p r = (if p = [] then (r, False) else (p @ CHAR_FORWARD_SLASH # r, is_abs p))"
  by (simp add: posix_resolve_entry_def is_abs_def)

text \<open>What the loop has collected, \<open>r\<close>, is followed after the entries still to come.\<close>

lemma posix_resolve_loop_spec:
  assumes "is_abs c"
  shows "\<exists>r'. posix_resolve_loop (Some (Inr (JStr c))) (map JStr ps) r = Inr (r', True) \<and>
    resolve_segs False [] (psegs r') = resolve_segs False (foldl cd [] (c # rev ps)) (psegs r)"
proof (induction ps arbitrary: r)
  case Nil
  from assms have "c \<noteq> []" by auto
  with assms show ?case
    by (simp add: resolve_entry_absolute cd_def resolve_segs_append)
next
  case (Cons p ps)
  show ?case
  proof (cases "is_abs p")
    case True
    then have "p \<noteq> []" by auto
    with True show ?thesis
      by (simp add: resolve_entry_absolute cd_def resolve_segs_append)
  next
    case rel: False
    obtain r' where r': "posix_resolve_loop (Some (Inr (JStr c))) (map JStr ps)
          (if p = [] then r else p @ CHAR_FORWARD_SLASH # r) = Inr (r', True)"
        "resolve_segs False [] (psegs r') = resolve_segs False (foldl cd [] (c # rev ps))
          (psegs (if p = [] then r else p @ CHAR_FORWARD_SLASH # r))"
      using Cons.IH by blast
    with rel show ?thesis
      by (cases "p = []") (simp_all add: resolve_entry_absolute cd_def [of _ p] resolve_segs_append)
  qed
qed

lemma posix_resolve_finish_abs:
  "posix_resolve_finish r True = print_dir (resolve_segs False [] (psegs r))"
  by (simp add: posix_resolve_finish_def print_dir_def posix.normalizeString_spec Let_def)

lemma posix_resolve_cd:
  assumes "is_abs c"
  shows "posix_resolve (Some (Inr (JStr c))) (map JStr ps) = Inr (print_dir (foldl cd [] (c # ps)))"
proof -
  obtain r' where "posix_resolve_loop (Some (Inr (JStr c))) (map JStr (rev ps)) [] = Inr (r', True)"
      "resolve_segs False [] (psegs r') = foldl cd [] (c # ps)"
    using posix_resolve_loop_spec [OF assms, of "rev ps" "[]"] by auto
  then show ?thesis
    by (simp add: posix_resolve_def rev_map posix_resolve_finish_abs)
qed

lemma dir_ok_foldl_cd: "dir_ok d \<Longrightarrow> dir_ok (foldl cd d ps)"
  by (induction ps arbitrary: d) (simp_all add: dir_ok_cd)

subsection \<open>normalize\<close>

text \<open>The normal form with the given segments.\<close>

definition posix_nf :: "bool \<Rightarrow> js_string list \<Rightarrow> bool \<Rightarrow> js_string" where
  "posix_nf absolute st trailing =
     (if absolute then [CHAR_FORWARD_SLASH] else []) @
     (if st = [] \<and> \<not> absolute then dot_seg else js_join [CHAR_FORWARD_SLASH] st) @
     (if trailing \<and> (st \<noteq> [] \<or> \<not> absolute) then [CHAR_FORWARD_SLASH] else [])"

definition ok_segs :: "js_string list \<Rightarrow> bool" where
  "ok_segs st \<longleftrightarrow> (\<forall>s\<in>set st. s \<noteq> [] \<and> CHAR_FORWARD_SLASH \<notin> set s)"

lemma seg_ok_posix: "seg_ok isPosixPathSeparator s \<longleftrightarrow> s \<noteq> [] \<and> CHAR_FORWARD_SLASH \<notin> set s"
  by (auto simp: seg_ok_def)

lemma ok_segs_resolve: "ok_segs (resolve_segs up [] (psegs p))"
  using posix.resolve_segments_ok [of "[]"] by (auto simp: ok_segs_def seg_ok_posix)

lemma ok_join_Nil: "ok_segs st \<Longrightarrow> js_join sep st = [] \<longleftrightarrow> st = []"
  by (simp add: ok_segs_def js_join_eq_Nil)

lemma hd_join: "ok_segs st \<Longrightarrow> st \<noteq> [] \<Longrightarrow> hd (js_join sep st) \<noteq> CHAR_FORWARD_SLASH"
  by (cases st; cases "hd st") (auto simp: ok_segs_def js_join_Cons)

lemma last_join: "ok_segs st \<Longrightarrow> st \<noteq> [] \<Longrightarrow> last (js_join sep st) \<noteq> CHAR_FORWARD_SLASH"
proof (cases st rule: rev_cases)
  case (snoc ys y)
  assume "ok_segs st"
  then have "y \<noteq> []" "CHAR_FORWARD_SLASH \<notin> set y" by (auto simp: snoc ok_segs_def)
  then have "last y \<noteq> CHAR_FORWARD_SLASH" using last_in_set [of y] by metis
  then show ?thesis using \<open>y \<noteq> []\<close> by (simp add: snoc js_join_snoc)
qed simp

lemma is_abs_hd: "p \<noteq> [] \<Longrightarrow> is_abs p \<longleftrightarrow> hd p = CHAR_FORWARD_SLASH"
  by (cases p) simp_all

lemma is_abs_join: "ok_segs st \<Longrightarrow> st \<noteq> [] \<Longrightarrow> \<not> is_abs (js_join sep st @ t)"
  using hd_join [of st sep] ok_join_Nil [of st sep] by (simp add: is_abs_append is_abs_hd)

lemma posix_normalize_nf:
  "p \<noteq> [] \<Longrightarrow> posix_normalize_str p =
     posix_nf (is_abs p) (resolve_segs (\<not> is_abs p) [] (psegs p)) (last p = CHAR_FORWARD_SLASH)"
  using ok_join_Nil [OF ok_segs_resolve]
  by (cases "is_abs p") (simp_all add: posix_normalize_str_def posix_nf_def Let_def charCodeAt_last
      posix.normalizeString_spec flip: is_abs_def)

lemma resolve_join_segs:
  "ok_segs st \<Longrightarrow> canonical up st \<Longrightarrow> resolve_segs up [] (psegs (js_join [CHAR_FORWARD_SLASH] st)) = st"
  by (rule posix.resolve_join) (simp_all add: seg_ok_posix ok_segs_def)

lemma posix_nf_segs:
  "ok_segs st \<Longrightarrow> canonical (\<not> absolute) st \<Longrightarrow>
     resolve_segs (\<not> absolute) [] (psegs (posix_nf absolute st trailing)) = st"
  using resolve_join_segs [of st "\<not> absolute"]
  by (auto simp: posix_nf_def resolve_segs_append segments_nosep seg_step_def)

lemma is_abs_nf: "ok_segs st \<Longrightarrow> is_abs (posix_nf absolute st trailing) \<longleftrightarrow> absolute"
  using is_abs_join [of st "[CHAR_FORWARD_SLASH]"] is_abs_join [of st "[CHAR_FORWARD_SLASH]" "[]"]
  by (cases "st = []"; cases absolute) (simp_all add: posix_nf_def)

lemma posix_nf_trailing:
  "ok_segs st \<Longrightarrow>
     posix_nf absolute st (last (posix_nf absolute st trailing) = CHAR_FORWARD_SLASH) = posix_nf absolute st trailing"
  using last_join [of st "[CHAR_FORWARD_SLASH]"] ok_join_Nil [of st "[CHAR_FORWARD_SLASH]"]
  by (cases "st = []"; cases absolute; cases trailing) (simp_all add: posix_nf_def)

lemma posix_normalize_idem: "posix_normalize_str (posix_normalize_str p) = posix_normalize_str p"
proof (cases "p = []")
  case True
  have "posix_normalize_str dot_seg = dot_seg" by code_simp
  with True show ?thesis by (simp add: posix_normalize_str_def [of "[]"])
next
  case False
  define st where "st = resolve_segs (\<not> is_abs p) [] (psegs p)"
  define q where "q = posix_nf (is_abs p) st (last p = CHAR_FORWARD_SLASH)"
  have st: "ok_segs st" "canonical (\<not> is_abs p) st"
    by (simp_all add: st_def ok_segs_resolve canonical_resolve)
  have "q \<noteq> []" using st(1) by (auto simp: q_def posix_nf_def ok_join_Nil)
  then have "posix_normalize_str q = q"
    using st by (simp add: posix_normalize_nf q_def is_abs_nf posix_nf_segs posix_nf_trailing)
  moreover have "posix_normalize_str p = q"
    using False by (simp add: posix_normalize_nf q_def st_def)
  ultimately show ?thesis by simp
qed

text \<open>A path and its normal form lead to the same directory.\<close>

lemma cd_normalize: "cd d (posix_normalize_str p) = cd d p"
proof (cases "p = []")
  case True
  then show ?thesis by (simp add: posix_normalize_str_def cd_def segments_nosep seg_step_def)
next
  case False
  define st where "st = resolve_segs (\<not> is_abs p) [] (psegs p)"
  have st: "ok_segs st" "canonical (\<not> is_abs p) st"
    by (simp_all add: st_def ok_segs_resolve canonical_resolve)
  have n: "posix_normalize_str p = posix_nf (is_abs p) st (last p = CHAR_FORWARD_SLASH)"
    using False by (simp add: posix_normalize_nf st_def)
  show ?thesis
  proof (cases "is_abs p")
    case True
    then show ?thesis
      unfolding n cd_def using posix_nf_segs [OF st] st(1) by (simp add: is_abs_nf st_def)
  next
    case False
    have "resolve_segs False d (psegs (posix_nf False st tr)) = resolve_segs False d st" for tr
      using resolve_relative [of "[]" d "psegs (posix_nf False st tr)"] posix_nf_segs [OF st] False by simp
    moreover have "resolve_segs False d st = resolve_segs False d (psegs p)"
      using resolve_relative [of "[]" d "psegs p"] False by (simp add: st_def)
    ultimately show ?thesis
      unfolding n cd_def using False st(1) by (simp add: is_abs_nf)
  qed
qed

subsection \<open>join\<close>

lemma js_join_push:
  "js_join sep ((x @ y) # zs) = x @ js_join sep (y # zs)"
  "js_join sep ((c # y) # zs) = c # js_join sep (y # zs)"
  by (cases zs; simp)+

lemma posix_join_loop_eq:
  "posix_join_loop (map JStr ps) j = Inr (js_join [CHAR_FORWARD_SLASH] (filter (\<lambda>p. p \<noteq> []) (j # ps)))"
  by (induction ps arbitrary: j) (simp_all add: js_join_push)

lemma posix_normalize_Nil [simp]: "posix_normalize_str [] = dot_seg"
  by (simp add: posix_normalize_str_def)

lemma posix_join_eq:
  "posix_join (map JStr ps) =
     Inr (posix_normalize_str (js_join [CHAR_FORWARD_SLASH] (filter (\<lambda>p. p \<noteq> []) ps)))"
  by (simp add: posix_join_def posix_join_loop_eq)

subsection \<open>relative\<close>

lemma rel_compare_skip:
  assumes "k \<le> len" "len = min (length f) (length t)" "take k f = take k t"
  shows "posix_rel_compare (CHAR_FORWARD_SLASH # f) (CHAR_FORWARD_SLASH # t) 1 1 (length f) (length t) len 0 (-1) =
    posix_rel_compare (CHAR_FORWARD_SLASH # f) (CHAR_FORWARD_SLASH # t) 1 1 (length f) (length t) len k
      (lastIndexOf (take k f) [CHAR_FORWARD_SLASH])"
  using assms
proof (induction k)
  case 0
  then show ?case by (simp add: lastIndexOf_notin)
next
  case (Suc k)
  then have k: "k < length f" "k < length t" "take k f = take k t" "f ! k = t ! k"
    by (auto simp: take_Suc_conv_app_nth)
  with Suc show ?case
    by (simp add: posix_rel_compare.simps [of _ _ _ _ _ _ _ k] take_Suc_conv_app_nth lastIndexOf_snoc)
qed

definition dotdots :: "nat \<Rightarrow> js_string" where
  "dotdots n = js_join [CHAR_FORWARD_SLASH] (replicate n dotdot_seg)"

lemma dotdots_Suc: "dotdots (Suc n) = (if n = 0 then dotdot_seg else dotdots n @ CHAR_FORWARD_SLASH # dotdot_seg)"
proof -
  have "replicate (Suc n) dotdot_seg = replicate n dotdot_seg @ [dotdot_seg]"
    by (simp add: replicate_append_same)
  then show ?thesis unfolding dotdots_def by (simp only: js_join_snoc) simp
qed

lemma dotdots_Nil: "dotdots n = [] \<longleftrightarrow> n = 0"
  by (simp add: dotdots_def js_join_eq_Nil)

lemma dotdots_push:
  "(if length (dotdots n) = 0 then dotdots n @ dotdot_seg else dotdots n @ [CHAR_FORWARD_SLASH] @ dotdot_seg) =
     dotdots (Suc n)"
  using dotdots_Nil [of n] by (auto simp: dotdots_Suc)

lemma rel_out_eq:
  "posix_rel_out from (length from) i (dotdots j) =
     dotdots (j + (if i \<le> length from then Suc (count_list (drop i from) CHAR_FORWARD_SLASH) else 0))"
proof (induction "Suc (length from) - i" arbitrary: i j)
  case 0
  then show ?case by (simp add: posix_rel_out.simps)
next
  case (Suc n)
  show ?case
  proof (cases "i = length from")
    case True
    then show ?thesis
      by (simp add: posix_rel_out.simps [of _ _ "length from"] posix_rel_out.simps [of _ _ "Suc (length from)"]
          dotdots_push [simplified])
  next
    case False
    then have "i < length from" "drop i from = from ! i # drop (Suc i) from"
      using Suc by (auto simp: Cons_nth_drop_Suc)
    then show ?thesis
      using Suc.hyps(1) [of "Suc i" j] Suc.hyps(1) [of "Suc i" "Suc j"] Suc.hyps(2)
      by (simp add: posix_rel_out.simps [of _ _ i] dotdots_push [simplified])
  qed
qed

lemma rel_lead: "ok_segs d \<Longrightarrow>
    scan_while (\<lambda>c. c = Some CHAR_FORWARD_SLASH) (print_dir d) 1 (length (print_dir d)) = 1"
  using hd_join [of d "[CHAR_FORWARD_SLASH]"] ok_join_Nil [of d "[CHAR_FORWARD_SLASH]"]
  by (cases "js_join [CHAR_FORWARD_SLASH] d") (auto simp: scan_while.simps print_dir_def charCodeAt_def)

text \<open>The comparison stops after the common directories \<open>C\<close>: \<open>p\<close> is what both paths
  start with, and the rests diverge in their first name.\<close>

lemma rel_compare_diverge:
  assumes ab: "a \<noteq> b" "a \<noteq> []" "b \<noteq> []" "CHAR_FORWARD_SLASH \<notin> set a" "CHAR_FORWARD_SLASH \<notin> set b"
    and r: "ra = [] \<or> hd ra = CHAR_FORWARD_SLASH" "rb = [] \<or> hd rb = CHAR_FORWARD_SLASH"
    and p: "p = [] \<or> last p = CHAR_FORWARD_SLASH"
  defines "f \<equiv> p @ a @ ra" and "t \<equiv> p @ b @ rb"
  shows "posix_rel_compare (CHAR_FORWARD_SLASH # f) (CHAR_FORWARD_SLASH # t) 1 1 (length f) (length t)
    (min (length f) (length t)) 0 (-1) = Inr (int (length p) - 1)"
proof -
  obtain q a' b' where q: "a = q @ a'" "b = q @ b'" "a' = [] \<or> b' = [] \<or> hd a' \<noteq> hd b'"
    using longest_common_prefix by blast
  have L: "lastIndexOf (p @ q) [CHAR_FORWARD_SLASH] = int (length p) - 1"
  proof (cases p rule: rev_cases)
    case Nil
    then show ?thesis using ab q by (simp add: lastIndexOf_notin)
  next
    case (snoc p' c)
    then have "c = CHAR_FORWARD_SLASH" using p by simp
    then show ?thesis using ab q snoc lastIndexOf_append [of CHAR_FORWARD_SLASH q p'] by simp
  qed
  let ?k = "length (p @ q)" and ?len = "min (length f) (length t)"
  have f: "f = (p @ q) @ a' @ ra" and t: "t = (p @ q) @ b' @ rb" by (simp_all add: f_def t_def q)
  have "posix_rel_compare (CHAR_FORWARD_SLASH # f) (CHAR_FORWARD_SLASH # t) 1 1 (length f) (length t) ?len 0 (-1)
      = posix_rel_compare (CHAR_FORWARD_SLASH # f) (CHAR_FORWARD_SLASH # t) 1 1 (length f) (length t) ?len ?k
        (lastIndexOf (take ?k f) [CHAR_FORWARD_SLASH])"
    by (rule rel_compare_skip) (auto simp: f t)
  also have "take ?k f = p @ q" by (simp add: f)
  also have "posix_rel_compare (CHAR_FORWARD_SLASH # f) (CHAR_FORWARD_SLASH # t) 1 1 (length f) (length t) ?len ?k
        (lastIndexOf (p @ q) [CHAR_FORWARD_SLASH]) = Inr (lastIndexOf (p @ q) [CHAR_FORWARD_SLASH])"
  proof -
    have cf: "charCodeAt f (int ?k) = (case a' @ ra of [] \<Rightarrow> None | c # _ \<Rightarrow> Some c)"
      unfolding f charCodeAt_append_length by (rule charCodeAt_zero)
    have ct: "charCodeAt t (int ?k) = (case b' @ rb of [] \<Rightarrow> None | c # _ \<Rightarrow> Some c)"
      unfolding t charCodeAt_append_length by (rule charCodeAt_zero)
    have differ: "charCodeAt f (int ?k) \<noteq> charCodeAt t (int ?k)"
      unfolding cf ct using q ab r
      by (cases a'; cases b'; cases ra; cases rb) auto
    have ends: "a' @ ra = [] \<Longrightarrow> charCodeAt t (int ?k) \<noteq> Some CHAR_FORWARD_SLASH \<and> ?k \<noteq> 0"
      unfolding ct using q(1,2) ab by (cases b') simp_all
    have ends': "b' @ rb = [] \<Longrightarrow> charCodeAt f (int ?k) \<noteq> Some CHAR_FORWARD_SLASH \<and> ?k \<noteq> 0"
      unfolding cf using q(1,2) ab by (cases a') simp_all
    have c: "charCodeAt (CHAR_FORWARD_SLASH # x) (int (1 + ?k)) = charCodeAt x (int ?k)" for x
      by (simp add: charCodeAt_def nat_add_distrib)
    have len: "length f = ?k + length (a' @ ra)" "length t = ?k + length (b' @ rb)"
      by (simp_all add: f t)
    consider "a' @ ra = []" "b' @ rb \<noteq> []" | "a' @ ra \<noteq> []" "b' @ rb = []"
      | "a' @ ra \<noteq> []" "b' @ rb \<noteq> []"
      using differ unfolding cf ct by (cases "a' @ ra"; cases "b' @ rb") auto
    then show ?thesis
    proof cases
      case 1
      then have "\<not> ?k < ?len" "length t > ?len" unfolding len by simp_all
      then show ?thesis
        using ends [OF 1(1)] by (simp only: posix_rel_compare.simps [of _ _ _ _ _ _ _ ?k] c not_less if_True if_False)
    next
      case 2
      then have "?len \<le> ?k" "(?len < length t) = False" "?len < length f" unfolding len by simp_all
      then show ?thesis
        using ends' [OF 2(2)] by (simp only: posix_rel_compare.simps [of _ _ _ _ _ _ _ ?k] c if_True if_False)
    next
      case 3
      then have "?k < ?len" unfolding len by simp
      then have "\<not> ?len \<le> ?k" by (simp only: not_le)
      then show ?thesis
        using differ by (simp only: posix_rel_compare.simps [of _ _ _ _ _ _ _ ?k] c Let_def if_True if_False)
          simp
    qed
  qed
  finally show ?thesis using L by simp
qed

lemma join_split:
  "X \<noteq> [] \<Longrightarrow> js_join [c] (C @ X) = (if C = [] then [] else js_join [c] C @ [c]) @ js_join [c] X"
  by (cases "C = []") (simp_all add: js_join_append)

lemma join_head: "X \<noteq> [] \<Longrightarrow> \<exists>r. js_join [c] X = hd X @ r \<and> (r = [] \<or> hd r = c)"
  by (cases X) (auto simp: js_join_Cons)

lemma dotdots_append: "T \<noteq> [] \<Longrightarrow> n \<noteq> 0 \<Longrightarrow>
    js_join [CHAR_FORWARD_SLASH] (replicate n dotdot_seg @ T) = dotdots n @ CHAR_FORWARD_SLASH # js_join [CHAR_FORWARD_SLASH] T"
  by (simp add: dotdots_def js_join_append)

lemma ok_segs_append [simp]: "ok_segs (xs @ ys) \<longleftrightarrow> ok_segs xs \<and> ok_segs ys"
  by (auto simp: ok_segs_def)

lemma count_slash_join: "ok_segs X \<Longrightarrow> X \<noteq> [] \<Longrightarrow> Suc (count_list (js_join [CHAR_FORWARD_SLASH] X) CHAR_FORWARD_SLASH) = length X"
  by (subst count_join_single) (auto simp: ok_segs_def)

lemma posix_relative_str_unfold:
  assumes "ok_segs F" "ok_segs T"
  defines "f \<equiv> js_join [CHAR_FORWARD_SLASH] F" and "t \<equiv> js_join [CHAR_FORWARD_SLASH] T"
  shows "posix_relative_str (print_dir F) (print_dir T) =
    (case posix_rel_compare (print_dir F) (print_dir T) 1 1 (length f) (length t) (min (length f) (length t)) 0 (-1) of
       Inl ret \<Rightarrow> ret | Inr L \<Rightarrow> posix_rel_finish (print_dir F) 1 (print_dir T) 1 L)"
proof -
  have m: "(if a < b then a else b) = min a b" for a b :: nat by simp
  have l: "length (print_dir F) - 1 = length f" "length (print_dir T) - 1 = length t"
    by (simp_all add: print_dir_def f_def t_def)
  show ?thesis
    unfolding posix_relative_str_def Let_def rel_lead [OF assms(1)] rel_lead [OF assms(2)] m l ..
qed

lemma rel_finish_eq:
  assumes "-1 \<le> L" "L < int (length (js_join [CHAR_FORWARD_SLASH] F))"
  shows "posix_rel_finish (print_dir F) 1 to 1 L =
    dotdots (Suc (count_list (drop (nat (1 + L)) (js_join [CHAR_FORWARD_SLASH] F)) CHAR_FORWARD_SLASH)) @
    js_slice_from to (1 + L)"
proof -
  let ?f = "js_join [CHAR_FORWARD_SLASH] F"
  have n: "nat (int 1 + L + 1) = Suc (nat (1 + L))" "Suc (nat (1 + L)) \<le> Suc (length ?f)"
    using assms by linarith+
  have "posix_rel_out (print_dir F) (length (print_dir F)) (nat (int 1 + L + 1)) [] =
      dotdots (Suc (count_list (drop (nat (1 + L)) ?f) CHAR_FORWARD_SLASH))"
    using rel_out_eq [of "print_dir F" "Suc (nat (1 + L))" 0] n(2)
    unfolding n(1) by (simp add: dotdots_def print_dir_def)
  then show ?thesis
    unfolding posix_rel_finish_def using dotdots_Nil by (simp add: Let_def)
qed

text \<open>The text of the common directories, up to and with the slash that follows it.\<close>

definition lead :: "js_string list \<Rightarrow> js_string" where
  "lead C = (if C = [] then [] else js_join [CHAR_FORWARD_SLASH] C @ [CHAR_FORWARD_SLASH])"

lemma join_lead: "X \<noteq> [] \<Longrightarrow> js_join [CHAR_FORWARD_SLASH] (C @ X) = lead C @ js_join [CHAR_FORWARD_SLASH] X"
  by (simp add: lead_def join_split)

lemma relative_diverge:
  assumes ok: "ok_segs C" "ok_segs F" "ok_segs T" and ne: "F \<noteq> []" "T \<noteq> []"
    and hd: "hd F \<noteq> hd T"
  shows "posix_relative_str (print_dir (C @ F)) (print_dir (C @ T)) =
    js_join [CHAR_FORWARD_SLASH] (replicate (length F) dotdot_seg @ T)"
proof -
  let ?j = "js_join [CHAR_FORWARD_SLASH]"
  have okF: "ok_segs (C @ F)" and okT: "ok_segs (C @ T)" using ok by simp_all
  obtain ra rb where r: "?j F = hd F @ ra" "ra = [] \<or> hd ra = CHAR_FORWARD_SLASH"
      "?j T = hd T @ rb" "rb = [] \<or> hd rb = CHAR_FORWARD_SLASH"
    using join_head [OF ne(1)] join_head [OF ne(2)] by metis
  have "hd F \<in> set F" "hd T \<in> set T" using ne by simp_all
  then have c: "posix_rel_compare (print_dir (C @ F)) (print_dir (C @ T)) 1 1 (length (?j (C @ F))) (length (?j (C @ T)))
      (min (length (?j (C @ F))) (length (?j (C @ T)))) 0 (-1) = Inr (int (length (lead C)) - 1)"
    using rel_compare_diverge [of "hd F" "hd T" ra rb "lead C"] hd ne r ok
    by (auto simp: print_dir_def join_lead lead_def ok_segs_def)
  have "?j F \<noteq> []" using ne ok by (simp add: ok_join_Nil)
  then have "posix_relative_str (print_dir (C @ F)) (print_dir (C @ T)) =
      dotdots (length F) @ js_slice_from (print_dir (C @ T)) (int (length (lead C)))"
    using rel_finish_eq [of "int (length (lead C)) - 1" "C @ F"] ne ok c
    by (simp add: posix_relative_str_unfold [OF okF okT] join_lead count_slash_join)
  also have "js_slice_from (print_dir (C @ T)) (int (length (lead C))) = CHAR_FORWARD_SLASH # ?j T"
    using ne js_slice_from_nat [of "length (lead C)" "print_dir (C @ T)"]
    by (simp add: print_dir_def join_lead lead_def)
  finally show ?thesis using ne by (simp add: dotdots_append)
qed

lemma relative_down:
  assumes ok: "ok_segs C" "ok_segs F" "ok_segs T" and ne: "F = []" "T \<noteq> []"
  shows "posix_relative_str (print_dir (C @ F)) (print_dir (C @ T)) =
    js_join [CHAR_FORWARD_SLASH] (replicate (length F) dotdot_seg @ T)"
proof -
  let ?j = "js_join [CHAR_FORWARD_SLASH]"
  have okF: "ok_segs (C @ F)" and okT: "ok_segs (C @ T)" using ok by simp_all
  let ?f = "?j C"
  have t: "?j (C @ T) = lead C @ ?j T" "?j T \<noteq> []" "hd (?j T) \<noteq> CHAR_FORWARD_SLASH"
    using ne ok join_lead by (simp_all add: ok_join_Nil hd_join)
  have len: "length (?j (C @ T)) > length ?f" using t by (auto simp: lead_def)
  have "posix_rel_compare (print_dir C) (print_dir (C @ T)) 1 1 (length ?f) (length (?j (C @ T)))
      (min (length ?f) (length (?j (C @ T)))) 0 (-1) = Inl (?j T)"
  proof -
    have take: "take (length ?f) (?j (C @ T)) = ?f" unfolding t(1) by (simp add: lead_def)
    have at: "charCodeAt (?j (C @ T)) (int (length ?f)) = Some (if C = [] then hd (?j T) else CHAR_FORWARD_SLASH)"
      using t(2) unfolding t(1)
      by (cases "?j T") (simp_all add: lead_def charCodeAt_append_right charCodeAt_zero)
    show ?thesis
      using rel_compare_skip [of "length ?f" _ ?f "?j (C @ T)"] take len at t
        js_slice_from_nat [of 1 "print_dir T"] js_slice_from_nat [of "Suc (Suc (length ?f))" "print_dir (C @ T)"]
      by (cases "C = []") (simp_all add: print_dir_def posix_rel_compare.simps [of _ _ _ _ _ _ _ "length ?f"]
          posix_rel_compare.simps [of _ _ _ _ _ _ _ 0] min_def lead_def)
  qed
  then show ?thesis
    using posix_relative_str_unfold [OF okF okT] ne by simp
qed

lemma relative_up:
  assumes ok: "ok_segs C" "ok_segs F" "ok_segs T" and ne: "F \<noteq> []" "T = []"
  shows "posix_relative_str (print_dir (C @ F)) (print_dir (C @ T)) =
    js_join [CHAR_FORWARD_SLASH] (replicate (length F) dotdot_seg @ T)"
proof -
  let ?j = "js_join [CHAR_FORWARD_SLASH]"
  have okF: "ok_segs (C @ F)" and okT: "ok_segs (C @ T)" using ok by simp_all
  let ?t = "?j C"
  have f: "?j (C @ F) = lead C @ ?j F" "?j F \<noteq> []" "hd (?j F) \<noteq> CHAR_FORWARD_SLASH"
    using ne ok join_lead by (simp_all add: ok_join_Nil hd_join)
  have len: "length (?j (C @ F)) > length ?t" using f by (auto simp: lead_def)
  have c: "posix_rel_compare (print_dir (C @ F)) (print_dir C) 1 1 (length (?j (C @ F))) (length ?t)
      (min (length (?j (C @ F))) (length ?t)) 0 (-1) = Inr (int (length ?t))"
  proof -
    have take: "take (length ?t) (?j (C @ F)) = ?t" unfolding f(1) by (simp add: lead_def)
    have at: "charCodeAt (?j (C @ F)) (int (length ?t)) = Some (if C = [] then hd (?j F) else CHAR_FORWARD_SLASH)"
      using f(2) unfolding f(1)
      by (cases "?j F") (simp_all add: lead_def charCodeAt_append_right charCodeAt_zero)
    show ?thesis
    proof (cases "C = []")
      case True
      then show ?thesis
        using at f by (simp add: print_dir_def posix_rel_compare.simps [of _ _ _ _ _ _ _ 0])
    next
      case False
      then show ?thesis
        using rel_compare_skip [of "length ?t" _ "?j (C @ F)" ?t] take len at f
        by (simp add: print_dir_def posix_rel_compare.simps [of _ _ _ _ _ _ _ "length ?t"] min_def)
    qed
  qed
  have "Suc (count_list (drop (nat (1 + int (length ?t))) (?j (C @ F))) CHAR_FORWARD_SLASH) = length F"
    using f ne ok count_slash_join [of F]
    by (cases "C = []"; cases "?j F") (simp_all add: lead_def nat_add_distrib)
  then show ?thesis
    using rel_finish_eq [of "int (length ?t)" "C @ F" "print_dir C"] posix_relative_str_unfold [OF okF okT] c ne len
      js_slice_from_nat [of "length (print_dir C)" "print_dir C"]
    by (simp add: print_dir_def dotdots_def)
qed

lemma posix_relative_dirs:
  assumes "ok_segs C" "ok_segs F" "ok_segs T" "F \<noteq> [] \<or> T \<noteq> []"
    and "F \<noteq> [] \<Longrightarrow> T \<noteq> [] \<Longrightarrow> hd F \<noteq> hd T"
  shows "posix_relative_str (print_dir (C @ F)) (print_dir (C @ T)) =
    js_join [CHAR_FORWARD_SLASH] (replicate (length F) dotdot_seg @ T)"
proof -
  consider "F = []" "T \<noteq> []" | "F \<noteq> []" "T = []" | "F \<noteq> []" "T \<noteq> []" "hd F \<noteq> hd T"
    using assms(4,5) by fast
  then show ?thesis
    by cases (fact relative_down [OF assms(1,2,3)] relative_up [OF assms(1,2,3)] relative_diverge [OF assms(1,2,3)])+
qed

lemma common_dirs:
  "\<exists>C X Y. F = C @ X \<and> T = C @ Y \<and> (X \<noteq> [] \<longrightarrow> Y \<noteq> [] \<longrightarrow> hd X \<noteq> hd Y)"
  using longest_common_prefix [of F T] by blast

lemma dir_ok_iff: "dir_ok d \<longleftrightarrow> ok_segs d \<and> (\<forall>s\<in>set d. plain_seg s)"
  by (auto simp: dir_ok_def ok_segs_def seg_ok_posix canonical_False)

text \<open>Following \<open>n\<close> times \<^verbatim>\<open>..\<close> and then the names \<open>Y\<close>.\<close>

lemma cd_relative:
  assumes "dir_ok (C @ X)" "dir_ok (C @ Y)" "X \<noteq> [] \<or> Y \<noteq> []"
  shows "cd (C @ X) (js_join [CHAR_FORWARD_SLASH] (replicate (length X) dotdot_seg @ Y)) = C @ Y"
proof -
  let ?S = "replicate (length X) dotdot_seg @ Y"
  have ok: "ok_segs ?S" "?S \<noteq> []" using assms by (auto simp: ok_segs_def dir_ok_iff)
  then have "psegs (js_join [CHAR_FORWARD_SLASH] ?S) = ?S"
    by (intro posix.segments_join) (auto simp: seg_ok_posix ok_segs_def)
  moreover have "\<not> is_abs (js_join [CHAR_FORWARD_SLASH] ?S)"
    using is_abs_join [OF ok, of "[CHAR_FORWARD_SLASH]" "[]"] by simp
  ultimately show ?thesis
    using assms by (simp add: cd_def resolve_segs_append resolve_dotdots resolve_plain dir_ok_iff)
qed

lemma posix_relative_cd:
  assumes "dir_ok F" "dir_ok T" "F \<noteq> T"
  shows "cd F (posix_relative_str (print_dir F) (print_dir T)) = T"
proof -
  obtain C X Y where d: "F = C @ X" "T = C @ Y" "X \<noteq> [] \<longrightarrow> Y \<noteq> [] \<longrightarrow> hd X \<noteq> hd Y"
    using common_dirs by blast
  then have "X \<noteq> [] \<or> Y \<noteq> []" using assms(3) by auto
  with d assms show ?thesis
    using posix_relative_dirs [of C X Y] cd_relative [of C X Y] by (simp add: dir_ok_iff)
qed

subsection \<open>dirname and basename\<close>

abbreviation (input) is_slash :: "code_unit option \<Rightarrow> bool" where
  "is_slash \<equiv> (\<lambda>c. c = Some CHAR_FORWARD_SLASH)"

lemma is_slash_eq: "is_slash = isPosixPathSeparator"
  by (simp add: fun_eq_iff isPosixPathSeparator_def)

abbreviation (input) base_end :: "js_string \<Rightarrow> nat" where
  "base_end p \<equiv> trim_len is_slash p (length p)"

abbreviation (input) base_start :: "js_string \<Rightarrow> nat" where
  "base_start p \<equiv> part_start is_slash p (base_end p)"

lemma posix_basename_eq: "posix_basename_str p [] = base_of is_slash p"
proof -
  have "base_end p \<le> length p" "base_start p \<le> base_end p" by (simp_all add: trim_len_le part_start_le)
  then show ?thesis
    by (simp add: posix_basename_str_def basename_loop_eq Let_def base_of_sub sub_slice)
qed

lemma resolve_trim: "resolve_segs up st (psegs (trim_seps is_slash p)) = resolve_segs up st (psegs p)"
  by (induction p rule: rev_induct) (simp_all add: resolve_segs_append)

lemma psegs_noslash: "CHAR_FORWARD_SLASH \<notin> set s \<Longrightarrow> psegs s = [s]"
  by (rule segments_nosep) auto

lemma base_noslash: "CHAR_FORWARD_SLASH \<notin> set (base_of is_slash p)"
  using base_of_nosep [of CHAR_FORWARD_SLASH is_slash p] by auto

lemma noslash_not_abs: "CHAR_FORWARD_SLASH \<notin> set s \<Longrightarrow> \<not> is_abs s"
  by (cases s) auto

lemma posix_dirname_eq:
  "p \<noteq> [] \<Longrightarrow> posix_dirname_str p =
     (if base_start p \<le> 1 then (if is_abs p then [CHAR_FORWARD_SLASH] else dot_seg)
      else if is_abs p \<and> base_start p = 2 then [CHAR_FORWARD_SLASH, CHAR_FORWARD_SLASH]
      else take (base_start p - 1) p)"
proof -
  assume "p \<noteq> []"
  have "base_start p \<le> length p"
    using trim_len_le [of is_slash p "length p"] part_start_le [of is_slash p "base_end p"] by simp
  then show ?thesis
    using \<open>p \<noteq> []\<close> js_slice_zero [of "base_start p - 1" p]
    by (auto simp: posix_dirname_str_def dirname_loop_eq Let_def is_abs_def of_nat_diff)
qed

lemma cd_dirname_basename: "cd (cd d (posix_dirname_str p)) (posix_basename_str p []) = cd d p"
proof (cases "p = []")
  case True
  then show ?thesis
    by (simp add: posix_basename_eq base_of_def posix_dirname_str_def cd_def psegs_noslash seg_step_def)
next
  case False
  let ?b = "base_of is_slash p" and ?m = "base_start p"
  have t: "trim_seps is_slash p = take ?m p @ ?b" by (rule path_decomp) simp
  have base: "cd e ?b = resolve_segs False e [?b]" for e
    using base_noslash [of p] by (simp add: cd_def psegs_noslash noslash_not_abs)
  have p: "cd d p = resolve_segs False (if is_abs p then [] else d) (psegs (take ?m p @ ?b))"
    by (simp add: cd_def resolve_trim flip: t)
  have m_le: "?m \<le> length p"
    using trim_len_le [of is_slash p "length p"] part_start_le [of is_slash p "base_end p"] by simp
  show ?thesis
  proof (cases ?m)
    case 0
    then show ?thesis
      using base_noslash [of p] False
      by (simp add: posix_basename_eq base p posix_dirname_eq psegs_noslash)
        (simp add: cd_def psegs_noslash seg_step_def)
  next
    case (Suc j)
    have slash: "p ! j = CHAR_FORWARD_SLASH" "j < length p"
      using part_start_sep [of "base_end p" p is_slash j] Suc trim_len_le [of is_slash p "length p"] m_le by auto
    then have "take ?m p @ ?b = take j p @ CHAR_FORWARD_SLASH # ?b"
      by (simp add: Suc take_Suc_conv_app_nth)
    then have p': "cd d p = resolve_segs False (resolve_segs False (if is_abs p then [] else d) (psegs (take j p))) [?b]"
      using base_noslash [of p] by (simp add: p resolve_segs_append psegs_noslash)
    show ?thesis
    proof (cases "j = 0")
      case True
      then have "is_abs p" using slash False by (cases p) auto
      then show ?thesis using Suc True False by (simp add: posix_basename_eq base p' posix_dirname_eq) (simp add: cd_def)
    next
      case j: False
      then have "is_abs (take j p) = is_abs p" using False by (cases p; cases j) auto
      moreover have "j = 1 \<Longrightarrow> is_abs p \<Longrightarrow> take j p = [CHAR_FORWARD_SLASH]" using False by (cases p) auto
      ultimately show ?thesis
        using Suc j False by (simp add: posix_basename_eq base p' posix_dirname_eq) (auto simp: cd_def)
    qed
  qed
qed

subsection \<open>extname, parse and format\<close>

lemma base_start_less: "base_end p \<noteq> 0 \<Longrightarrow> base_start p < base_end p"
  using base_of_Nil [of is_slash p] trim_len_le [of is_slash p "length p"]
  by (auto simp: base_of_sub sub_def intro!: le_neq_implies_less part_start_le)

lemma base_bounds: "base_end p \<le> length p" "base_start p \<le> base_end p"
  by (simp_all add: trim_len_le part_start_le)

lemma abs_base_start: "is_abs p \<Longrightarrow> base_end p \<noteq> 0 \<Longrightarrow> 1 \<le> base_start p"
proof -
  assume "is_abs p" "base_end p \<noteq> 0"
  have "1 \<le> part_start is_slash p n" if "n \<le> length p" "n \<noteq> 0" for n
    using that \<open>is_abs p\<close> by (induction n) (auto simp: charCodeAt_def is_abs_def split: if_splits)
  then show ?thesis using base_bounds [of p] \<open>base_end p \<noteq> 0\<close> by simp
qed

lemma posix_extname_eq: "posix_extname_str p = ext_of (base_of is_slash p)"
proof (cases "base_end p = 0")
  case True
  then have "base_of is_slash p = []" by (simp add: base_of_Nil)
  with True show ?thesis
    by (simp add: posix_extname_str_def ext_loop_eq Let_def ext_of_def)
next
  case False
  let ?w = "sub p (base_start p) (base_end p)"
  have w: "?w \<noteq> []" "base_of is_slash p = ?w"
    using False base_of_Nil [of is_slash p] by (simp_all add: base_of_sub)
  have "ext_loop is_slash p 0 (ext_scan_init 0) (length p) = ext_desc (base_start p) ?w (int (base_start p))"
    using False by (auto simp: ext_loop_eq Let_def)
  then show ?thesis
    using no_ext_desc [OF w(1), of "base_start p"] w slice_ext [of "base_start p" "base_end p" p]
      base_bounds [of p] ext_of_none [of ?w]
    by (auto simp: posix_extname_str_def Let_def ext_desc_def)
qed

text \<open>
  \<^verbatim>\<open>parse\<close> scans an absolute path with \<^verbatim>\<open>startPart\<close> 0 instead of 1, so for the component
  \<^verbatim>\<open>..\<close> right below the root its test for \<^verbatim>\<open>..\<close> does not apply.
\<close>

definition root_dotdot :: "js_string \<Rightarrow> bool" where
  "root_dotdot p \<longleftrightarrow> trim_seps is_slash p = CHAR_FORWARD_SLASH # dotdot_seg"

definition parse_dir :: "js_string \<Rightarrow> js_string" where
  "parse_dir p = (if base_end p = 0 \<or> base_start p \<le> 1 then (if is_abs p then [CHAR_FORWARD_SLASH] else [])
     else take (base_start p - 1) p)"

lemma no_ext_root: "no_ext (ext_desc 1 w 0) \<longleftrightarrow> dot_idx w \<le> 0 \<or> w = []"
  using dot_idx_ge [of w] by (auto simp: no_ext_def ext_desc_def pre_dot_def)

lemma posix_parse_scan:
  assumes "p \<noteq> []"
  defines "m \<equiv> base_start p" and "k \<equiv> base_end p"
  defines "st \<equiv> ext_loop is_slash p (if is_abs p then 1 else 0) (ext_scan_init 0) (length p)"
  shows "st = (if k = 0 then ext_scan_init 0
    else ext_desc m (sub p m k) (if is_abs p \<and> m = 1 then 0 else int m))"
proof -
  have k1: "is_abs p \<Longrightarrow> k \<noteq> 1"
    using trim_len_nonsep [of "length p" p is_slash 0] assms(1) by (auto simp: k_def is_abs_def charCodeAt_def)
  have "1 \<le> length p" using assms(1) by (cases p) auto
  then show ?thesis
    using abs_base_start [of p] k1 unfolding st_def m_def k_def
    by (cases "is_abs p") (auto simp: ext_loop_eq Let_def)
qed

lemma posix_parse_empty:
  assumes "p \<noteq> []" "base_end p = 0"
  shows "posix_parse_str p = \<lparr>root = [CHAR_FORWARD_SLASH], dir = [CHAR_FORWARD_SLASH], base = [], ext = [], name = []\<rparr>"
proof -
  have "is_abs p"
  proof (rule ccontr)
    assume "\<not> is_abs p"
    then have "p ! 0 \<noteq> CHAR_FORWARD_SLASH" "0 < length p" using assms(1) by (auto simp: is_abs_def charCodeAt_def)
    moreover have "0 < n \<Longrightarrow> n \<le> length p \<Longrightarrow> 0 < trim_len is_slash p n" for n
      by (induction n) (use \<open>p ! 0 \<noteq> CHAR_FORWARD_SLASH\<close> in \<open>auto split: if_splits\<close>)
    ultimately show False using assms(2) by fastforce
  qed
  then show ?thesis
    using posix_parse_scan [OF assms(1)] assms
    by (simp add: posix_parse_str_def Let_def is_abs_def empty_parsed_def)
      (simp add: ext_scan_init_def)
qed

lemma root_dotdot_iff:
  assumes "p \<noteq> []"
  shows "root_dotdot p \<longleftrightarrow> is_abs p \<and> base_start p = 1 \<and> base_of is_slash p = dotdot_seg"
proof -
  have t: "trim_seps is_slash p = take (base_start p) p @ base_of is_slash p" by (rule path_decomp) simp
  have b: "base_of is_slash p = last_part is_slash (trim_seps is_slash p)" by (simp add: base_of_def)
  show ?thesis
  proof
    assume r: "root_dotdot p"
    then have w: "base_of is_slash p = dotdot_seg" by (simp add: b root_dotdot_def last_part_def)
    then have tk: "take (base_start p) p = [CHAR_FORWARD_SLASH]" using r t by (simp add: root_dotdot_def)
    have "base_start p \<le> length p" using base_bounds [of p] by simp
    then have "base_start p = 1" using arg_cong [OF tk, of length] by simp
    moreover have "is_abs p" using tk assms calculation by (cases p) auto
    ultimately show "is_abs p \<and> base_start p = 1 \<and> base_of is_slash p = dotdot_seg" using w by simp
  next
    assume r: "is_abs p \<and> base_start p = 1 \<and> base_of is_slash p = dotdot_seg"
    then have "take (base_start p) p = [CHAR_FORWARD_SLASH]" using assms by (cases p) auto
    with r t show "root_dotdot p" by (simp add: root_dotdot_def)
  qed
qed

lemma slice_sub:
  assumes "m \<le> k" "k \<le> length p" "i \<le> k - m"
  shows "js_slice p (int m + int i) (int k) = drop i (sub p m k)"
    and "js_slice p (int m) (int m + int i) = take i (sub p m k)"
  using js_slice_nat [of "m + i" k p] js_slice_nat [of m "m + i" p] assms
  by (simp_all add: sub_def drop_take add.commute min_def)

lemma posix_parse_scanned:
  assumes "p \<noteq> []" "base_end p \<noteq> 0"
  defines "m \<equiv> base_start p" and "k \<equiv> base_end p" and "w \<equiv> base_of is_slash p"
  defines "none \<equiv> dot_idx w \<le> 0 \<or> (w = dotdot_seg \<and> \<not> root_dotdot p)"
  shows "posix_parse_str p =
    \<lparr>root = (if is_abs p then [CHAR_FORWARD_SLASH] else []), dir = parse_dir p, base = js_slice p (int m) (int k),
     ext = (if none then [] else js_slice p (int m + dot_idx w) (int k)),
     name = (if none then js_slice p (int m) (int k) else js_slice p (int m) (int m + dot_idx w))\<rparr>"
proof -
  have w: "w = sub p m k" by (simp add: base_of_sub w_def m_def k_def)
  have bounds: "m < k" "k \<le> length p"
    using base_bounds [of p] base_start_less assms(2) by (auto simp: m_def k_def)
  then have km: "int m + int (length w) = int k" "w \<noteq> []" by (auto simp: w sub_def)
  have rd: "root_dotdot p \<longleftrightarrow> is_abs p \<and> m = 1 \<and> w = dotdot_seg"
    unfolding w_def m_def by (rule root_dotdot_iff [OF assms(1)])
  have m1: "is_abs p \<Longrightarrow> m \<noteq> 0" using abs_base_start [of p] assms(2) by (simp add: m_def)
  have dir: "parse_dir p = (if m \<le> 1 then if is_abs p then [CHAR_FORWARD_SLASH] else [] else js_slice p 0 (int m - 1))"
    unfolding parse_dir_def m_def [symmetric]
    using js_slice_zero [of "m - 1" p] bounds assms(2) by (cases m) simp_all
  define sp where "sp = (if is_abs p \<and> m = 1 then 0 else int m)"
  have scan: "ext_loop is_slash p (if is_abs p then 1 else 0) (ext_scan_init 0) (length p) = ext_desc m w sp"
    using posix_parse_scan [OF assms(1)] assms(2) by (simp add: w m_def k_def sp_def)
  have no: "no_ext (ext_desc m w sp) \<longleftrightarrow> none"
    using no_ext_desc [OF km(2), of m] no_ext_root [of w] km(2) unfolding none_def rd sp_def
    by (cases "is_abs p \<and> m = 1") auto
  have dot: "startDot (ext_desc m w sp) = int m + dot_idx w" if "\<not> none"
    using that unfolding none_def by (simp add: ext_desc_def)
  have flds: "startPart (ext_desc m w sp) = sp" "end_idx (ext_desc m w sp) = int k"
    using km(1) by (simp_all add: ext_desc_def)
  have sp: "sp = 0 \<and> is_abs p \<longleftrightarrow> is_abs p \<and> m = 1" "0 < sp \<longleftrightarrow> 0 < m \<and> \<not> (is_abs p \<and> m = 1)"
    using m1 by (auto simp: sp_def)
  show ?thesis
  proof (cases "is_abs p \<and> m = 1")
    case True
    then show ?thesis using assms(1) dot
      unfolding dir posix_parse_str_def Let_def is_abs_def [symmetric] scan no flds sp
      by (simp add: empty_parsed_def)
  next
    case False
    then have "sp = int m" by (simp add: sp_def)
    moreover have "js_slice p 0 0 = []" using js_slice_zero [of 0 p] by simp
    moreover have "m = 0 \<or> m = 1 \<or> \<not> m \<le> 1" by auto
    ultimately show ?thesis using False assms(1) dot m1
      unfolding dir posix_parse_str_def Let_def is_abs_def [symmetric] scan no flds sp
      by (cases "is_abs p") (auto simp: empty_parsed_def)
  qed
qed

lemma posix_parse_eq:
  assumes "p \<noteq> []" "base_end p \<noteq> 0"
  shows "posix_parse_str p =
    \<lparr>root = (if is_abs p then [CHAR_FORWARD_SLASH] else []), dir = parse_dir p, base = base_of is_slash p,
     ext = (if root_dotdot p then dot_seg else ext_of (base_of is_slash p)),
     name = (if root_dotdot p then dot_seg else stem_of (base_of is_slash p))\<rparr>"
proof -
  define m k w where "m = base_start p" and "k = base_end p" and "w = base_of is_slash p"
  have w: "w = sub p m k" by (simp add: base_of_sub w_def m_def k_def)
  have bounds: "m \<le> k" "k \<le> length p" using base_bounds [of p] by (auto simp: m_def k_def)
  have whole: "js_slice p (int m) (int k) = w" using bounds by (simp add: w sub_slice)
  have parts: "js_slice p (int m) (int m + dot_idx w) = take (nat (dot_idx w)) w"
      "js_slice p (int m + dot_idx w) (int k) = drop (nat (dot_idx w)) w" if "0 < dot_idx w"
    using slice_sub [OF bounds, of "nat (dot_idx w)"] that dot_idx_bound [of w] bounds by (simp_all add: w)
  have stem: "take (nat (dot_idx w)) w = stem_of w" "drop (nat (dot_idx w)) w = ext_of w"
    if "0 < dot_idx w" "w \<noteq> dotdot_seg"
    using dot_idx_stem [OF that] by (simp_all add: ext_of_def)
  have rd: "w = dotdot_seg" if "root_dotdot p"
    using that root_dotdot_iff [OF assms(1)] unfolding w_def by blast
  have dd: "dot_idx dotdot_seg = 1" by (simp add: dot_idx_Cons)
  have none: "ext_of w = []" "stem_of w = w" if "dot_idx w \<le> 0 \<or> w = dotdot_seg"
    using ext_of_none [of w] stem_ext [of w] that by simp_all
  note eq = posix_parse_scanned [OF assms, folded m_def k_def w_def]
  consider "root_dotdot p" | "\<not> root_dotdot p" "dot_idx w \<le> 0 \<or> w = dotdot_seg"
    | "\<not> root_dotdot p" "0 < dot_idx w" "w \<noteq> dotdot_seg" by linarith
  then show ?thesis
  proof cases
    case 1
    then show ?thesis unfolding eq w_def [symmetric] whole using parts by (simp add: rd dd)
  next
    case 2
    then show ?thesis unfolding eq w_def [symmetric] whole using none by auto
  next
    case 3
    then show ?thesis unfolding eq w_def [symmetric] whole using parts stem by simp
  qed
qed

lemma format_path_parts:
  "b \<noteq> [] \<Longrightarrow> format_path s \<lparr>root = r, dir = d, base = b, ext = e, name = n\<rparr> =
     (if d = [] then r @ b else if d = r then d @ b else d @ s @ b)"
  by (simp add: format_path_def js_or_def)

lemma base_start_one:
  assumes "base_end p \<noteq> 0" "base_start p \<le> 1"
  shows "take (base_start p) p = (if is_abs p then [CHAR_FORWARD_SLASH] else [])"
proof (cases "base_start p")
  case 0
  then show ?thesis using abs_base_start [of p] assms(1) by auto
next
  case (Suc j)
  then have "p ! 0 = CHAR_FORWARD_SLASH" "0 < length p"
    using part_start_sep [of "base_end p" p is_slash 0] assms base_bounds [of p] by auto
  then show ?thesis using Suc assms(2) by (cases p) auto
qed

lemma posix_format_parse_eq:
  "format_path [CHAR_FORWARD_SLASH] (posix_parse_str p) =
     (if p = [] then [] else if base_end p = 0 then [CHAR_FORWARD_SLASH]
      else if is_abs p \<and> base_start p = 2 then CHAR_FORWARD_SLASH # base_of is_slash p
      else trim_seps is_slash p)"
proof -
  have t: "trim_seps is_slash p = take (base_start p) p @ base_of is_slash p" by (rule path_decomp) simp
  have "base_start p \<le> 1 \<or> (\<exists>j. base_start p = Suc (Suc j))" by presburger
  then consider "p = []" | "p \<noteq> []" "base_end p = 0" | "p \<noteq> []" "base_end p \<noteq> 0" "base_start p \<le> 1"
    | j where "p \<noteq> []" "base_end p \<noteq> 0" "base_start p = Suc (Suc j)" by blast
  then show ?thesis
  proof cases
    case 1
    then show ?thesis by (simp add: format_path_def posix_parse_str_def empty_parsed_def js_or_def)
  next
    case 2
    then show ?thesis by (simp add: posix_parse_empty format_path_def js_or_def)
  next
    case 3
    have b: "base_of is_slash p \<noteq> []" using 3 by (simp add: base_of_Nil)
    have d: "parse_dir p = (if is_abs p then [CHAR_FORWARD_SLASH] else [])" using 3 by (simp add: parse_dir_def)
    show ?thesis
      unfolding t posix_parse_eq [OF 3(1,2)] format_path_parts [OF b] base_start_one [OF 3(2,3)] d
      using 3 by simp
  next
    case 4
    have b: "base_of is_slash p \<noteq> []" using 4 by (simp add: base_of_Nil)
    have slash: "p ! Suc j = CHAR_FORWARD_SLASH" "Suc j < length p"
      using part_start_sep [of "base_end p" p is_slash "Suc j"] 4 base_bounds [of p] by auto
    then have tk: "take (Suc (Suc j)) p = take (Suc j) p @ [CHAR_FORWARD_SLASH]" by (simp add: take_Suc_conv_app_nth)
    have root: "take (Suc j) p = (if is_abs p then [CHAR_FORWARD_SLASH] else []) \<longleftrightarrow> is_abs p \<and> j = 0"
      using slash by (cases p) auto
    have d: "parse_dir p = take (Suc j) p" "take (Suc j) p \<noteq> []" using 4 slash by (auto simp: parse_dir_def)
    show ?thesis
      unfolding t posix_parse_eq [OF 4(1,2)] format_path_parts [OF b] d(1) root 4(3) tk
      using 4(1,2) d(2) by (cases p) auto
  qed
qed

text \<open>The extension argument of \<^verbatim>\<open>basename\<close>.\<close>

definition strip_ext :: "js_string \<Rightarrow> js_string \<Rightarrow> js_string" where
  "strip_ext ex b = (if strict_suffix ex b then take (length b - length ex) b else b)"

lemma base_end_full: "p \<noteq> [] \<Longrightarrow> last p \<noteq> CHAR_FORWARD_SLASH \<Longrightarrow> base_end p = length p"
  by (induction p rule: rev_induct) (simp_all add: trim_len_def)

lemma posix_basename_ext:
  assumes "p \<noteq> []" "last p \<noteq> CHAR_FORWARD_SLASH" "ex \<noteq> p"
  shows "posix_basename_str p ex = strip_ext ex (base_of is_slash p)"
proof -
  define m where "m = base_start p"
  define w where "w = base_of is_slash p"
  have k: "base_end p = length p" using assms by (rule_tac base_end_full)
  then have m: "m < length p" using base_start_less [of p] assms(1) by (simp add: m_def)
  have w: "w = sub p m (length p)" using k by (simp add: base_of_sub w_def m_def)
  then have lw: "length w = length p - m" "w \<noteq> []" using m by (auto simp: sub_def)
  show ?thesis
  proof (cases "ex \<noteq> [] \<and> length ex \<le> length p")
    case False
    then have "posix_basename_str p ex = posix_basename_str p []" by (auto simp: posix_basename_str_def)
    moreover have "strict_suffix ex w \<Longrightarrow> ex = []"
      using False suffix_length_le [of ex w] lw by (auto simp: strict_suffix_def)
    ultimately show ?thesis by (auto simp: posix_basename_eq strip_ext_def w_def)
  next
    case True
    then have loop: "basename_ext_loop is_slash p ex 0 True (int (length ex) - 1) (-1) (-1) (length p) =
        (int m, ext_end ex w (length p), int (length p))"
      using basename_ext_loop_eq [of "length p" p 0 ex is_slash] k assms(1)
      by (simp add: Let_def w m_def)
    have slice: "js_slice p (int m) (int (length p)) = w" using m by (simp add: w sub_slice)
    have cut: "js_slice p (int m) (int (length p) - int (length ex)) = take (length w - length ex) w"
      if "suffix ex w"
      using slice_sub(2) [of m "length p" p "length w - length ex"] suffix_length_le [OF that] m lw
      by (simp add: w of_nat_diff)
    have start: "int m = int (length p) - int (length ex) \<longleftrightarrow> ex = w" if suf: "suffix ex w"
    proof -
      obtain zs where zs: "w = zs @ ex" using suf by (rule suffixE)
      then have "length zs + length ex = length p - m" using lw(1) by simp
      then have "int m = int (length p) - int (length ex) \<longleftrightarrow> length zs = 0" using m by arith
      then show ?thesis using zs by simp
    qed
    have nn: "int (length p) - int (length ex) \<noteq> -1" "int m \<noteq> -1" using True by auto
    have le: "\<not> (length ex = length p \<and> ex = p)" "length ex > 0 \<and> length ex \<le> length p"
      using True assms(3) by auto
    have eq: "posix_basename_str p ex =
        (let end = ext_end ex w (length p)
         in js_slice p (int m) (if int m = end then int (length p) else if end = -1 then int (length p) else end))"
      unfolding posix_basename_str_def loop using le by (simp only: simp_thms if_False if_True prod.case Let_def)
    consider "suffix ex w" "ex = w" | "suffix ex w" "ex \<noteq> w" | "\<not> suffix ex w" by blast
    then show ?thesis
    proof cases
      case 1
      then have "ext_end ex w (length p) = int m" using start by (simp add: ext_end_def)
      then show ?thesis unfolding eq w_def [symmetric] using 1 slice by (simp add: strip_ext_def)
    next
      case 2
      then have "ext_end ex w (length p) = int (length p) - int (length ex)" by (simp add: ext_end_def)
      then show ?thesis unfolding eq w_def [symmetric] Let_def
        using 2 start cut nn by (simp only: strip_ext_def strict_suffix_def simp_thms if_True if_False)
    next
      case 3
      then have "ext_end ex w (length p) \<in> {-1, int (length p)}" by (simp add: ext_end_def)
      then show ?thesis unfolding eq w_def [symmetric]
        using 3 slice by (auto simp: strip_ext_def strict_suffix_def Let_def)
    qed
  qed
qed

lemma resolve_loop_absolute:
  "is_abs p \<Longrightarrow> posix_resolve_loop cwd (map JStr qs @ JStr p # vs) r =
     posix_resolve_loop cwd' (map JStr qs @ JStr p # vs') r"
  by (induction qs arbitrary: r) (auto simp: resolve_entry_absolute is_abs_def)

lemma resolve_loop_type_error:
  "list_all (\<lambda>q. \<not> is_abs q) qs \<Longrightarrow>
     posix_resolve_loop cwd (map JStr qs @ JOther t # vs) r = Inl (ERR_INVALID_ARG_TYPE ''path'')"
  by (induction qs arbitrary: r) (auto simp: resolve_entry_absolute)

subsection \<open>Properties\<close>

text \<open>C4. \<^verbatim>\<open>resolve\<close> computes the directory reached by following the working directory and then
  every argument from left to right, where an absolute path starts over at the root; the result is the
  absolute path of that directory, whose names are neither empty nor \<^verbatim>\<open>.\<close> nor \<^verbatim>\<open>..\<close>
  and hold no slash.\<close>

theorem resolve_follows_paths:
  assumes "posix_isAbsolute (JStr c) = Inr True"
  shows "posix_resolve (Some (Inr (JStr c))) (map JStr ps) = Inr (print_dir (foldl cd [] (c # ps))) \<and>
    dir_ok (foldl cd [] (c # ps))"
proof -
  have "is_abs c" using assms by (simp add: posix_isAbsolute_def is_abs_def)
  then show ?thesis using posix_resolve_cd [of c ps] dir_ok_foldl_cd [of "[]" "c # ps"] by simp
qed

theorem resolve_follows_paths_witness:
  "posix_resolve (Some (Inr (JStr (js ''/home/u'')))) (map JStr [js ''../w'', js ''a/./b'']) = Inr (js ''/home/w/a/b'')"
proof -
  have "posix_isAbsolute (JStr (js ''/home/u'')) = Inr True" by code_simp
  from resolve_follows_paths [OF this, of "[js ''../w'', js ''a/./b'']"]
  have "posix_resolve (Some (Inr (JStr (js ''/home/u'')))) (map JStr [js ''../w'', js ''a/./b'']) =
    Inr (print_dir (foldl cd [] (js ''/home/u'' # [js ''../w'', js ''a/./b''])))" by (rule conjunct1)
  also have "print_dir (foldl cd [] (js ''/home/u'' # [js ''../w'', js ''a/./b''])) = js ''/home/w/a/b''"
    by code_simp
  finally show ?thesis .
qed

text \<open>C8. \<^verbatim>\<open>relative\<close> inverts \<^verbatim>\<open>resolve\<close>: whatever path it returns, resolving that
  path from \<^verbatim>\<open>from\<close> gives what resolving \<^verbatim>\<open>to\<close> gives, and it always returns a path
  when both arguments are strings and the working directory is absolute.\<close>

theorem relative_resolves_back:
  assumes "posix_isAbsolute (JStr c) = Inr True"
  defines "cwd \<equiv> Some (Inr (JStr c))"
  shows "\<exists>r. posix_relative cwd (JStr f) (JStr t) = Inr r \<and>
    posix_resolve cwd [JStr f, JStr r] = posix_resolve cwd [JStr t]"
proof -
  have c: "is_abs c" using assms(1) by (simp add: posix_isAbsolute_def is_abs_def)
  have ok: "dir_ok (cd [] c)" by (simp add: dir_ok_cd)
  then have okf: "dir_ok (cd (cd [] c) f)" "dir_ok (cd (cd [] c) t)" by (simp_all add: dir_ok_cd)
  have res: "posix_resolve cwd [JStr x] = Inr (print_dir (cd (cd [] c) x))"
      "posix_resolve cwd [JStr x, JStr y] = Inr (print_dir (cd (cd (cd [] c) x) y))" for x y
    using posix_resolve_cd [OF c, of "[x]"] posix_resolve_cd [OF c, of "[x, y]"] by (simp_all add: cwd_def)
  show ?thesis
  proof (cases "cd (cd [] c) f = cd (cd [] c) t")
    case True
    then have "posix_relative cwd (JStr f) (JStr t) = Inr []" by (simp add: posix_relative_def res)
    then show ?thesis by (simp add: res True)
  next
    case False
    then have "posix_relative cwd (JStr f) (JStr t) =
        Inr (posix_relative_str (print_dir (cd (cd [] c) f)) (print_dir (cd (cd [] c) t)))"
      using print_dir_inj [OF okf] by (auto simp: posix_relative_def res)
    then show ?thesis using posix_relative_cd [OF okf False] by (simp add: res)
  qed
qed

theorem relative_resolves_back_witness:
  "\<exists>r. posix_relative (Some (Inr (JStr (js ''/'')))) (JStr (js ''/a/b'')) (JStr (js ''/a/c/d'')) = Inr r \<and>
    posix_resolve (Some (Inr (JStr (js ''/'')))) [JStr (js ''/a/b''), JStr r] =
    posix_resolve (Some (Inr (JStr (js ''/'')))) [JStr (js ''/a/c/d'')]"
proof -
  have "posix_isAbsolute (JStr (js ''/'')) = Inr True" by code_simp
  then show ?thesis by (rule relative_resolves_back)
qed

text \<open>C20. \<^verbatim>\<open>normalize\<close> returns a fixed point of itself on every string.\<close>

theorem normalize_idempotent:
  "\<exists>n. posix_normalize (JStr p) = Inr n \<and> posix_normalize (JStr n) = Inr n"
  by (simp add: posix_normalize_def posix_normalize_idem)

text \<open>C18. Normalizing a path does not change the file it denotes: from any absolute working directory
  and after any other arguments it resolves to the same path.\<close>

theorem normalize_same_file:
  assumes "posix_isAbsolute (JStr c) = Inr True" and "posix_normalize (JStr p) = Inr n"
  shows "posix_resolve (Some (Inr (JStr c))) (map JStr (qs @ [n])) =
    posix_resolve (Some (Inr (JStr c))) (map JStr (qs @ [p]))"
proof -
  have "is_abs c" using assms(1) by (simp add: posix_isAbsolute_def is_abs_def)
  moreover have "n = posix_normalize_str p" using assms(2) by (simp add: posix_normalize_def)
  ultimately show ?thesis using posix_resolve_cd [of c "qs @ [n]"] posix_resolve_cd [of c "qs @ [p]"]
    by (simp add: cd_normalize)
qed

theorem normalize_same_file_witness:
  "posix_resolve (Some (Inr (JStr (js ''/r'')))) (map JStr ([js ''s''] @ [js ''b''])) =
   posix_resolve (Some (Inr (JStr (js ''/r'')))) (map JStr ([js ''s''] @ [js ''a/..//b'']))"
proof -
  have "posix_isAbsolute (JStr (js ''/r'')) = Inr True" "posix_normalize (JStr (js ''a/..//b'')) = Inr (js ''b'')"
    by code_simp+
  then show ?thesis by (rule normalize_same_file)
qed

text \<open>An absolute argument of \<^verbatim>\<open>resolve\<close> hides what is to the left of it: those arguments are
  not even checked to be strings, and the working directory is not asked for.\<close>

lemma resolve_absolute_hides:
  assumes "posix_isAbsolute (JStr p) = Inr True"
  shows "posix_resolve cwd (vs @ JStr p # map JStr ps) = posix_resolve cwd' (JStr p # map JStr ps)"
proof -
  have "is_abs p" using assms by (simp add: posix_isAbsolute_def is_abs_def)
  then show ?thesis
    using resolve_loop_absolute [of p cwd "rev ps" "rev vs" "[]" cwd' "[]"]
    by (simp add: posix_resolve_def rev_map)
qed

text \<open>When no argument to the right of it is absolute, an argument of \<^verbatim>\<open>resolve\<close> that is not a
  string makes it throw \<^verbatim>\<open>ERR_INVALID_ARG_TYPE\<close> for \<^verbatim>\<open>path\<close>, whatever stands to its left.\<close>

lemma resolve_type_error:
  assumes "list_all (\<lambda>p. posix_isAbsolute (JStr p) = Inr False) ps"
  shows "posix_resolve cwd (vs @ JOther t # map JStr ps) = Inl (ERR_INVALID_ARG_TYPE ''path'')"
proof -
  have "list_all (\<lambda>p. \<not> is_abs p) (rev ps)"
    using assms by (auto simp: posix_isAbsolute_def is_abs_def list_all_iff charCodeAt_def)
  from resolve_loop_type_error [OF this, of cwd t "rev vs" "[]"]
  show ?thesis by (simp add: posix_resolve_def rev_map)
qed

text \<open>C30. \<^verbatim>\<open>join\<close> normalizes the non-empty arguments put together with a slash between them, and
  gives \<^verbatim>\<open>.\<close> when there is none.\<close>

theorem join_normalizes:
  "posix_join (map JStr ps) = posix_normalize (JStr (js_join posix_sep (filter (\<lambda>p. p \<noteq> []) ps))) \<and>
   posix_normalize (JStr []) = Inr (js ''.'')"
  by (simp add: posix_join_eq posix_normalize_def posix_sep_def) (simp add: js_def)

text \<open>C29. A path denotes the entry \<^verbatim>\<open>basename(path)\<close> of the directory \<^verbatim>\<open>dirname(path)\<close>: the two
  together resolve to what the path resolves to, and the base name holds no slash.\<close>

theorem dirname_basename_resolve:
  assumes "posix_isAbsolute (JStr c) = Inr True"
  shows "\<exists>d b. posix_dirname (JStr p) = Inr d \<and> posix_basename (JStr p) (JOther TUndefined) = Inr b \<and>
    CHAR_FORWARD_SLASH \<notin> set b \<and>
    posix_resolve (Some (Inr (JStr c))) [JStr d, JStr b] = posix_resolve (Some (Inr (JStr c))) [JStr p]"
proof -
  have c: "is_abs c" using assms by (simp add: posix_isAbsolute_def is_abs_def)
  show ?thesis
    using posix_resolve_cd [OF c, of "[posix_dirname_str p, posix_basename_str p []]"] posix_resolve_cd [OF c, of "[p]"]
      cd_dirname_basename [of _ p] base_noslash [of p]
    by (simp add: posix_dirname_def posix_basename_def) (simp add: posix_basename_eq)
qed

theorem dirname_basename_resolve_witness:
  "\<exists>d b. posix_dirname (JStr (js ''a/b/'')) = Inr d \<and> posix_basename (JStr (js ''a/b/'')) (JOther TUndefined) = Inr b \<and>
    CHAR_FORWARD_SLASH \<notin> set b \<and>
    posix_resolve (Some (Inr (JStr (js ''/r'')))) [JStr d, JStr b] =
    posix_resolve (Some (Inr (JStr (js ''/r'')))) [JStr (js ''a/b/'')]"
proof -
  have "posix_isAbsolute (JStr (js ''/r'')) = Inr True" by code_simp
  then show ?thesis by (rule dirname_basename_resolve)
qed

text \<open>C31. The parts that \<^verbatim>\<open>parse\<close> returns agree with the other functions: its \<^verbatim>\<open>base\<close> is the
  base name, its \<^verbatim>\<open>name\<close> and \<^verbatim>\<open>ext\<close> make up the base name, and its \<^verbatim>\<open>ext\<close> is what
  \<^verbatim>\<open>extname\<close> returns, except for \<^verbatim>\<open>/..\<close>, where \<^verbatim>\<open>extname\<close> returns the empty
  string and \<^verbatim>\<open>parse\<close> a dot.\<close>

theorem parse_agrees:
  "\<exists>r. posix_parse (JStr p) = Inr r \<and> posix_basename (JStr p) (JOther TUndefined) = Inr (base r) \<and>
     name r @ ext r = base r \<and>
     posix_extname (JStr p) = Inr (if root_dotdot p then [] else ext r) \<and>
     (root_dotdot p \<longrightarrow> ext r = js ''.'')"
proof -
  consider "p = []" | "p \<noteq> []" "base_end p = 0" | "p \<noteq> []" "base_end p \<noteq> 0" by blast
  then show ?thesis
  proof cases
    case 1
    show ?thesis unfolding 1 by (rule exI [of _ empty_parsed]) code_simp
  next
    case 2
    then have b: "base_of is_slash p = []" by (simp add: base_of_Nil)
    moreover have "\<not> root_dotdot p" using b root_dotdot_iff [OF 2(1)] by simp
    ultimately show ?thesis
      using posix_parse_empty [OF 2]
      by (simp add: posix_parse_def posix_basename_def posix_extname_def posix_extname_eq posix_basename_eq ext_of_def)
  next
    case 3
    have "root_dotdot p \<Longrightarrow> base_of is_slash p = dotdot_seg" using root_dotdot_iff [OF 3(1)] by blast
    then show ?thesis
      using posix_parse_eq [OF 3] stem_ext [of "base_of is_slash p"] ext_of_none [of dotdot_seg]
      by (cases "root_dotdot p")
        (simp_all add: posix_parse_def posix_basename_def posix_extname_def posix_extname_eq posix_basename_eq js_def)
  qed
qed

theorem parse_agrees_witness:
  "root_dotdot (js ''/..'') \<and> posix_extname (JStr (js ''/..'')) = Inr [] \<and>
   (\<exists>r. posix_parse (JStr (js ''/..'')) = Inr r \<and> ext r = js ''.'' \<and> name r = js ''.'')"
proof -
  have rd: "root_dotdot (js ''/..'')" by code_simp
  obtain r where r: "posix_parse (JStr (js ''/..'')) = Inr r" "posix_basename (JStr (js ''/..'')) (JOther TUndefined) = Inr (base r)"
    "name r @ ext r = base r" "posix_extname (JStr (js ''/..'')) = Inr []" "ext r = js ''.''"
    using parse_agrees [of "js ''/..''"] rd by auto
  have "posix_basename (JStr (js ''/..'')) (JOther TUndefined) = Inr (js ''.'' @ js ''.'')" by code_simp
  then have "name r @ js ''.'' = js ''.'' @ js ''.''" using r(2,3,5) by simp
  then have "name r = js ''.''" by (rule append_same_eq [THEN iffD1])
  then show ?thesis using rd r(1,4,5) by blast
qed

text \<open>C28. \<^verbatim>\<open>format\<close> inverts \<^verbatim>\<open>parse\<close> on the paths that do not end in a slash and are not two
  slashes followed by a single name.\<close>

theorem format_parse:
  assumes "p = [] \<or> last p \<noteq> CHAR_FORWARD_SLASH"
    and "prefix (js ''//'') p \<longrightarrow> CHAR_FORWARD_SLASH \<in> set (drop 2 p)"
  shows "\<exists>r. posix_parse (JStr p) = Inr r \<and> posix_format (Inr r) = Inr p"
proof -
  have "posix_format (Inr (posix_parse_str p)) = Inr p"
  proof (cases "p = []")
    case False
    then have k: "base_end p = length p" using assms(1) base_end_full by blast
    have t: "trim_seps is_slash p = p" by (simp add: trim_seps_take k)
    have "\<not> (is_abs p \<and> base_start p = 2)"
    proof
      assume m: "is_abs p \<and> base_start p = 2"
      have pd: "p = take 2 p @ base_of is_slash p" using path_decomp [of "base_start p" is_slash p] t m by simp
      have "p ! 1 = CHAR_FORWARD_SLASH" "1 < length p"
        using part_start_sep [of "base_end p" p is_slash 1] m k by auto
      then have "take 2 p = js ''//''" using m by (cases p; cases "tl p") (auto simp: js_def)
      moreover have "drop 2 p = base_of is_slash p" using pd by (metis append_take_drop_id same_append_eq)
      ultimately show False using assms(2) base_noslash [of p] by (metis take_is_prefix)
    qed
    then have "format_path posix_sep (posix_parse_str p) = p"
      using posix_format_parse_eq [of p] False k t by (simp only: posix_sep_def if_False length_0_conv)
    then show ?thesis by (simp add: posix_format_def posix_sep_def)
  qed (simp add: posix_format_def posix_format_parse_eq)
  then show ?thesis by (simp add: posix_parse_def)
qed

theorem format_parse_witness:
  "\<exists>r. posix_parse (JStr (js ''/a/b.c'')) = Inr r \<and> posix_format (Inr r) = Inr (js ''/a/b.c'')"
proof -
  have "js ''/a/b.c'' = [] \<or> last (js ''/a/b.c'') \<noteq> CHAR_FORWARD_SLASH"
    "prefix (js ''//'') (js ''/a/b.c'') \<longrightarrow> CHAR_FORWARD_SLASH \<in> set (drop 2 (js ''/a/b.c''))"
    by code_simp+
  then show ?thesis by (rule format_parse)
qed

text \<open>With an extension argument, and for a path that does not end in a slash and is not the extension
  itself, \<^verbatim>\<open>basename\<close> removes the extension from the last component exactly when it is a proper
  suffix of that component.\<close>

lemma basename_removes_ext:
  assumes "p \<noteq> []" "last p \<noteq> CHAR_FORWARD_SLASH" "ex \<noteq> p" "posix_basename (JStr p) (JOther TUndefined) = Inr b"
  shows "posix_basename (JStr p) (JStr ex) =
    Inr (if strict_suffix ex b then take (length b - length ex) b else b)"
  using assms posix_basename_ext [of p ex] by (simp add: posix_basename_def posix_basename_eq strip_ext_def)

end
