(* ===== verification/Path_Win32.thy ===== *)
theory Path_Win32
  imports Path_Posix
begin

text \<open>
  \<^verbatim>\<open>path/_win32.ts\<close>, with the conventions of the POSIX variant: \<open>win32_X\<close> is an exported function
  with its argument checks, \<open>win32_X_str\<close> the part after them. \<^verbatim>\<open>Deno\<close> is the record
  \<open>deno\<close> below, and \<^verbatim>\<open>String.prototype.toLowerCase\<close>, whose table belongs to the
  engine, is the argument \<open>lower\<close>.
\<close>

record deno =
  deno_cwd :: cwd_fn
  env_get_is_function :: bool

definition win32_sep :: js_string where "win32_sep = [CHAR_BACKWARD_SLASH]"
definition win32_delimiter :: js_string where "win32_delimiter = [59]"

subsection \<open>Roots\<close>

text \<open>
  After two leading separators \<^verbatim>\<open>resolve\<close>, \<^verbatim>\<open>normalize\<close>, \<^verbatim>\<open>dirname\<close> and
  \<^verbatim>\<open>parse\<close> run the same three loops: a server name, separators, a share name. The result is
  the server name and the bounds \<^verbatim>\<open>last\<close> and \<^verbatim>\<open>j\<close> of the share name.
\<close>

definition unc_scan :: "js_string \<Rightarrow> (js_string \<times> nat \<times> nat) option" where
  "unc_scan path =
     (let len = length path; last' = 2; j = scan_while (\<lambda>c. \<not> isPathSeparator c) path 2 len
      in if j < len \<and> j \<noteq> last' then
           (let firstPart = js_slice path (int last') (int j); last' = j;
                j = scan_while isPathSeparator path j len
            in if j < len \<and> j \<noteq> last' then
                 (let last' = j; j = scan_while (\<lambda>c. \<not> isPathSeparator c) path j len
                  in Some (firstPart, last', j))
               else None)
         else None)"

definition unc_device :: "js_string \<Rightarrow> js_string \<Rightarrow> js_string" where
  "unc_device firstPart share =
     [CHAR_BACKWARD_SLASH, CHAR_BACKWARD_SLASH] @ firstPart @ [CHAR_BACKWARD_SLASH] @ share"

text \<open>The root of one entry of \<^verbatim>\<open>resolve\<close>: \<^verbatim>\<open>rootEnd\<close>, \<^verbatim>\<open>device\<close>,
  \<^verbatim>\<open>isAbsolute\<close>.\<close>

definition win32_root :: "js_string \<Rightarrow> nat \<times> js_string \<times> bool" where
  "win32_root path =
     (let len = length path; code = charCodeAt path 0
      in if len > 1 then
           (if isPathSeparator code then
              (if isPathSeparator (charCodeAt path 1) then
                 (case unc_scan path of None \<Rightarrow> (0, [], True)
                  | Some (firstPart, last', j) \<Rightarrow>
                      if j = len then (j, unc_device firstPart (js_slice_from path (int last')), True)
                      else if j \<noteq> last' then (j, unc_device firstPart (js_slice path (int last') (int j)), True)
                      else (0, [], True))
               else (1, [], True))
            else if isWindowsDeviceRoot code \<and> charCodeAt path 1 = Some CHAR_COLON then
              (if len > 2 \<and> isPathSeparator (charCodeAt path 2) then (3, js_slice path 0 2, True)
               else (2, js_slice path 0 2, False))
            else (0, [], False))
         else if isPathSeparator code then (1, [], True)
         else (0, [], False))"

subsection \<open>resolve\<close>

record win32_resolved =
  resolvedDevice :: js_string
  resolvedTail :: js_string
  resolvedAbsolute :: bool

text \<open>One pass of the loop body after \<^verbatim>\<open>assertPath\<close>. The two \<^verbatim>\<open>continue\<close>s skip the
  test that leaves the loop; the state is then unchanged, and that test has failed on it before.\<close>

definition win32_resolve_entry ::
  "(js_string \<Rightarrow> js_string) \<Rightarrow> js_string \<Rightarrow> win32_resolved \<Rightarrow> win32_resolved" where
  "win32_resolve_entry lower path st =
     (if length path = 0 then st
      else case win32_root path of (rootEnd, device, isAbs) \<Rightarrow>
        if length device > 0 \<and> length (resolvedDevice st) > 0 \<and>
           lower device \<noteq> lower (resolvedDevice st) then st
        else let st1 = (if length (resolvedDevice st) = 0 \<and> length device > 0
                        then st\<lparr>resolvedDevice := device\<rparr> else st)
             in if \<not> resolvedAbsolute st1
                then st1\<lparr>resolvedTail := js_slice_from path (int rootEnd) @ [CHAR_BACKWARD_SLASH] @ resolvedTail st1,
                         resolvedAbsolute := isAbs\<rparr>
                else st1)"

text \<open>The path of the pass for \<^verbatim>\<open>i = -1\<close>: the working directory, or the root of the drive when the
  working directory is on another one.\<close>

definition win32_cwd_path :: "deno \<Rightarrow> (js_string \<Rightarrow> js_string) \<Rightarrow> js_string \<Rightarrow> js_value result" where
  "win32_cwd_path D lower device =
     (if device = [] then
        (case deno_cwd D of None \<Rightarrow> Inl (TypeError ''Resolved a drive-letter-less path without a CWD.'')
         | Some r \<Rightarrow> r)
      else if \<not> env_get_is_function D then Inl (TypeError ''Resolved a relative path without a CWD.'')
      else case deno_cwd D of None \<Rightarrow> Inl (TypeError ''Resolved a relative path without a CWD.'')
        | Some r \<Rightarrow> bindE r (\<lambda>path. case path of
            JStr p \<Rightarrow> Inr (if lower (js_slice p 0 3) \<noteq> lower device @ [CHAR_BACKWARD_SLASH]
                           then JStr (device @ [CHAR_BACKWARD_SLASH]) else path)
          | JOther t \<Rightarrow> if t = TUndefined then Inr (JStr (device @ [CHAR_BACKWARD_SLASH]))
                        else Inl (TypeError ''path.slice is not a function'')))"

fun win32_resolve_loop ::
  "deno \<Rightarrow> (js_string \<Rightarrow> js_string) \<Rightarrow> js_value list \<Rightarrow> win32_resolved \<Rightarrow> win32_resolved result" where
  "win32_resolve_loop D lower [] st =
     bindE (win32_cwd_path D lower (resolvedDevice st)) (\<lambda>v.
       bindE (assertPath v) (\<lambda>path. Inr (win32_resolve_entry lower path st)))"
| "win32_resolve_loop D lower (v # vs) st =
     bindE (assertPath v) (\<lambda>path.
       let st' = win32_resolve_entry lower path st
       in if length path > 0 \<and> resolvedAbsolute st' \<and> length (resolvedDevice st') > 0 then Inr st'
          else win32_resolve_loop D lower vs st')"

definition win32_resolve_finish :: "win32_resolved \<Rightarrow> js_string" where
  "win32_resolve_finish st =
     (let tail = normalizeString (resolvedTail st) (\<not> resolvedAbsolute st) [CHAR_BACKWARD_SLASH] isPathSeparator
      in js_or (resolvedDevice st @ (if resolvedAbsolute st then [CHAR_BACKWARD_SLASH] else []) @ tail) [CHAR_DOT])"

definition win32_resolve :: "deno \<Rightarrow> (js_string \<Rightarrow> js_string) \<Rightarrow> js_value list \<Rightarrow> js_string result" where
  "win32_resolve D lower pathSegments =
     bindE (win32_resolve_loop D lower (rev pathSegments)
              \<lparr>resolvedDevice = [], resolvedTail = [], resolvedAbsolute = False\<rparr>)
       (\<lambda>st. Inr (win32_resolve_finish st))"

subsection \<open>normalize, isAbsolute, join\<close>

text \<open>The end of \<^verbatim>\<open>normalize\<close>, after the root has been matched.\<close>

definition win32_normalize_tail :: "js_string \<Rightarrow> nat \<Rightarrow> js_string option \<Rightarrow> bool \<Rightarrow> js_string" where
  "win32_normalize_tail path rootEnd device isAbs =
     (let len = length path;
          tail = (if rootEnd < len
                  then normalizeString (js_slice_from path (int rootEnd)) (\<not> isAbs) [CHAR_BACKWARD_SLASH] isPathSeparator
                  else []);
          tail = (if length tail = 0 \<and> \<not> isAbs then [CHAR_DOT] else tail);
          tail = (if length tail > 0 \<and> isPathSeparator (charCodeAt path (int len - 1))
                  then tail @ [CHAR_BACKWARD_SLASH] else tail)
      in case device of
           None \<Rightarrow> (if isAbs then (if length tail > 0 then [CHAR_BACKWARD_SLASH] @ tail else [CHAR_BACKWARD_SLASH])
                    else if length tail > 0 then tail else [])
         | Some dev \<Rightarrow> (if isAbs then (if length tail > 0 then dev @ [CHAR_BACKWARD_SLASH] @ tail
                                      else dev @ [CHAR_BACKWARD_SLASH])
                        else if length tail > 0 then dev @ tail else dev))"

definition win32_normalize_str :: "js_string \<Rightarrow> js_string" where
  "win32_normalize_str path =
     (let len = length path; code = charCodeAt path 0
      in if len = 0 then [CHAR_DOT]
         else if len > 1 then
           (if isPathSeparator code then
              (if isPathSeparator (charCodeAt path 1) then
                 (case unc_scan path of None \<Rightarrow> win32_normalize_tail path 0 None True
                  | Some (firstPart, last', j) \<Rightarrow>
                      if j = len then unc_device firstPart (js_slice_from path (int last')) @ [CHAR_BACKWARD_SLASH]
                      else if j \<noteq> last' then
                        win32_normalize_tail path j
                          (Some (unc_device firstPart (js_slice path (int last') (int j)))) True
                      else win32_normalize_tail path 0 None True)
               else win32_normalize_tail path 1 None True)
            else if isWindowsDeviceRoot code \<and> charCodeAt path 1 = Some CHAR_COLON then
              (if len > 2 \<and> isPathSeparator (charCodeAt path 2)
               then win32_normalize_tail path 3 (Some (js_slice path 0 2)) True
               else win32_normalize_tail path 2 (Some (js_slice path 0 2)) False)
            else win32_normalize_tail path 0 None False)
         else if isPathSeparator code then [CHAR_BACKWARD_SLASH]
         else win32_normalize_tail path 0 None False)"

definition win32_normalize :: "js_value \<Rightarrow> js_string result" where
  "win32_normalize path = bindE (assertPath path) (\<lambda>p. Inr (win32_normalize_str p))"

definition win32_isAbsolute_str :: "js_string \<Rightarrow> bool" where
  "win32_isAbsolute_str path =
     (let len = length path; code = charCodeAt path 0
      in if len = 0 then False
         else if isPathSeparator code then True
         else isWindowsDeviceRoot code \<and> len > 2 \<and> charCodeAt path 1 = Some CHAR_COLON \<and>
              isPathSeparator (charCodeAt path 2))"

definition win32_isAbsolute :: "js_value \<Rightarrow> bool result" where
  "win32_isAbsolute path = bindE (assertPath path) (\<lambda>p. Inr (win32_isAbsolute_str p))"

text \<open>\<^verbatim>\<open>joined\<close> and \<^verbatim>\<open>firstPart\<close>, undefined and null until the first non-empty argument.\<close>

fun win32_join_loop :: "js_value list \<Rightarrow> (js_string \<times> js_string) option \<Rightarrow> (js_string \<times> js_string) option result" where
  "win32_join_loop [] acc = Inr acc"
| "win32_join_loop (v # vs) acc =
     bindE (assertPath v) (\<lambda>path.
       win32_join_loop vs
         (if length path > 0 then
            (case acc of None \<Rightarrow> Some (path, path)
             | Some (joined, firstPart) \<Rightarrow> Some (joined @ [CHAR_BACKWARD_SLASH] @ path, firstPart))
          else acc))"

text \<open>\<^verbatim>\<open>slashCount\<close> and \<^verbatim>\<open>needsReplace\<close> after the look at the first part.\<close>

definition win32_join_lead :: "js_string \<Rightarrow> nat \<times> bool" where
  "win32_join_lead firstPart =
     (if isPathSeparator (charCodeAt firstPart 0) then
        (if length firstPart > 1 \<and> isPathSeparator (charCodeAt firstPart 1) then
           (if length firstPart > 2 then
              (if isPathSeparator (charCodeAt firstPart 2) then (3, True) else (2, False))
            else (2, True))
         else (1, True))
      else (0, True))"

definition win32_join :: "js_value list \<Rightarrow> js_string result" where
  "win32_join paths =
     (if length paths = 0 then Inr [CHAR_DOT]
      else bindE (win32_join_loop paths None) (\<lambda>acc. case acc of
          None \<Rightarrow> Inr [CHAR_DOT]
        | Some (joined, firstPart) \<Rightarrow>
            (case win32_join_lead firstPart of (slashCount, needsReplace) \<Rightarrow>
               Inr (win32_normalize_str
                 (if needsReplace then
                    (let slashCount = scan_while isPathSeparator joined slashCount (length joined)
                     in if slashCount \<ge> 2 then [CHAR_BACKWARD_SLASH] @ js_slice_from joined (int slashCount)
                        else joined)
                  else joined)))))"

subsection \<open>relative, toNamespacedPath\<close>

text \<open>\<^verbatim>\<open>for (; end - 1 > start; --end)\<close>: trailing backslashes.\<close>

fun win32_trim_end :: "js_string \<Rightarrow> nat \<Rightarrow> nat \<Rightarrow> nat" where
  "win32_trim_end s start 0 = 0"
| "win32_trim_end s start (Suc n) =
     (if n > start \<and> charCodeAt s (int n) = Some CHAR_BACKWARD_SLASH then win32_trim_end s start n else Suc n)"

text \<open>The comparison loop: an early return, or \<^verbatim>\<open>i\<close> and \<^verbatim>\<open>lastCommonSep\<close> at its end.\<close>

function win32_rel_compare ::
  "js_string \<Rightarrow> js_string \<Rightarrow> js_string \<Rightarrow> nat \<Rightarrow> nat \<Rightarrow> nat \<Rightarrow> nat \<Rightarrow> nat \<Rightarrow> nat \<Rightarrow> int
     \<Rightarrow> js_string + nat \<times> int" where
  "win32_rel_compare from to toOrig fromStart toStart fromLen toLen len i lastCommonSep =
     (if i \<ge> len then
        (if toLen > len \<and> charCodeAt to (int (toStart + i)) = Some CHAR_BACKWARD_SLASH
         then Inl (js_slice_from toOrig (int (toStart + i + 1)))
         else if toLen > len \<and> i = 2 then Inl (js_slice_from toOrig (int (toStart + i)))
         else if fromLen > len then
           (if charCodeAt from (int (fromStart + i)) = Some CHAR_BACKWARD_SLASH then Inr (i, int i)
            else if i = 2 then Inr (i, 3)
            else Inr (i, lastCommonSep))
         else Inr (i, lastCommonSep))
      else let fromCode = charCodeAt from (int (fromStart + i));
               toCode = charCodeAt to (int (toStart + i))
           in if fromCode \<noteq> toCode then Inr (i, lastCommonSep)
              else win32_rel_compare from to toOrig fromStart toStart fromLen toLen len (Suc i)
                (if fromCode = Some CHAR_BACKWARD_SLASH then int i else lastCommonSep))"
  by pat_completeness auto
termination
  by (relation "measure (\<lambda>(_, _, _, _, _, _, _, len, i, _). len - i)") auto

declare win32_rel_compare.simps [simp del]

function win32_rel_out :: "js_string \<Rightarrow> nat \<Rightarrow> nat \<Rightarrow> js_string \<Rightarrow> js_string" where
  "win32_rel_out from fromEnd i out =
     (if i > fromEnd then out
      else win32_rel_out from fromEnd (Suc i)
        (if i = fromEnd \<or> charCodeAt from (int i) = Some CHAR_BACKWARD_SLASH
         then (if length out = 0 then out @ dotdot_seg else out @ [CHAR_BACKWARD_SLASH] @ dotdot_seg)
         else out))"
  by pat_completeness auto
termination
  by (relation "measure (\<lambda>(_, n, i, _). Suc n - i)") auto

declare win32_rel_out.simps [simp del]

text \<open>What follows the comparison when the paths share a prefix.\<close>

definition win32_rel_finish ::
  "js_string \<Rightarrow> nat \<Rightarrow> nat \<Rightarrow> js_string \<Rightarrow> nat \<Rightarrow> nat \<Rightarrow> int \<Rightarrow> js_string" where
  "win32_rel_finish from fromStart fromEnd toOrig toStart toEnd lastCommonSep =
     (let lcs = (if lastCommonSep = -1 then 0 else lastCommonSep);
          out = win32_rel_out from fromEnd (nat (int fromStart + lcs + 1)) []
      in if length out > 0 then out @ js_slice toOrig (int toStart + lcs) (int toEnd)
         else let toStart' = int toStart + lcs
              in js_slice toOrig
                   (if charCodeAt toOrig toStart' = Some CHAR_BACKWARD_SLASH then toStart' + 1 else toStart')
                   (int toEnd))"

text \<open>The body after both paths have been resolved and found different even when lower-cased.\<close>

definition win32_relative_str :: "js_string \<Rightarrow> js_string \<Rightarrow> js_string \<Rightarrow> js_string" where
  "win32_relative_str from to toOrig =
     (let fromStart = scan_while (\<lambda>c. c = Some CHAR_BACKWARD_SLASH) from 0 (length from);
          fromEnd = win32_trim_end from fromStart (length from);
          fromLen = fromEnd - fromStart;
          toStart = scan_while (\<lambda>c. c = Some CHAR_BACKWARD_SLASH) to 0 (length to);
          toEnd = win32_trim_end to toStart (length to);
          toLen = toEnd - toStart;
          len = (if fromLen < toLen then fromLen else toLen)
      in case win32_rel_compare from to toOrig fromStart toStart fromLen toLen len 0 (-1) of
           Inl ret \<Rightarrow> ret
         | Inr (i, lastCommonSep) \<Rightarrow>
             if i \<noteq> len \<and> lastCommonSep = -1 then toOrig
             else win32_rel_finish from fromStart fromEnd toOrig toStart toEnd lastCommonSep)"

definition win32_relative :: "deno \<Rightarrow> (js_string \<Rightarrow> js_string) \<Rightarrow> js_value \<Rightarrow> js_value \<Rightarrow> js_string result" where
  "win32_relative D lower from to =
     bindE (assertPath from) (\<lambda>f. bindE (assertPath to) (\<lambda>t.
       if f = t then Inr []
       else bindE (win32_resolve D lower [JStr f]) (\<lambda>fromOrig. bindE (win32_resolve D lower [JStr t]) (\<lambda>toOrig.
         if fromOrig = toOrig \<or> lower fromOrig = lower toOrig then Inr []
         else Inr (win32_relative_str (lower fromOrig) (lower toOrig) toOrig)))))"

definition win32_toNamespacedPath :: "deno \<Rightarrow> (js_string \<Rightarrow> js_string) \<Rightarrow> js_value \<Rightarrow> js_value result" where
  "win32_toNamespacedPath D lower path =
     (case path of JOther _ \<Rightarrow> Inr path
      | JStr p \<Rightarrow>
          if length p = 0 then Inr (JStr [])
          else bindE (win32_resolve D lower [JStr p]) (\<lambda>resolvedPath.
            if length resolvedPath \<ge> 3 \<and> charCodeAt resolvedPath 0 = Some CHAR_BACKWARD_SLASH \<and>
               charCodeAt resolvedPath 1 = Some CHAR_BACKWARD_SLASH \<and>
               charCodeAt resolvedPath 2 \<noteq> Some CHAR_QUESTION_MARK \<and> charCodeAt resolvedPath 2 \<noteq> Some CHAR_DOT
            then Inr (JStr (js [CHR 0x5C, CHR 0x5C, CHR ''?'', CHR 0x5C, CHR ''U'', CHR ''N'', CHR ''C'', CHR 0x5C] @
                            js_slice_from resolvedPath 2))
            else if length resolvedPath \<ge> 3 \<and> charCodeAt resolvedPath 0 \<noteq> Some CHAR_BACKWARD_SLASH \<and>
               isWindowsDeviceRoot (charCodeAt resolvedPath 0) \<and>
               charCodeAt resolvedPath 1 = Some CHAR_COLON \<and> charCodeAt resolvedPath 2 = Some CHAR_BACKWARD_SLASH
            then Inr (JStr (js [CHR 0x5C, CHR 0x5C, CHR ''?'', CHR 0x5C] @ resolvedPath))
            else Inr path))"

subsection \<open>dirname, basename, extname\<close>

text \<open>The end of \<^verbatim>\<open>dirname\<close>: \<^verbatim>\<open>rootEnd\<close> is -1 or equal to \<^verbatim>\<open>offset\<close>.\<close>

definition win32_dirname_tail :: "js_string \<Rightarrow> int \<Rightarrow> nat \<Rightarrow> js_string" where
  "win32_dirname_tail path rootEnd offset =
     (let end = dirname_loop isPathSeparator path offset True (length path)
      in if end = -1 then (if rootEnd = -1 then [CHAR_DOT] else js_slice path 0 rootEnd)
         else js_slice path 0 end)"

definition win32_dirname_str :: "js_string \<Rightarrow> js_string" where
  "win32_dirname_str path =
     (let len = length path; code = charCodeAt path 0
      in if len = 0 then [CHAR_DOT]
         else if len > 1 then
           (if isPathSeparator code then
              (if isPathSeparator (charCodeAt path 1) then
                 (case unc_scan path of None \<Rightarrow> win32_dirname_tail path 1 1
                  | Some (_, last', j) \<Rightarrow>
                      if j = len then path
                      else if j \<noteq> last' then win32_dirname_tail path (int j + 1) (j + 1)
                      else win32_dirname_tail path 1 1)
               else win32_dirname_tail path 1 1)
            else if isWindowsDeviceRoot code \<and> charCodeAt path 1 = Some CHAR_COLON then
              (if len > 2 \<and> isPathSeparator (charCodeAt path 2) then win32_dirname_tail path 3 3
               else win32_dirname_tail path 2 2)
            else win32_dirname_tail path (-1) 0)
         else if isPathSeparator code then path
         else win32_dirname_tail path (-1) 0)"

definition win32_dirname :: "js_value \<Rightarrow> js_string result" where
  "win32_dirname path = bindE (assertPath path) (\<lambda>p. Inr (win32_dirname_str p))"

text \<open>The length of a drive letter prefix.\<close>

definition drive_len :: "js_string \<Rightarrow> nat" where
  "drive_len path =
     (if length path \<ge> 2 \<and> isWindowsDeviceRoot (charCodeAt path 0) \<and> charCodeAt path 1 = Some CHAR_COLON
      then 2 else 0)"

definition win32_basename_str :: "js_string \<Rightarrow> js_string \<Rightarrow> js_string" where
  "win32_basename_str path ex =
     (let start = drive_len path
      in if length ex > 0 \<and> length ex \<le> length path then
           (if length ex = length path \<and> ex = path then []
            else let (start, end, firstNonSlashEnd) =
                       basename_ext_loop isPathSeparator path ex start True (int (length ex) - 1) (-1) (-1) (length path);
                     end' = (if start = end then firstNonSlashEnd
                             else if end = -1 then int (length path) else end)
                 in js_slice path start end')
         else
           (let (start, end) = basename_loop isPathSeparator path start True (-1) (length path)
            in if end = -1 then [] else js_slice path start end))"

definition win32_basename :: "js_value \<Rightarrow> js_value \<Rightarrow> js_string result" where
  "win32_basename path ex =
     (case ex of
        JOther t \<Rightarrow> if t = TUndefined then bindE (assertPath path) (\<lambda>p. Inr (win32_basename_str p []))
                   else Inl (ERR_INVALID_ARG_TYPE ''ext'')
      | JStr e \<Rightarrow> bindE (assertPath path) (\<lambda>p. Inr (win32_basename_str p e)))"

definition win32_extname_str :: "js_string \<Rightarrow> js_string" where
  "win32_extname_str path =
     (let start = drive_len path;
          st = ext_loop isPathSeparator path start (ext_scan_init (int start)) (length path)
      in if no_ext st then [] else js_slice path (startDot st) (end_idx st))"

definition win32_extname :: "js_value \<Rightarrow> js_string result" where
  "win32_extname path = bindE (assertPath path) (\<lambda>p. Inr (win32_extname_str p))"

subsection \<open>format, parse\<close>

definition win32_format :: "js_typeof + ParsedPath \<Rightarrow> js_string result" where
  "win32_format pathObject =
     (case pathObject of Inl _ \<Rightarrow> Inl (ERR_INVALID_ARG_TYPE ''pathObject'')
      | Inr po \<Rightarrow> Inr (format_path [CHAR_BACKWARD_SLASH] po))"

text \<open>\<^verbatim>\<open>rootEnd\<close> of \<^verbatim>\<open>parse\<close>, or \<^const>\<open>None\<close> where it returns early with the
  whole path as \<^verbatim>\<open>root\<close> and \<^verbatim>\<open>dir\<close>.\<close>

definition win32_parse_root :: "js_string \<Rightarrow> nat option" where
  "win32_parse_root path =
     (let len = length path; code = charCodeAt path 0
      in if len > 1 then
           (if isPathSeparator code then
              (if isPathSeparator (charCodeAt path 1) then
                 (case unc_scan path of None \<Rightarrow> Some 1
                  | Some (_, last', j) \<Rightarrow> if j = len then Some j else if j \<noteq> last' then Some (j + 1) else Some 1)
               else Some 1)
            else if isWindowsDeviceRoot code \<and> charCodeAt path 1 = Some CHAR_COLON then
              (if len > 2 then
                 (if isPathSeparator (charCodeAt path 2) then (if len = 3 then None else Some 3) else Some 2)
               else None)
            else Some 0)
         else if isPathSeparator code then None
         else Some 0)"

definition win32_parse_tail :: "js_string \<Rightarrow> nat \<Rightarrow> ParsedPath" where
  "win32_parse_tail path rootEnd =
     (let ret = (if rootEnd > 0 then empty_parsed\<lparr>root := js_slice path 0 (int rootEnd)\<rparr> else empty_parsed);
          st = ext_loop isPathSeparator path rootEnd (ext_scan_init (int rootEnd)) (length path);
          ret = (if no_ext st then
                   (if end_idx st \<noteq> -1
                    then ret\<lparr>base := js_slice path (startPart st) (end_idx st),
                             name := js_slice path (startPart st) (end_idx st)\<rparr>
                    else ret)
                 else ret\<lparr>name := js_slice path (startPart st) (startDot st),
                          base := js_slice path (startPart st) (end_idx st),
                          ext := js_slice path (startDot st) (end_idx st)\<rparr>)
      in if startPart st > 0 \<and> startPart st \<noteq> int rootEnd
         then ret\<lparr>dir := js_slice path 0 (startPart st - 1)\<rparr>
         else ret\<lparr>dir := root ret\<rparr>)"

definition win32_parse_str :: "js_string \<Rightarrow> ParsedPath" where
  "win32_parse_str path =
     (if length path = 0 then empty_parsed
      else case win32_parse_root path of
          None \<Rightarrow> empty_parsed\<lparr>root := path, dir := path\<rparr>
        | Some rootEnd \<Rightarrow> win32_parse_tail path rootEnd)"

definition win32_parse :: "js_value \<Rightarrow> ParsedPath result" where
  "win32_parse path = bindE (assertPath path) (\<lambda>p. Inr (win32_parse_str p))"

end
