(* ===== verification/Path_Win32_Normal.thy ===== *)
theory Path_Win32_Normal
  imports Path_Win32
begin

text \<open>
  What the Windows variant takes for the root of a path, and \<^verbatim>\<open>normalize\<close>: its normal form (device,
  root separator, resolved names), the root of a normal form, and idempotence.
\<close>

subsection \<open>The root of a path\<close>

abbreviation (input) is_sep :: "code_unit \<Rightarrow> bool" where
  "is_sep c \<equiv> isPathSeparator (Some c)"

abbreviation wsegs :: "js_string \<Rightarrow> js_string list" where
  "wsegs \<equiv> segments isPathSeparator"

lemma is_sep_iff: "is_sep c \<longleftrightarrow> c = CHAR_FORWARD_SLASH \<or> c = CHAR_BACKWARD_SLASH"
  by (simp add: isPathSeparator_def isPosixPathSeparator_def)

lemma is_sep_simps [simp]:
  "is_sep CHAR_BACKWARD_SLASH" "\<not> is_sep CHAR_DOT" "\<not> is_sep CHAR_COLON" "\<not> isPathSeparator None"
  by (simp_all add: isPathSeparator_def isPosixPathSeparator_def)

lemma drive_not_sep: "isWindowsDeviceRoot (Some c) \<Longrightarrow> \<not> is_sep c"
  by (auto simp: isWindowsDeviceRoot_def is_sep_iff)

lemma scan_while_all: "i \<le> length s \<Longrightarrow> scan_while P s i (length s) = i + length (takeWhile (\<lambda>c. P (Some c)) (drop i s))"
  by (simp add: scan_while_eq)

lemma unc_scan_eq:
  assumes "2 \<le> length p"
  defines "fp \<equiv> takeWhile (\<lambda>c. \<not> is_sep c) (drop 2 p)"
  defines "q1 \<equiv> dropWhile (\<lambda>c. \<not> is_sep c) (drop 2 p)"
  defines "q2 \<equiv> dropWhile is_sep q1"
  shows "unc_scan p = (if fp = [] \<or> q2 = [] then None
    else Some (fp, length p - length q2, length p - length q2 + length (takeWhile (\<lambda>c. \<not> is_sep c) q2)))"
proof -
  have split: "drop 2 p = fp @ q1" by (simp add: fp_def q1_def)
  have len: "length p = 2 + length fp + length q1" using arg_cong [OF split, of length] assms(1) by simp
  have j1: "scan_while (\<lambda>c. \<not> isPathSeparator c) p 2 (length p) = 2 + length fp"
    using assms(1) by (simp add: scan_while_all fp_def)
  have d1: "drop (2 + length fp) p = q1" using split by (metis append_eq_conv_conj drop_drop add.commute)
  define sp where "sp = takeWhile is_sep q1"
  have q1: "q1 = sp @ q2" by (simp add: sp_def q2_def)
  have j2: "scan_while isPathSeparator p (2 + length fp) (length p) = 2 + length fp + length sp"
    using scan_while_all [of "2 + length fp" p isPathSeparator, unfolded d1] len unfolding sp_def by linarith
  have d2: "drop (2 + length fp + length sp) p = q2"
    using d1 q1 by (metis append_eq_conv_conj drop_drop add.commute)
  have l2: "2 + length fp + length sp = length p - length q2" "length q2 \<le> length p" using len q1 by simp_all
  have j3: "scan_while (\<lambda>c. \<not> isPathSeparator c) p (2 + length fp + length sp) (length p) =
      2 + length fp + length sp + length (takeWhile (\<lambda>c. \<not> is_sep c) q2)"
    using scan_while_all [of "2 + length fp + length sp" p "\<lambda>c. \<not> isPathSeparator c", unfolded d2] l2 by linarith
  have sp: "q1 \<noteq> [] \<Longrightarrow> sp \<noteq> []"
    unfolding sp_def q1_def by (metis hd_dropWhile takeWhile_eq_Nil_iff)
  have fp: "js_slice p 2 (2 + int (length fp)) = fp"
    using js_slice_nat [of 2 "2 + length fp" p] len split by (simp add: add.commute)
  show ?thesis
    unfolding unc_scan_def Let_def j1 j2 j3
    using len q1 sp fp l2 by auto
qed

text \<open>The devices: none, a drive, or a server and a share.\<close>

definition nosep :: "js_string \<Rightarrow> bool" where
  "nosep s \<longleftrightarrow> s \<noteq> [] \<and> list_all (\<lambda>c. \<not> is_sep c) s"

definition is_drive :: "js_string \<Rightarrow> bool" where
  "is_drive d \<longleftrightarrow> length d = 2 \<and> isWindowsDeviceRoot (Some (d ! 0)) \<and> d ! 1 = CHAR_COLON"

definition is_unc :: "js_string \<Rightarrow> bool" where
  "is_unc d \<longleftrightarrow> (\<exists>fp sh. nosep fp \<and> nosep sh \<and> d = unc_device fp sh)"

lemma nosep_takeWhile: "takeWhile (\<lambda>c. \<not> is_sep c) q \<noteq> [] \<Longrightarrow> nosep (takeWhile (\<lambda>c. \<not> is_sep c) q)"
  by (auto simp: nosep_def list_all_iff dest: set_takeWhileD)

lemma unc_scan_None: "unc_scan [] = None" by code_simp

lemma unc_root:
  assumes "2 \<le> length p" "unc_scan p = Some (fp, l, j)"
  shows "nosep fp" "l < j" "j \<le> length p" "nosep (js_slice p (int l) (int j))"
    "j = length p \<Longrightarrow> js_slice_from p (int l) = js_slice p (int l) (int j)"
    "j < length p \<Longrightarrow> is_sep (p ! j)"
proof -
  define q2 where "q2 = dropWhile is_sep (dropWhile (\<lambda>c. \<not> is_sep c) (drop 2 p))"
  define sh where "sh = takeWhile (\<lambda>c. \<not> is_sep c) q2"
  have u: "fp = takeWhile (\<lambda>c. \<not> is_sep c) (drop 2 p)" "fp \<noteq> []" "q2 \<noteq> []"
      "l = length p - length q2" "j = l + length sh"
    using assms(2) by (auto simp: unc_scan_eq [OF assms(1)] q2_def sh_def split: if_splits)
  define r2 where "r2 = dropWhile (\<lambda>c. \<not> is_sep c) q2"
  have "suffix q2 (dropWhile (\<lambda>c. \<not> is_sep c) (drop 2 p))" unfolding q2_def by (rule suffix_dropWhile)
  also have "suffix \<dots> (drop 2 p)" by (rule suffix_dropWhile)
  also have "suffix (drop 2 p) p" by (rule suffix_drop)
  finally obtain u0 where u0: "p = u0 @ q2" by (auto simp: suffix_def)
  then have l: "l = length u0" using u(4) by simp
  have q2: "q2 = sh @ r2" by (simp add: sh_def r2_def)
  have "\<not> is_sep (hd q2)" using u(3) unfolding q2_def by (rule hd_dropWhile)
  then have sne: "sh \<noteq> []" using u(3) unfolding sh_def by (cases q2) simp_all
  show "nosep fp" using u(1,2) nosep_takeWhile by simp
  show lj: "l < j" "j \<le> length p" using sne u(5) by (simp_all add: l u0 q2)
  have "js_slice p (int l) (int j) = sh"
    using js_slice_nat [of l j p] lj u(5) by (simp add: u0 l q2)
  then show "nosep (js_slice p (int l) (int j))" using sne nosep_takeWhile sh_def by simp
  show "j = length p \<Longrightarrow> js_slice_from p (int l) = js_slice p (int l) (int j)"
    by (simp add: js_slice_from_def)
  assume "j < length p"
  then have r2: "r2 \<noteq> []" using u(5) by (auto simp: u0 l q2)
  then have "is_sep (hd r2)" using hd_dropWhile [of "\<lambda>c. \<not> is_sep c" q2] by (simp add: r2_def)
  moreover have "p ! j = hd r2" using r2 u(5) by (cases r2) (simp_all add: u0 l q2 nth_append)
  ultimately show "is_sep (p ! j)" by simp
qed

lemma win32_root_device:
  assumes "win32_root p = (r, dev, isAbs)"
  shows "r \<le> length p" "dev = [] \<or> is_drive dev \<or> isAbs \<and> is_unc dev"
proof -
  have drive: "is_drive (js_slice p 0 2)"
    if "length p > 1" "isWindowsDeviceRoot (charCodeAt p 0)" "charCodeAt p 1 = Some CHAR_COLON"
    using that js_slice_nat [of 0 2 p] by (cases p; cases "tl p") (simp_all add: is_drive_def charCodeAt_def)
  have unc: "l < j" "j \<le> length p" "is_unc (unc_device fp (js_slice p (int l) (int j)))"
      "j = length p \<Longrightarrow> js_slice_from p (int l) = js_slice p (int l) (int j)"
    if "length p > 1" "unc_scan p = Some (fp, l, j)" for fp l j
    using that unc_root [of p fp l j] unfolding is_unc_def by auto
  have one: "1 \<le> length p" if "isPathSeparator (charCodeAt p 0)" using that by (cases p) (auto simp: charCodeAt_def)
  show "r \<le> length p" "dev = [] \<or> is_drive dev \<or> isAbs \<and> is_unc dev"
    using assms drive unc one unfolding win32_root_def Let_def
    by (auto split: if_splits option.splits prod.splits)
qed

text \<open>The normal form of a path with the device \<open>dev\<close> and the resolved names \<open>st\<close>.\<close>

definition win32_body :: "bool \<Rightarrow> js_string list \<Rightarrow> bool \<Rightarrow> js_string" where
  "win32_body isAbs st trailing =
     (let t = js_join [CHAR_BACKWARD_SLASH] st; t = (if t = [] \<and> \<not> isAbs then dot_seg else t)
      in if t \<noteq> [] \<and> trailing then t @ [CHAR_BACKWARD_SLASH] else t)"

definition win32_nf :: "js_string \<Rightarrow> bool \<Rightarrow> js_string list \<Rightarrow> bool \<Rightarrow> js_string" where
  "win32_nf dev isAbs st trailing =
     dev @ (if isAbs then [CHAR_BACKWARD_SLASH] else []) @ win32_body isAbs st trailing"

lemma win32_normalize_tail_nf:
  assumes "p \<noteq> []" "r \<le> length p"
  shows "win32_normalize_tail p r dev isAbs =
    win32_nf (case dev of None \<Rightarrow> [] | Some d \<Rightarrow> d) isAbs (resolve_segs (\<not> isAbs) [] (wsegs (drop r p))) (is_sep (last p))"
proof -
  define st where "st = resolve_segs (\<not> isAbs) [] (wsegs (drop r p))"
  have t: "(if r < length p then normalizeString (js_slice_from p (int r)) (\<not> isAbs) [CHAR_BACKWARD_SLASH] isPathSeparator
      else []) = js_join [CHAR_BACKWARD_SLASH] st"
    using assms by (auto simp: st_def win32.normalizeString_spec js_slice_from_nat segments_def seg_step_def)
  show ?thesis
    unfolding win32_normalize_tail_def Let_def t st_def [symmetric] win32_nf_def win32_body_def charCodeAt_last [OF assms(1)]
    by (cases dev; cases isAbs; cases "js_join [CHAR_BACKWARD_SLASH] st = []"; cases "is_sep (last p)") simp_all
qed

lemma win32_normalize_nf:
  assumes "p \<noteq> []"
  shows "win32_normalize_str p = (case win32_root p of (r, dev, isAbs) \<Rightarrow>
    win32_nf dev isAbs (resolve_segs (\<not> isAbs) [] (wsegs (drop r p))) (is_sep (last p)))"
proof -
  note tail = win32_normalize_tail_nf [OF assms]
  have unc: "l < j" "j \<le> length p" "j = length p \<Longrightarrow> js_slice_from p (int l) = js_slice p (int l) (int j)"
    if "length p > 1" "unc_scan p = Some (fp, l, j)" for fp l j
    using that unc_root [of p fp l j] by auto
  have empty [simp]: "win32_nf dev True (resolve_segs False [] (wsegs [])) b = dev @ [CHAR_BACKWARD_SLASH]" for dev b
    by (simp add: win32_nf_def win32_body_def segments_def seg_step_def)
  have long: ?thesis if len: "length p > 1" and sep: "isPathSeparator (charCodeAt p 0)" "isPathSeparator (charCodeAt p 1)"
  proof (cases "unc_scan p")
    case None
    then show ?thesis using assms len sep by (simp add: win32_normalize_str_def win32_root_def Let_def tail)
  next
    case (Some x)
    obtain fp l j where x: "x = (fp, l, j)" by (cases x)
    note u = unc [OF len Some [unfolded x]]
    show ?thesis
    proof (cases "j = length p")
      case True
      then show ?thesis
        using assms len sep u Some by (simp add: x win32_normalize_str_def win32_root_def Let_def)
    next
      case False
      then show ?thesis
        using assms len sep u Some by (simp add: x win32_normalize_str_def win32_root_def Let_def tail)
    qed
  qed
  have short: "length p = 1" if "\<not> length p > 1" using that assms by (cases p) auto
  show ?thesis
  proof (cases "length p > 1 \<and> isPathSeparator (charCodeAt p 0) \<and> isPathSeparator (charCodeAt p 1)")
    case True
    then show ?thesis using long by blast
  next
    case False
    then show ?thesis
      using assms short unfolding win32_normalize_str_def win32_root_def Let_def
      by (cases "length p > 1"; cases "isPathSeparator (charCodeAt p 0)") (simp_all add: tail)
  qed
qed

lemma takeWhile_nosep: "nosep s \<Longrightarrow> takeWhile (\<lambda>c. \<not> is_sep c) (s @ CHAR_BACKWARD_SLASH # t) = s"
  "nosep s \<Longrightarrow> dropWhile (\<lambda>c. \<not> is_sep c) (s @ CHAR_BACKWARD_SLASH # t) = CHAR_BACKWARD_SLASH # t"
  "nosep s \<Longrightarrow> dropWhile is_sep (s @ t) = s @ t"
  by (auto simp: nosep_def list_all_iff takeWhile_append2 dropWhile_append2 neq_Nil_conv)

lemma root_unc:
  assumes "nosep fp" "nosep sh"
  shows "win32_root (unc_device fp sh @ CHAR_BACKWARD_SLASH # t) = (3 + length fp + length sh, unc_device fp sh, True)"
proof -
  let ?p = "unc_device fp sh @ CHAR_BACKWARD_SLASH # t"
  have d: "drop 2 ?p = fp @ CHAR_BACKWARD_SLASH # sh @ CHAR_BACKWARD_SLASH # t" by (simp add: unc_device_def)
  have len: "length ?p = 4 + length fp + length sh + length t" by (simp add: unc_device_def)
  have two: "2 \<le> length ?p" using len by simp
  have sep: "dropWhile is_sep (CHAR_BACKWARD_SLASH # sh @ CHAR_BACKWARD_SLASH # t) = sh @ CHAR_BACKWARD_SLASH # t"
    using takeWhile_nosep(3) [OF assms(2)] by simp
  have ne: "fp \<noteq> []" "sh \<noteq> []" using assms by (simp_all add: nosep_def)
  have u: "unc_scan ?p = Some (fp, 3 + length fp, 3 + length fp + length sh)"
    unfolding unc_scan_eq [OF two] d takeWhile_nosep(1,2) [OF assms(1)] sep takeWhile_nosep(1,2) [OF assms(2)] len
    using ne by simp
  have "js_slice ?p (int (3 + length fp)) (int (3 + length fp + length sh)) = sh"
    using len by (subst js_slice_nat) (simp_all add: unc_device_def numeral_3_eq_3)
  moreover have "charCodeAt ?p 0 = Some CHAR_BACKWARD_SLASH" "charCodeAt ?p 1 = Some CHAR_BACKWARD_SLASH"
    by (simp_all add: unc_device_def charCodeAt_def)
  ultimately show ?thesis
    using ne len unfolding win32_root_def Let_def u by simp
qed

lemma root_drive:
  assumes "is_drive d" "t = [] \<or> \<not> is_sep (hd t)"
  shows "is_sep s \<Longrightarrow> win32_root (d @ s # u) = (3, d, True)" "win32_root (d @ t) = (2, d, False)"
proof -
  obtain c where d: "d = [c, CHAR_COLON]" "isWindowsDeviceRoot (Some c)"
    using assms(1) by (cases d; cases "tl d") (auto simp: is_drive_def)
  have "\<not> is_sep c" using drive_not_sep d(2) by blast
  then show "is_sep s \<Longrightarrow> win32_root (d @ s # u) = (3, d, True)" "win32_root (d @ t) = (2, d, False)"
    using d assms(2) js_slice_nat [of 0 2] by (cases t; simp add: win32_root_def charCodeAt_def)+
qed

lemma root_plain:
  assumes "t = [] \<or> \<not> is_sep (hd t)"
  shows "win32_root (CHAR_BACKWARD_SLASH # t) = (1, [], True)" "drive_len t = 0 \<Longrightarrow> win32_root t = (0, [], False)"
proof -
  have t: "\<not> isPathSeparator (charCodeAt t 0)" using assms by (cases t) (simp_all add: charCodeAt_def)
  then show "drive_len t = 0 \<Longrightarrow> win32_root t = (0, [], False)"
    by (auto simp: win32_root_def drive_len_def Let_def split: if_splits)
  have "charCodeAt (CHAR_BACKWARD_SLASH # t) 1 = charCodeAt t 0" by (cases t) (simp_all add: charCodeAt_def)
  then show "win32_root (CHAR_BACKWARD_SLASH # t) = (1, [], True)"
    using t by (simp add: win32_root_def Let_def charCodeAt_zero [of "_ # _"])
qed

lemma root_nf:
  assumes "dev = [] \<or> is_drive dev \<or> isAbs \<and> is_unc dev" "t = [] \<or> \<not> is_sep (hd t)"
    and "dev = [] \<Longrightarrow> \<not> isAbs \<Longrightarrow> drive_len t = 0"
  defines "p \<equiv> dev @ (if isAbs then [CHAR_BACKWARD_SLASH] else []) @ t"
  shows "\<exists>r. win32_root p = (r, dev, isAbs) \<and> (drop r p = t \<or> isAbs \<and> drop r p = CHAR_BACKWARD_SLASH # t)"
proof -
  consider "dev = []" | "is_drive dev" | "isAbs" "is_unc dev" using assms(1) by blast
  then show ?thesis
  proof cases
    case 1
    then show ?thesis using root_plain [OF assms(2)] assms(3) by (cases isAbs) (simp_all add: p_def)
  next
    case 2
    then have "length dev = 2" by (simp add: is_drive_def)
    then show ?thesis using root_drive [OF 2 assms(2)] by (cases isAbs) (simp_all add: p_def)
  next
    case 3
    then obtain fp sh where u: "nosep fp" "nosep sh" "dev = unc_device fp sh" by (auto simp: is_unc_def)
    then have "length dev = 3 + length fp + length sh" by (simp add: unc_device_def)
    then show ?thesis using root_unc [OF u(1,2), of t] 3(1) by (simp add: p_def u(3))
  qed
qed

subsection \<open>normalize\<close>

abbreviation wok :: "js_string list \<Rightarrow> bool" where
  "wok st \<equiv> (\<forall>s\<in>set st. seg_ok isPathSeparator s)"

lemma wsegs_Cons_sep [simp]: "wsegs (CHAR_BACKWARD_SLASH # p) = [] # wsegs p"
  by (simp add: segments_def)

lemma wok_join:
  assumes "wok st" "st \<noteq> []"
  shows "js_join [CHAR_BACKWARD_SLASH] st \<noteq> []" "\<not> is_sep (hd (js_join [CHAR_BACKWARD_SLASH] st))"
  using assms by (cases st; auto simp: js_join_Cons seg_ok_def neq_Nil_conv)+

lemma win32_body_hd:
  assumes "wok st"
  shows "win32_body isAbs st tr = [] \<or> \<not> is_sep (hd (win32_body isAbs st tr))"
  using wok_join [OF assms] by (cases "st = []") (auto simp: win32_body_def Let_def)

lemma win32_body_segs:
  assumes "wok st" "canonical (\<not> isAbs) st"
  shows "resolve_segs (\<not> isAbs) [] (wsegs (win32_body isAbs st tr)) = st"
proof -
  let ?t = "js_join [CHAR_BACKWARD_SLASH] st"
  have j: "st \<noteq> [] \<Longrightarrow> resolve_segs (\<not> isAbs) [] (wsegs ?t) = st"
    using win32.segments_join [OF assms(1)] resolve_canonical [OF assms(2)] by simp
  have trail: "resolve_segs up [] (wsegs (t @ [CHAR_BACKWARD_SLASH])) = resolve_segs up [] (wsegs t)" for up t
    by (simp add: segments_snoc_sep resolve_segs_append seg_step_def)
  have dot: "resolve_segs up [] (wsegs dot_seg) = []" "resolve_segs up [] (wsegs []) = []" for up
    by (simp_all add: segments_def seg_step_def)
  show ?thesis
    using j wok_join(1) [OF assms(1)]
    by (cases "st = []"; cases tr) (auto simp: win32_body_def Let_def trail dot trail [of _ dot_seg, simplified])
qed

lemma wok_join_last:
  "wok st \<Longrightarrow> st \<noteq> [] \<Longrightarrow> \<not> is_sep (last (js_join [CHAR_BACKWARD_SLASH] st))"
proof (induction st)
  case (Cons s st)
  then show ?case using wok_join(1) [of st] by (cases "st = []") (auto simp: js_join_Cons seg_ok_def)
qed simp

lemma win32_nf_trailing:
  assumes "wok st"
  shows "win32_nf dev isAbs st (is_sep (last (win32_nf dev isAbs st tr))) = win32_nf dev isAbs st tr"
  using wok_join(1) [OF assms(1)] wok_join_last [OF assms(1)]
  by (cases "st = []"; cases isAbs; cases tr) (simp_all add: win32_nf_def win32_body_def)

lemma win32_resolved_ok:
  "wok (resolve_segs up [] (wsegs p))" "canonical up (resolve_segs up [] (wsegs p))"
  using win32.resolve_segments_ok [of "[]" _ up p] by (simp_all add: canonical_resolve)

lemma isAbsolute_root: "win32_isAbsolute_str p = snd (snd (win32_root p))"
proof -
  have "length p > 2 \<Longrightarrow> length p > 1" "length p > 1 \<or> length p = 1 \<or> p = []" by (cases p; auto)+
  moreover have "p = [] \<Longrightarrow> charCodeAt p 0 = None" by (simp add: charCodeAt_def)
  ultimately show ?thesis
    unfolding win32_isAbsolute_str_def win32_root_def Let_def
    by (cases "unc_scan p"; cases "isPathSeparator (charCodeAt p 0)") (auto split: if_splits)
qed

lemma drive_len_root: "drive_len p = 2 \<Longrightarrow> fst (snd (win32_root p)) \<noteq> []"
  using drive_not_sep js_slice_nat [of 0 2 p]
  by (cases "charCodeAt p 0") (auto simp: drive_len_def win32_root_def Let_def split: if_splits)

lemma drive_len_cases: "drive_len p = 0 \<or> drive_len p = 2"
  by (simp add: drive_len_def)

lemma win32_normalize_again:
  assumes "p \<noteq> []" "drive_len (win32_normalize_str p) = 2 \<Longrightarrow> drive_len p = 2"
  shows "win32_normalize_str (win32_normalize_str p) = win32_normalize_str p"
    "win32_isAbsolute_str (win32_normalize_str p) = win32_isAbsolute_str p"
proof -
  obtain r dev isAbs where root: "win32_root p = (r, dev, isAbs)" by (cases "win32_root p")
  define st where "st = resolve_segs (\<not> isAbs) [] (wsegs (drop r p))"
  define q where "q = win32_nf dev isAbs st (is_sep (last p))"
  have q: "win32_normalize_str p = q" using win32_normalize_nf [OF assms(1)] root by (simp add: q_def st_def)
  have st: "wok st" "canonical (\<not> isAbs) st" by (simp_all add: st_def win32_resolved_ok)
  let ?t = "win32_body isAbs st (is_sep (last p))"
  have ne: "q \<noteq> []" by (auto simp: q_def win32_nf_def win32_body_def Let_def)
  have "dev = [] \<Longrightarrow> \<not> isAbs \<Longrightarrow> drive_len ?t = 0"
    using assms(2) drive_len_root [of p] drive_len_cases [of ?t] root unfolding q by (auto simp: q_def win32_nf_def)
  then obtain r' where r': "win32_root q = (r', dev, isAbs)" "drop r' q = ?t \<or> isAbs \<and> drop r' q = CHAR_BACKWARD_SLASH # ?t"
    using root_nf [OF win32_root_device(2) [OF root] win32_body_hd [OF st(1), of isAbs "is_sep (last p)"]]
    unfolding q_def win32_nf_def by blast
  have "resolve_segs (\<not> isAbs) [] (wsegs (drop r' q)) = st"
    using r'(2) win32_body_segs [OF st] by (auto simp: seg_step_def)
  then have "win32_normalize_str q = win32_nf dev isAbs st (is_sep (last q))"
    using win32_normalize_nf [OF ne] r'(1) by simp
  then show "win32_normalize_str (win32_normalize_str p) = win32_normalize_str p"
    unfolding q using win32_nf_trailing [OF st(1)] by (simp add: q_def)
  show "win32_isAbsolute_str (win32_normalize_str p) = win32_isAbsolute_str p"
    by (simp add: q isAbsolute_root r'(1) root)
qed

end
