(* ===== verification/Path_Win32_Parse.thy ===== *)
theory Path_Win32_Parse
  imports Path_Win32_Normal
begin

text \<open>
  The last component of a Windows path: \<^verbatim>\<open>basename\<close>, \<^verbatim>\<open>extname\<close>, \<^verbatim>\<open>parse\<close> and
  \<^verbatim>\<open>format\<close>.
\<close>

abbreviation (input) wend :: "js_string \<Rightarrow> nat" where
  "wend p \<equiv> trim_len isPathSeparator p (length p)"

abbreviation (input) wstart :: "js_string \<Rightarrow> nat" where
  "wstart p \<equiv> part_start isPathSeparator p (wend p)"

text \<open>The last component of the part of a path from index \<open>s\<close> on.\<close>

definition comp_from :: "nat \<Rightarrow> js_string \<Rightarrow> js_string" where
  "comp_from s p = (if wend p \<le> s then [] else sub p (max s (wstart p)) (wend p))"

lemma part_start_less: "n \<le> length p \<Longrightarrow> n \<noteq> 0 \<Longrightarrow> \<not> isSep (Some (p ! (n - 1))) \<Longrightarrow> part_start isSep p n < n"
  using part_start_le [of isSep p "n - 1"] by (cases n) auto

lemma part_start_after: "n \<le> length p \<Longrightarrow> j < n \<Longrightarrow> isSep (Some (p ! j)) \<Longrightarrow> j < part_start isSep p n"
  by (induction n) (auto simp: less_Suc_eq)

lemma wend_bounds: "wend p \<le> length p" "wstart p \<le> wend p" "wend p \<noteq> 0 \<Longrightarrow> wstart p < wend p"
proof -
  show b: "wend p \<le> length p" "wstart p \<le> wend p" by (simp_all add: trim_len_le part_start_le)
  show "wstart p < wend p" if "wend p \<noteq> 0"
    using that b part_start_less [of "wend p" p isPathSeparator]
      trim_len_nonsep [of "length p" p isPathSeparator "wend p - 1"] by auto
qed

lemma comp_from_root:
  assumes "dl < length p" "is_sep (p ! dl)"
  shows "comp_from (Suc dl) p = comp_from dl p"
proof -
  have "wend p \<noteq> Suc dl"
    using trim_len_nonsep [of "length p" p isPathSeparator dl] assms by auto
  moreover have "Suc dl < wend p \<Longrightarrow> dl < wstart p"
    using part_start_after [of "wend p" p dl isPathSeparator] wend_bounds(1) [of p] assms(2) by auto
  ultimately show ?thesis by (auto simp: comp_from_def max_def)
qed

lemma comp_from_nosep: "c \<in> set (comp_from s p) \<Longrightarrow> \<not> is_sep c"
proof -
  assume "c \<in> set (comp_from s p)"
  then have "c \<in> set (sub p (wstart p) (wend p))"
    by (auto simp: comp_from_def sub_def max_def drop_take split: if_splits dest: in_set_takeD in_set_dropD)
      (metis drop_drop in_set_dropD le_add_diff_inverse2 take_drop drop_take linorder_not_le nat_less_le)
  then show ?thesis using base_of_nosep [of c isPathSeparator p] by (simp add: base_of_sub)
qed

lemma ext_loop_comp:
  assumes "s \<le> length p"
  shows "ext_loop isPathSeparator p s (ext_scan_init (int s)) (length p) =
    (if comp_from s p = [] then ext_scan_init (int s)
     else ext_desc (max s (wstart p)) (comp_from s p) (int (max s (wstart p))))"
proof -
  have "comp_from s p = [] \<longleftrightarrow> wend p \<le> s"
    using wend_bounds [of p] by (auto simp: comp_from_def sub_def max_def)
  then show ?thesis
    using ext_loop_eq [of "length p" p s isPathSeparator "int s"] assms
    by (auto simp: Let_def comp_from_def max_def)
qed

text \<open>What \<^verbatim>\<open>extname\<close> and \<^verbatim>\<open>parse\<close> cut out after the scan.\<close>

lemma comp_slices:
  assumes "w = comp_from s p" "w \<noteq> []" "m = max s (wstart p)"
  shows "js_slice p (int m) (int m + int (length w)) = w"
    "0 < dot_idx w \<Longrightarrow> w \<noteq> dotdot_seg \<Longrightarrow> js_slice p (int m + dot_idx w) (int m + int (length w)) = ext_of w"
    "0 < dot_idx w \<Longrightarrow> w \<noteq> dotdot_seg \<Longrightarrow> js_slice p (int m) (int m + dot_idx w) = stem_of w"
proof -
  have k: "s < wend p" using assms(1,2) by (auto simp: comp_from_def split: if_splits)
  then have b: "m \<le> wend p" "wend p \<le> length p" using wend_bounds [of p] assms(3) by auto
  have w: "w = sub p m (wend p)" using assms(1,3) k by (simp add: comp_from_def)
  then have len: "int m + int (length w) = int (wend p)" using b by simp
  show "js_slice p (int m) (int m + int (length w)) = w" unfolding len using b by (simp add: w sub_slice)
  show "0 < dot_idx w \<Longrightarrow> w \<noteq> dotdot_seg \<Longrightarrow> js_slice p (int m + dot_idx w) (int m + int (length w)) = ext_of w"
    "0 < dot_idx w \<Longrightarrow> w \<noteq> dotdot_seg \<Longrightarrow> js_slice p (int m) (int m + dot_idx w) = stem_of w"
    unfolding len using slice_ext [OF b] by (simp_all add: w)
qed

lemma stem_ext_none: "dot_idx w \<le> 0 \<or> w = dotdot_seg \<Longrightarrow> stem_of w = w \<and> ext_of w = []"
  using ext_of_none [of w] stem_ext [of w] by auto

lemma win32_basename_eq: "win32_basename_str p [] = comp_from (drive_len p) p"
proof -
  have d: "drive_len p \<le> length p" by (simp add: drive_len_def)
  have "wend p \<le> length p" by (rule wend_bounds)
  then show ?thesis
    using d wend_bounds [of p]
    by (auto simp: win32_basename_str_def basename_loop_eq Let_def comp_from_def sub_slice)
qed

lemma win32_extname_eq: "win32_extname_str p = ext_of (comp_from (drive_len p) p)"
proof (cases "comp_from (drive_len p) p = []")
  case True
  have "drive_len p \<le> length p" by (simp add: drive_len_def)
  with True show ?thesis
    by (simp add: win32_extname_str_def ext_loop_comp) (simp add: ext_of_def)
next
  case False
  define w where "w = comp_from (drive_len p) p"
  define m where "m = max (drive_len p) (wstart p)"
  have "drive_len p \<le> length p" by (simp add: drive_len_def)
  then have st: "ext_loop isPathSeparator p (drive_len p) (ext_scan_init (int (drive_len p))) (length p) = ext_desc m w (int m)"
    using False by (simp add: ext_loop_comp w_def m_def)
  have wne: "w \<noteq> []" using False by (simp add: w_def)
  note cs = comp_slices [OF w_def wne m_def]
  show ?thesis
    unfolding win32_extname_str_def Let_def st no_ext_desc [OF wne] w_def [symmetric]
    using cs stem_ext_none [of w] by (auto simp: ext_desc_def)
qed

lemma win32_parse_tail_eq:
  assumes "R \<le> length p"
  shows "win32_parse_tail p R =
    \<lparr>root = take R p,
     dir = (if comp_from R p \<noteq> [] \<and> R < wstart p then take (wstart p - 1) p else take R p),
     base = comp_from R p, ext = ext_of (comp_from R p), name = stem_of (comp_from R p)\<rparr>"
proof -
  define w where "w = comp_from R p"
  define m where "m = max R (wstart p)"
  have rt: "js_slice p 0 (int R) = take R p" using assms by (simp add: js_slice_zero)
  have root: "(if R > 0 then empty_parsed\<lparr>root := js_slice p 0 (int R)\<rparr> else empty_parsed) = empty_parsed\<lparr>root := take R p\<rparr>"
    by (simp add: rt empty_parsed_def)
  show ?thesis
  proof (cases "w = []")
    case True
    then have st: "ext_loop isPathSeparator p R (ext_scan_init (int R)) (length p) = ext_scan_init (int R)"
      using ext_loop_comp [OF assms] by (simp add: w_def)
    have "stem_of [] = []" by (simp add: stem_of_def)
    then show ?thesis
      unfolding win32_parse_tail_def Let_def st root w_def [symmetric]
      using True by (simp add: ext_scan_init_def no_ext_def empty_parsed_def ext_of_def)
  next
    case False
    then have st: "ext_loop isPathSeparator p R (ext_scan_init (int R)) (length p) = ext_desc m w (int m)"
      using ext_loop_comp [OF assms] by (simp add: w_def m_def)
    have dir: "js_slice p 0 (int m - 1) = take (wstart p - 1) p" if "R < wstart p"
      using that js_slice_zero [of "m - 1" p] wend_bounds [of p] by (simp add: m_def max_def)
    have m: "0 < int m \<and> int m \<noteq> int R \<longleftrightarrow> R < wstart p" by (auto simp: m_def max_def)
    have flds: "startPart (ext_desc m w (int m)) = int m" "end_idx (ext_desc m w (int m)) = int m + int (length w)"
      by (simp_all add: ext_desc_def)
    note cs = comp_slices [OF w_def False m_def]
    show ?thesis
      unfolding win32_parse_tail_def Let_def st root no_ext_desc [OF False] w_def [symmetric] flds m cs(1)
      using False dir cs(2,3) stem_ext_none [of w] dot_idx_ge [of w]
      by (cases "dot_idx w \<le> 0 \<or> w = dotdot_seg"; cases "R < wstart p")
        (auto simp: empty_parsed_def ext_desc_def)
  qed
qed

text \<open>Where \<^verbatim>\<open>parse\<close> ends the root: after a drive, after the separator that follows it, or after a
  server and share.\<close>

lemma win32_parse_root_bound: "win32_parse_root p = Some R \<Longrightarrow> R \<le> length p"
  using unc_root(2,3) [of p]
  by (auto simp: win32_parse_root_def Let_def charCodeAt_def split: if_splits option.splits prod.splits)

lemma parse_root_comp:
  assumes "win32_parse_root p = Some R" "\<not> is_unc (fst (snd (win32_root p)))"
  shows "comp_from R p = comp_from (drive_len p) p"
proof -
  have unc: "is_unc (unc_device fp (js_slice p (int l) (int j)))" "l < j"
      "j = length p \<Longrightarrow> js_slice_from p (int l) = js_slice p (int l) (int j)"
    if "length p > 1" "unc_scan p = Some (fp, l, j)" for fp l j
    using that unc_root [of p fp l j] unfolding is_unc_def by auto
  have "R = drive_len p \<or> R = Suc (drive_len p) \<and> drive_len p < length p \<and> is_sep (p ! drive_len p)"
  proof (cases "isPathSeparator (charCodeAt p 0)")
    case True
    then have "drive_len p = 0" "0 < length p" "is_sep (p ! 0)"
      using drive_not_sep by (auto simp: drive_len_def charCodeAt_def split: if_splits)
    then show ?thesis
      using assms True unc
      by (auto simp: win32_parse_root_def win32_root_def Let_def split: if_splits option.splits prod.splits)
  next
    case False
    then show ?thesis
      using assms(1) by (auto simp: win32_parse_root_def Let_def drive_len_def charCodeAt_def split: if_splits)
  qed
  then show ?thesis using comp_from_root by auto
qed

lemma parse_root_drive:
  assumes "win32_parse_root p = None" "p \<noteq> []"
  shows "comp_from (drive_len p) p = []"
proof -
  have "length p = Suc 0 \<and> is_sep (p ! 0) \<or> length p = 2 \<and> drive_len p = 2 \<or>
      length p = Suc 2 \<and> drive_len p = 2 \<and> is_sep (p ! 2)"
    using assms Suc_le_eq [of 0 "length p"]
    by (auto simp: le_antisym not_less win32_parse_root_def Let_def drive_len_def charCodeAt_def split: if_splits option.splits prod.splits)
  then have "wend p \<le> drive_len p"
    using trim_len_le [of isPathSeparator p 2] trim_len_simps(2) [of 2 p isPathSeparator] by auto
  then show ?thesis by (simp add: comp_from_def)
qed

lemma win32_parse_comp:
  assumes "p \<noteq> []"
  defines "r \<equiv> win32_parse_str p"
  shows "\<exists>s. base r = comp_from s p" "ext r = ext_of (base r)" "name r = stem_of (base r)" "prefix (root r) p"
    "\<not> is_unc (fst (snd (win32_root p))) \<Longrightarrow> base r = comp_from (drive_len p) p"
proof -
  have "(\<exists>s. base r = comp_from s p) \<and> ext r = ext_of (base r) \<and> name r = stem_of (base r) \<and> prefix (root r) p \<and>
    (\<not> is_unc (fst (snd (win32_root p))) \<longrightarrow> base r = comp_from (drive_len p) p)"
  proof (cases "win32_parse_root p")
    case None
    have "ext_of [] = []" "stem_of [] = []" by (simp_all add: ext_of_def stem_of_def)
    moreover have "r = empty_parsed\<lparr>root := p, dir := p\<rparr>" using assms None by (simp add: win32_parse_str_def)
    ultimately show ?thesis
      using parse_root_drive [OF None assms(1), symmetric] by (auto simp: empty_parsed_def)
  next
    case (Some R)
    have "r = win32_parse_tail p R" using assms Some by (simp add: win32_parse_str_def)
    then show ?thesis
      using parse_root_comp [OF Some] by (auto simp: win32_parse_tail_eq [OF win32_parse_root_bound [OF Some]] take_is_prefix)
  qed
  then show "\<exists>s. base r = comp_from s p" "ext r = ext_of (base r)" "name r = stem_of (base r)" "prefix (root r) p"
    "\<not> is_unc (fst (snd (win32_root p))) \<Longrightarrow> base r = comp_from (drive_len p) p" by blast+
qed

lemma win32_format_parse_eq:
  assumes "p \<noteq> []" "CHAR_FORWARD_SLASH \<notin> set p" "last p \<noteq> CHAR_BACKWARD_SLASH"
    and after: "charCodeAt p (int (length (root (win32_parse_str p)))) \<noteq> Some CHAR_BACKWARD_SLASH"
  shows "format_path [CHAR_BACKWARD_SLASH] (win32_parse_str p) = p"
proof (cases "win32_parse_root p")
  case None
  then show ?thesis using assms(1) by (simp add: win32_parse_str_def format_path_def js_or_def empty_parsed_def)
next
  case (Some R)
  have R: "R \<le> length p" using win32_parse_root_bound [OF Some] .
  define w where "w = comp_from R p"
  define m where "m = wstart p"
  have r: "win32_parse_str p = \<lparr>root = take R p, dir = (if w \<noteq> [] \<and> R < m then take (m - 1) p else take R p),
      base = w, ext = ext_of w, name = stem_of w\<rparr>"
    using assms(1) Some by (simp add: win32_parse_str_def win32_parse_tail_eq [OF R] w_def m_def)
  have "\<not> is_sep (last p)" using assms(1-3) by (metis is_sep_iff last_in_set)
  then have k: "wend p = length p" using assms(1) by (cases p rule: rev_cases) simp_all
  have mk: "m < length p" using wend_bounds(3) [of p] k assms(1) by (simp add: m_def)
  have sep: "p ! (m - 1) = CHAR_BACKWARD_SLASH" if "R < m"
  proof -
    have "is_sep (p ! (m - 1))" "m - 1 < length p"
      using part_start_sep [of "wend p" p isPathSeparator "m - 1"] that k mk by (auto simp: m_def)
    then show ?thesis using assms(2) by (metis is_sep_iff nth_mem)
  qed
  have "R \<noteq> m - 1" if "R < m" using sep [OF that] after R that mk by (auto simp: r)
  show ?thesis
  proof (cases "w = []")
    case True
    then have "length p \<le> R" using k mk unfolding w_def comp_from_def m_def by (auto simp: sub_def split: if_splits)
    then show ?thesis using True R assms(1) unfolding r format_path_def js_or_def by (simp add: stem_of_def ext_of_def)
  next
    case False
    note parts = format_path_parts [OF False, of "[CHAR_BACKWARD_SLASH]"]
    have w: "w = drop (max R m) p" using False k unfolding w_def comp_from_def m_def by (auto simp: sub_def split: if_splits)
    show ?thesis
    proof (cases "R < m")
      case True
      have "take m p = take (m - 1) p @ [CHAR_BACKWARD_SLASH]"
        using True mk sep take_Suc_conv_app_nth [of "m - 1" p] by simp
      moreover have "take (m - 1) p \<noteq> take R p"
        using \<open>R < m \<Longrightarrow> R \<noteq> m - 1\<close> True mk R by (metis diff_le_self length_take min.absorb2 order.strict_implies_order order.trans)
      moreover have "take (m - 1) p \<noteq> []" using \<open>R < m \<Longrightarrow> R \<noteq> m - 1\<close> True mk by auto
      moreover have "take m p @ w = p" using w True by (simp add: max_def)
      ultimately show ?thesis using True False unfolding r parts by simp
    next
      case lt: False
      then have "take R p @ w = p" using w by (simp add: max_def)
      then show ?thesis using lt unfolding r parts by simp
    qed
  qed
qed

subsection \<open>Properties\<close>

text \<open>C32. The parts that \<^verbatim>\<open>parse\<close> of the Windows variant returns: the root is a prefix of the path, the base
  name holds no separator and is made up of the name and the extension, and unless the path names a network share
  the base name and the extension are those that \<^verbatim>\<open>basename\<close> and \<^verbatim>\<open>extname\<close> return.\<close>

theorem win32_parse_agrees:
  "\<exists>r. win32_parse (JStr p) = Inr r \<and> prefix (root r) p \<and> name r @ ext r = base r \<and>
     list_all (\<lambda>c. \<not> isPathSeparator (Some c)) (base r) \<and>
     (is_unc (fst (snd (win32_root p))) \<or>
      win32_basename (JStr p) (JOther TUndefined) = Inr (base r) \<and> win32_extname (JStr p) = Inr (ext r))"
proof (cases "p = []")
  case True
  then show ?thesis
    by (simp add: win32_parse_def win32_parse_str_def empty_parsed_def win32_basename_def win32_basename_eq
        win32_extname_def win32_extname_eq comp_from_def ext_of_def)
next
  case False
  note r = win32_parse_comp [OF False]
  have "list_all (\<lambda>c. \<not> is_sep c) (base (win32_parse_str p))"
    using r(1) comp_from_nosep [of _ _ p] by (auto simp: list_all_iff)
  then show ?thesis
    using r(2-5) stem_ext [of "base (win32_parse_str p)"]
    by (auto simp: win32_parse_def win32_basename_def win32_extname_def win32_basename_eq win32_extname_eq)
qed

text \<open>C33. \<^verbatim>\<open>format\<close> inverts \<^verbatim>\<open>parse\<close> on the Windows paths written with backslashes that neither end in one
  nor have a second one after the root.\<close>

theorem win32_format_parse:
  assumes "CHAR_FORWARD_SLASH \<notin> set p" "p = [] \<or> last p \<noteq> CHAR_BACKWARD_SLASH"
    and "win32_parse (JStr p) = Inr r" "charCodeAt p (int (length (root r))) \<noteq> Some CHAR_BACKWARD_SLASH"
  shows "win32_format (Inr r) = Inr p"
proof (cases "p = []")
  case True
  then show ?thesis using assms(3)
    by (simp add: win32_parse_def win32_parse_str_def win32_format_def empty_parsed_def format_path_def js_or_def) auto
next
  case False
  have "r = win32_parse_str p" using assms(3) by (simp add: win32_parse_def)
  then show ?thesis using win32_format_parse_eq [OF False assms(1)] assms(2,4) False by (simp add: win32_format_def)
qed

theorem win32_format_parse_witness:
  "\<exists>r. win32_parse (JStr (js ''C:'' @ win32_sep @ js ''a.b'')) = Inr r \<and>
    win32_format (Inr r) = Inr (js ''C:'' @ win32_sep @ js ''a.b'')"
proof -
  let ?p = "js ''C:'' @ win32_sep @ js ''a.b''" and ?r = "\<lparr>root = js ''C:'' @ win32_sep, dir = js ''C:'' @ win32_sep,
      base = js ''a.b'', ext = js ''.b'', name = js ''a''\<rparr>"
  have "CHAR_FORWARD_SLASH \<notin> set ?p" "?p = [] \<or> last ?p \<noteq> CHAR_BACKWARD_SLASH" "win32_parse (JStr ?p) = Inr ?r"
    "charCodeAt ?p (int (length (root ?r))) \<noteq> Some CHAR_BACKWARD_SLASH"
    by code_simp+
  from win32_format_parse [OF this] this(3) show ?thesis by blast
qed

end
