(* ===== verification/Path_Win32_Resolve.thy ===== *)
theory Path_Win32_Resolve
  imports Path_Win32_Normal
begin

text \<open>
  \<^verbatim>\<open>resolve\<close> of the Windows variant against a reference semantics, and the properties of the Windows
  path functions.
\<close>

subsection \<open>resolve\<close>

text \<open>
  The reference semantics of \<^verbatim>\<open>resolve\<close>: the device is that of the last argument which has one,
  arguments on another device are left out, and the others are followed from left to right as changes
  of directory on that device.
\<close>

definition wdev :: "js_string \<Rightarrow> js_string" where
  "wdev p = fst (snd (win32_root p))"

definition wcd :: "js_string list \<Rightarrow> js_string \<Rightarrow> js_string list" where
  "wcd d p = (case win32_root p of (r, _, isAbs) \<Rightarrow> resolve_segs False (if isAbs then [] else d) (wsegs (drop r p)))"

definition last_device :: "js_string list \<Rightarrow> js_string" where
  "last_device ps = foldl (\<lambda>D p. if wdev p = [] then D else wdev p) [] ps"

definition on_device :: "(js_string \<Rightarrow> js_string) \<Rightarrow> js_string \<Rightarrow> js_string \<Rightarrow> bool" where
  "on_device lower D p \<longleftrightarrow> wdev p = [] \<or> lower (wdev p) = lower D"

text \<open>The directory the walk starts in when the arguments name the device \<open>D\<close>: the working directory
  \<open>c\<close>, or the root of \<open>D\<close> when that is another device.\<close>

definition start_path :: "(js_string \<Rightarrow> js_string) \<Rightarrow> js_string \<Rightarrow> js_string \<Rightarrow> js_string" where
  "start_path lower c D =
     (if D = [] \<or> lower (js_slice c 0 3) = lower D @ [CHAR_BACKWARD_SLASH] then c else D @ [CHAR_BACKWARD_SLASH])"

definition ascii_lower :: "code_unit \<Rightarrow> code_unit" where
  "ascii_lower c = (if CHAR_UPPERCASE_A \<le> c \<and> c \<le> CHAR_UPPERCASE_Z then c + 32 else c)"

definition lower_ok :: "(js_string \<Rightarrow> js_string) \<Rightarrow> bool" where
  "lower_ok lower \<longleftrightarrow> (\<forall>s. list_all (\<lambda>c. c < 128) s \<longrightarrow> lower s = map ascii_lower s)"

lemma last_device_simps [simp]:
  "last_device [] = []" "last_device (ps @ [p]) = (if wdev p = [] then last_device ps else wdev p)"
  by (simp_all add: last_device_def)

lemma wroot_Nil [simp]: "win32_root [] = (0, [], False)"
  by (simp add: win32_root_def charCodeAt_def)

lemma wcd_Nil [simp]: "wcd d [] = d" "wdev [] = []"
  by (simp_all add: wcd_def wdev_def segments_def seg_step_def)

lemma wdev_device: "wdev p \<noteq> [] \<Longrightarrow> is_drive (wdev p) \<or> is_unc (wdev p)"
  using win32_root_device(2) [of p] by (cases "win32_root p") (auto simp: wdev_def)

lemma resolve_wsegs_sep:
  "resolve_segs up st (wsegs (p @ CHAR_BACKWARD_SLASH # q)) = resolve_segs up (resolve_segs up st (wsegs p)) (wsegs q)"
  by (simp add: segments_sep resolve_segs_append)

lemma start_path_root:
  assumes "lower_ok lower" "is_drive dc" "is_sep s" "D = [] \<or> is_drive D \<or> is_unc D"
    and c_def: "c = dc @ s # t"
  shows "\<exists>r dev. win32_root (start_path lower c D) = (r, dev, True) \<and> dev \<noteq> [] \<and>
    (if D = [] then dev = dc else lower dev = lower D)"
proof -
  have c: "win32_root c = (3, dc, True)" unfolding c_def using root_drive(1) [OF assms(2)] assms(3) by blast
  obtain x where dc: "dc = [x, CHAR_COLON]" "isWindowsDeviceRoot (Some x)"
    using assms(2) by (cases dc; cases "tl dc") (auto simp: is_drive_def)
  have ascii: "x < 128" "s < 128" using dc(2) assms(3) by (auto simp: isWindowsDeviceRoot_def is_sep_iff)
  have "js_slice c 0 3 = [x, CHAR_COLON, s]" using js_slice_nat [of 0 3 c] by (simp add: c_def dc numeral_3_eq_3)
  then have "lower (js_slice c 0 3) = lower dc @ [ascii_lower s]"
    using assms(1) ascii by (simp add: lower_ok_def dc)
  then have same: "lower (js_slice c 0 3) = lower D @ [CHAR_BACKWARD_SLASH] \<Longrightarrow> lower dc = lower D" by simp
  have root: "\<exists>r. win32_root (D @ [CHAR_BACKWARD_SLASH]) = (r, D, True)" if "D \<noteq> []"
    using assms(4) that root_drive(1) [of D "[]" CHAR_BACKWARD_SLASH "[]"] root_unc [of _ _ "[]"]
    by (auto simp: is_unc_def)
  have "dc \<noteq> []" by (simp add: dc)
  then show ?thesis using c same root unfolding start_path_def by (cases "D = []") auto
qed

lemma win32_entry_eq:
  "win32_resolve_entry lower q st =
     (if wdev q \<noteq> [] \<and> resolvedDevice st \<noteq> [] \<and> lower (wdev q) \<noteq> lower (resolvedDevice st) then st
      else st\<lparr>resolvedDevice := (if resolvedDevice st = [] then wdev q else resolvedDevice st),
              resolvedTail := (if resolvedAbsolute st \<or> q = [] then resolvedTail st
                else drop (fst (win32_root q)) q @ CHAR_BACKWARD_SLASH # resolvedTail st),
              resolvedAbsolute := (resolvedAbsolute st \<or> snd (snd (win32_root q)))\<rparr>)"
proof (cases "win32_root q")
  case (fields r dev isAbs)
  have "js_slice_from q (int r) = drop r q" using win32_root_device(1) [OF fields] by (rule js_slice_from_nat)
  then show ?thesis using fields by (auto simp: win32_resolve_entry_def wdev_def Let_def)
qed

text \<open>What the loop leaves for the entries \<open>qs\<close> that are still to come, for a start in the directory
  \<open>c\<close> on the drive \<open>dc\<close>.\<close>

definition loop_done ::
  "(js_string \<Rightarrow> js_string) \<Rightarrow> js_string \<Rightarrow> js_string \<Rightarrow> js_string list \<Rightarrow> win32_resolved \<Rightarrow> win32_resolved \<Rightarrow> bool" where
  "loop_done lower c dc qs st st' \<longleftrightarrow>
     (let Dq = (if resolvedDevice st = [] then last_device qs else resolvedDevice st);
          D = (if Dq = [] then dc else Dq)
      in resolvedDevice st' = D \<and> resolvedAbsolute st' \<and>
         resolve_segs False [] (wsegs (resolvedTail st')) =
           (if resolvedAbsolute st then resolve_segs False [] (wsegs (resolvedTail st))
            else resolve_segs False (foldl wcd [] (filter (on_device lower D) (start_path lower c Dq # qs)))
                   (wsegs (resolvedTail st))))"

lemma loop_done_skip:
  assumes "q = [] \<or> wdev q \<noteq> [] \<and> resolvedDevice st \<noteq> [] \<and> lower (wdev q) \<noteq> lower (resolvedDevice st)"
  shows "loop_done lower c dc (qs @ [q]) st st' \<longleftrightarrow> loop_done lower c dc qs st st'"
proof (cases "q = []")
  case True
  have "on_device lower D []" for D by (simp add: on_device_def)
  then show ?thesis by (simp add: loop_done_def True)
next
  case False
  then have D: "resolvedDevice st \<noteq> []" and "\<not> on_device lower (resolvedDevice st) q"
    using assms by (simp_all add: on_device_def)
  then show ?thesis by (simp add: loop_done_def)
qed

lemma loop_done_step:
  assumes root: "win32_root q = (r, dev, isAbs)" and "q \<noteq> []"
    and app: "dev = [] \<or> resolvedDevice st = [] \<or> lower dev = lower (resolvedDevice st)"
    and st1: "st1 = win32_resolve_entry lower q st"
    and fin: "loop_done lower c dc qs st1 st'"
  shows "loop_done lower c dc (qs @ [q]) st st'"
proof -
  have wd: "wdev q = dev" by (simp add: wdev_def root)
  define D0 where "D0 = (if resolvedDevice st = [] then dev else resolvedDevice st)"
  define Dq where "Dq = (if D0 = [] then last_device qs else D0)"
  define D where "D = (if Dq = [] then dc else Dq)"
  have st1': "resolvedDevice st1 = D0" "resolvedAbsolute st1 = (resolvedAbsolute st \<or> isAbs)"
      "resolvedTail st1 = (if resolvedAbsolute st then resolvedTail st else drop r q @ CHAR_BACKWARD_SLASH # resolvedTail st)"
    using app assms(2) unfolding st1 win32_entry_eq wd root D0_def
    by (cases "dev = []"; cases "resolvedDevice st = []"; simp)+
  have Dq: "(if resolvedDevice st = [] then last_device (qs @ [q]) else resolvedDevice st) = Dq"
    by (simp add: D0_def Dq_def wd)
  have on: "on_device lower D q"
    using app unfolding on_device_def wd D_def Dq_def D0_def
    by (cases "dev = []"; cases "resolvedDevice st = []"; simp)
  have cd: "wcd d q = resolve_segs False (if isAbs then [] else d) (wsegs (drop r q))" for d
    by (simp add: wcd_def root)
  note fin' = fin [unfolded loop_done_def Let_def st1' Dq_def [symmetric] D_def [symmetric]]
  show ?thesis
    unfolding loop_done_def Let_def Dq D_def [symmetric]
    using fin' on by (cases "resolvedAbsolute st"; cases isAbs) (simp_all add: cd resolve_wsegs_sep)
qed

lemma loop_done_refl: "resolvedAbsolute st \<Longrightarrow> resolvedDevice st \<noteq> [] \<Longrightarrow> loop_done lower c dc qs st st"
  by (simp add: loop_done_def)

lemma win32_cwd_path_eq:
  assumes "deno_cwd E = Some (Inr (JStr c))" "env_get_is_function E"
  shows "win32_cwd_path E lower D = Inr (JStr (start_path lower c D))"
  using assms by (simp add: win32_cwd_path_def start_path_def)

lemma loop_done_start:
  assumes p: "p = start_path lower c (resolvedDevice st)"
    and r: "win32_root p = (r, dev, True)" "dev \<noteq> []"
      "if resolvedDevice st = [] then dev = dc else lower dev = lower (resolvedDevice st)"
  shows "loop_done lower c dc [] st (win32_resolve_entry lower p st)"
proof -
  have w: "wdev p = dev" "p \<noteq> []" using r(1) by (auto simp: wdev_def)
  have cd: "wcd [] p = resolve_segs False [] (wsegs (drop r p))" by (simp add: wcd_def r(1))
  show ?thesis
  proof (cases "resolvedDevice st = []")
    case True
    then have "dev = dc" "p = c" using r(3) p by (simp_all add: start_path_def)
    then show ?thesis
      using True r(1) w cd p by (simp add: loop_done_def win32_entry_eq on_device_def resolve_wsegs_sep)
  next
    case False
    then have "lower dev = lower (resolvedDevice st)" using r(3) by simp
    then show ?thesis
      using False r(1) w cd p by (simp add: loop_done_def win32_entry_eq on_device_def resolve_wsegs_sep)
  qed
qed

lemma win32_resolve_loop_done:
  assumes E: "deno_cwd E = Some (Inr (JStr c))" "env_get_is_function E"
    and c: "lower_ok lower" "is_drive dc" "is_sep s" "c = dc @ s # t"
    and D: "resolvedDevice st = [] \<or> is_drive (resolvedDevice st) \<or> is_unc (resolvedDevice st)"
  shows "\<exists>st'. win32_resolve_loop E lower (map JStr (rev qs)) st = Inr st' \<and> loop_done lower c dc qs st st'"
  using D
proof (induction qs arbitrary: st rule: rev_induct)
  case Nil
  let ?p = "start_path lower c (resolvedDevice st)"
  obtain r dev where r: "win32_root ?p = (r, dev, True)" "dev \<noteq> []"
      "if resolvedDevice st = [] then dev = dc else lower dev = lower (resolvedDevice st)"
    using start_path_root [OF c(1,2,3) Nil c(4)] by blast
  then show ?case using loop_done_start [OF refl r] by (simp add: win32_cwd_path_eq [OF E])
next
  case (snoc q qs)
  let ?st = "win32_resolve_entry lower q st"
  let ?stop = "length q > 0 \<and> resolvedAbsolute ?st \<and> length (resolvedDevice ?st) > 0"
  have loop: "win32_resolve_loop E lower (map JStr (rev (qs @ [q]))) st =
      (if ?stop then Inr ?st else win32_resolve_loop E lower (map JStr (rev qs)) ?st)"
    by (simp add: Let_def)
  have dev: "resolvedDevice ?st = [] \<or> is_drive (resolvedDevice ?st) \<or> is_unc (resolvedDevice ?st)"
    using snoc.prems wdev_device [of q] by (simp add: win32_entry_eq) blast
  obtain st' where st': "win32_resolve_loop E lower (map JStr (rev (qs @ [q]))) st = Inr st'"
      "loop_done lower c dc qs ?st st'"
    using snoc.IH [OF dev] loop_done_refl [of ?st lower c dc qs] unfolding loop by (cases ?stop) auto
  show ?case
  proof (cases "q = [] \<or> wdev q \<noteq> [] \<and> resolvedDevice st \<noteq> [] \<and> lower (wdev q) \<noteq> lower (resolvedDevice st)")
    case True
    then have "?st = st" by (auto simp: win32_entry_eq)
    then show ?thesis using st' loop_done_skip [OF True] by auto
  next
    case False
    obtain r dev isAbs where root: "win32_root q = (r, dev, isAbs)" by (cases "win32_root q")
    have app: "dev = [] \<or> resolvedDevice st = [] \<or> lower dev = lower (resolvedDevice st)" "q \<noteq> []"
      using False by (auto simp: wdev_def root)
    show ?thesis using st' loop_done_step [OF root app(2,1) refl st'(2)] by blast
  qed
qed

lemma win32_resolve_finish_abs:
  "resolvedAbsolute st \<Longrightarrow> win32_resolve_finish st =
     resolvedDevice st @ CHAR_BACKWARD_SLASH # js_join [CHAR_BACKWARD_SLASH] (resolve_segs False [] (wsegs (resolvedTail st)))"
  by (simp add: win32_resolve_finish_def win32.normalizeString_spec js_or_def Let_def)

definition wdir_ok :: "js_string list \<Rightarrow> bool" where
  "wdir_ok d \<longleftrightarrow> wok d \<and> canonical False d"

lemma wdir_ok_cd: "wdir_ok d \<Longrightarrow> wdir_ok (wcd d p)"
  using win32.resolve_segments_ok [of d _ False] win32.resolve_segments_ok [of "[]" _ False]
  by (auto simp: wdir_ok_def wcd_def canonical_resolve split: prod.splits)

lemma wdir_ok_walk: "wdir_ok d \<Longrightarrow> wdir_ok (foldl wcd d ps)"
  by (induction ps arbitrary: d) (simp_all add: wdir_ok_cd)

text \<open>A drive followed by a separator.\<close>

definition drive_rooted :: "js_string \<Rightarrow> bool" where
  "drive_rooted c \<longleftrightarrow> drive_len c = 2 \<and> win32_isAbsolute_str c"

lemma drive_rootedE:
  assumes "drive_rooted c"
  obtains s t where "is_drive (take 2 c)" "is_sep s" "c = take 2 c @ s # t"
proof -
  obtain x y z t where c: "c = x # y # z # t"
    using assms
    by (cases c; cases "tl c"; cases "tl (tl c)")
      (auto simp: drive_rooted_def drive_len_def win32_isAbsolute_str_def charCodeAt_def split: if_splits
        dest: drive_not_sep)
  then have "isWindowsDeviceRoot (Some x)" "y = CHAR_COLON" "is_sep z"
    using assms drive_not_sep [of x]
    by (auto simp: drive_rooted_def drive_len_def win32_isAbsolute_str_def charCodeAt_def numeral_2_eq_2 split: if_splits)
  then show thesis using c that by (simp add: is_drive_def)
qed

lemma win32_resolve_walk:
  fixes ps :: "js_string list"
  assumes E: "deno_cwd E = Some (Inr (JStr c))" "env_get_is_function E"
    and c: "lower_ok lower" "drive_rooted c"
  defines "D \<equiv> (if last_device ps = [] then take 2 c else last_device ps)"
  defines "dirs \<equiv> foldl wcd [] (filter (on_device lower D) (start_path lower c (last_device ps) # ps))"
  shows "win32_resolve E lower (map JStr ps) =
    Inr (D @ CHAR_BACKWARD_SLASH # js_join [CHAR_BACKWARD_SLASH] dirs)"
proof -
  obtain s t where st: "is_drive (take 2 c)" "is_sep s" "c = take 2 c @ s # t"
    using c(2) by (rule drive_rootedE)
  let ?st = "\<lparr>resolvedDevice = [], resolvedTail = [], resolvedAbsolute = False\<rparr> :: win32_resolved"
  obtain st' where "win32_resolve_loop E lower (map JStr (rev ps)) ?st = Inr st'"
      "loop_done lower c (take 2 c) ps ?st st'"
    using win32_resolve_loop_done [OF E c(1) st, of ?st ps] by auto
  then show ?thesis
    by (simp add: win32_resolve_def rev_map loop_done_def Let_def win32_resolve_finish_abs D_def dirs_def
        segments_def seg_step_def)
qed

subsection \<open>Properties\<close>

text \<open>A lower-casing that touches ASCII letters only, for concrete instances.\<close>

definition ascii_toLowerCase :: "js_string \<Rightarrow> js_string" where
  "ascii_toLowerCase s = map ascii_lower s"

lemma lower_ok_ascii: "lower_ok ascii_toLowerCase"
  by (simp add: lower_ok_def ascii_toLowerCase_def)

text \<open>C9. \<^verbatim>\<open>resolve\<close> of the Windows variant, for a working directory below the root of a drive: the device is
  the one named last, otherwise the drive of the working directory; arguments on other devices are left out; the
  others are followed from left to right, starting in the working directory or, on another device, at its root. The
  result is the device, a backslash and the names of the directory reached, none of them empty, \<^verbatim>\<open>.\<close>
  or \<^verbatim>\<open>..\<close>. Of \<^verbatim>\<open>toLowerCase\<close> only its action on ASCII strings is assumed.\<close>

theorem win32_resolve_follows:
  assumes "deno_cwd E = Some (Inr (JStr c))" "env_get_is_function E" "drive_rooted c"
    and lower: "\<And>s. list_all (\<lambda>c. c < 128) s \<Longrightarrow> lower s = map ascii_lower s"
  shows "\<exists>D dirs. win32_resolve E lower (map JStr ps) = Inr (D @ win32_sep @ js_join win32_sep dirs) \<and>
    D = (if last_device ps = [] then take 2 c else last_device ps) \<and>
    dirs = foldl wcd [] (filter (on_device lower D) (start_path lower c (last_device ps) # ps)) \<and>
    list_all plain_seg dirs"
proof -
  have l: "lower_ok lower" using lower by (simp add: lower_ok_def)
  have "wdir_ok (foldl wcd [] qs)" for qs by (rule wdir_ok_walk) (simp add: wdir_ok_def)
  then have "list_all plain_seg (foldl wcd [] qs)" for qs by (simp add: wdir_ok_def canonical_False list_all_iff)
  then show ?thesis using win32_resolve_walk [OF assms(1,2) l assms(3), of ps] by (simp add: win32_sep_def)
qed

theorem win32_resolve_follows_witness:
  "win32_resolve \<lparr>deno_cwd = Some (Inr (JStr (js ''C:'' @ win32_sep @ js ''w''))), env_get_is_function = True\<rparr> ascii_toLowerCase
     (map JStr [js ''a'', js ''D:x'', js ''c:b'']) =
   Inr (js ''c:'' @ win32_sep @ js ''w'' @ win32_sep @ js ''a'' @ win32_sep @ js ''b'')"
proof -
  let ?E = "\<lparr>deno_cwd = Some (Inr (JStr (js ''C:'' @ win32_sep @ js ''w''))), env_get_is_function = True\<rparr>"
  let ?ps = "[js ''a'', js ''D:x'', js ''c:b'']"
  have "drive_rooted (js ''C:'' @ win32_sep @ js ''w'')" by code_simp
  then obtain D dirs where r: "win32_resolve ?E ascii_toLowerCase (map JStr ?ps) = Inr (D @ win32_sep @ js_join win32_sep dirs)"
      "D = (if last_device ?ps = [] then take 2 (js ''C:'' @ win32_sep @ js ''w'') else last_device ?ps)"
      "dirs = foldl wcd [] (filter (on_device ascii_toLowerCase D)
         (start_path ascii_toLowerCase (js ''C:'' @ win32_sep @ js ''w'') (last_device ?ps) # ?ps))"
    using win32_resolve_follows [of ?E "js ''C:'' @ win32_sep @ js ''w''" ascii_toLowerCase ?ps] by (auto simp: ascii_toLowerCase_def)
  have "D = js ''c:''" unfolding r(2) by code_simp
  moreover have "dirs = [js ''w'', js ''a'', js ''b'']" unfolding r(3) \<open>D = js ''c:''\<close> by code_simp
  ultimately show ?thesis unfolding r(1) by (simp add: win32_sep_def js_def)
qed

text \<open>C24. \<^verbatim>\<open>normalize\<close> of the Windows variant, when its result starts with a drive only if the path does: the
  result is a fixed point of it, and absolute exactly when the path is. Without the condition both fail, since the
  dot of a path such as \<^verbatim>\<open>./C:/x\<close> is removed.\<close>

theorem win32_normalize_stable:
  assumes "win32_normalize (JStr p) = Inr n" "drive_len n = 2 \<Longrightarrow> drive_len p = 2"
  shows "win32_normalize (JStr n) = Inr n \<and> win32_isAbsolute (JStr n) = win32_isAbsolute (JStr p)"
proof (cases "p = []")
  case True
  then have "n = js ''.''" using assms(1) by (simp add: win32_normalize_def win32_normalize_str_def js_def)
  moreover have "win32_normalize (JStr (js ''.'')) = Inr (js ''.'')" "win32_isAbsolute (JStr (js ''.'')) = Inr False"
    "win32_isAbsolute (JStr []) = Inr False" by code_simp+
  ultimately show ?thesis by (simp add: True)
next
  case False
  have "n = win32_normalize_str p" using assms(1) by (simp add: win32_normalize_def)
  then show ?thesis using win32_normalize_again [OF False] assms(2) by (simp add: win32_normalize_def win32_isAbsolute_def)
qed

theorem win32_normalize_stable_witness:
  "win32_normalize (JStr (js ''C:'' @ win32_sep @ js ''b'')) = Inr (js ''C:'' @ win32_sep @ js ''b'') \<and>
   win32_isAbsolute (JStr (js ''C:'' @ win32_sep @ js ''b'')) = win32_isAbsolute (JStr (js ''C:/a/../b'')) \<and>
   win32_normalize (JStr (js ''./C:/x'')) = Inr (js ''C:'' @ win32_sep @ js ''x'') \<and>
   win32_isAbsolute (JStr (js ''./C:/x'')) = Inr False \<and> win32_isAbsolute (JStr (js ''C:'' @ win32_sep @ js ''x'')) = Inr True"
proof -
  have n: "win32_normalize (JStr (js ''C:/a/../b'')) = Inr (js ''C:'' @ win32_sep @ js ''b'')" by code_simp
  have d: "drive_len (js ''C:/a/../b'') = 2" by code_simp
  have "win32_normalize (JStr (js ''./C:/x'')) = Inr (js ''C:'' @ win32_sep @ js ''x'')"
   "win32_isAbsolute (JStr (js ''./C:/x'')) = Inr False" "win32_isAbsolute (JStr (js ''C:'' @ win32_sep @ js ''x'')) = Inr True"
    by code_simp+
  then show ?thesis using win32_normalize_stable [OF n d] by simp
qed

end
