(* ===== verification/Fixed_Queue.thy ===== *)
theory Fixed_Queue
  imports Prelude
begin

text \<open>
  \<^verbatim>\<open>internal/fixed_queue.ts\<close>: a queue as a linked list of circular buffers. The buffers live in a store,
  the list \<open>heap\<close>, and \<^verbatim>\<open>head\<close>, \<^verbatim>\<open>tail\<close> and \<^verbatim>\<open>next\<close> are addresses
  in it; \<^verbatim>\<open>new FixedCircularBuffer()\<close> takes the next free address. An undefined slot is
  \<^const>\<open>None\<close>.
\<close>

unbundle bit_operations_syntax

definition kSize :: nat where "kSize = 2048"
definition kMask :: nat where "kMask = kSize - 1"

subsection \<open>FixedCircularBuffer\<close>

record 'a FixedCircularBuffer =
  bottom :: nat
  top_idx :: nat
  list :: "'a option list"
  next_buf :: "nat option"

definition new_buffer :: "'a FixedCircularBuffer" where
  "new_buffer = \<lparr>bottom = 0, top_idx = 0, list = replicate kSize None, next_buf = None\<rparr>"

definition buf_isEmpty :: "'a FixedCircularBuffer \<Rightarrow> bool" where
  "buf_isEmpty b \<longleftrightarrow> top_idx b = bottom b"

definition buf_isFull :: "'a FixedCircularBuffer \<Rightarrow> bool" where
  "buf_isFull b \<longleftrightarrow> (top_idx b + 1) AND kMask = bottom b"

definition buf_push :: "'a option \<Rightarrow> 'a FixedCircularBuffer \<Rightarrow> 'a FixedCircularBuffer" where
  "buf_push data b = b\<lparr>list := (list b)[top_idx b := data], top_idx := (top_idx b + 1) AND kMask\<rparr>"

definition buf_shift :: "'a FixedCircularBuffer \<Rightarrow> 'a option \<times> 'a FixedCircularBuffer" where
  "buf_shift b =
     (case list b ! bottom b of None \<Rightarrow> (None, b)
      | Some nextItem \<Rightarrow>
          (Some nextItem, b\<lparr>list := (list b)[bottom b := None], bottom := (bottom b + 1) AND kMask\<rparr>))"

subsection \<open>FixedQueue\<close>

record 'a FixedQueue =
  heap :: "'a FixedCircularBuffer list"
  head :: nat
  tail :: nat

definition new_queue :: "'a FixedQueue" where
  "new_queue = \<lparr>heap = [new_buffer], head = 0, tail = 0\<rparr>"

definition fq_isEmpty :: "'a FixedQueue \<Rightarrow> bool" where
  "fq_isEmpty q \<longleftrightarrow> buf_isEmpty (heap q ! head q)"

definition fq_push :: "'a option \<Rightarrow> 'a FixedQueue \<Rightarrow> 'a FixedQueue" where
  "fq_push data q =
     (let q1 = (if buf_isFull (heap q ! head q) then
                  (let n = length (heap q)
                   in q\<lparr>heap := (heap q)[head q := (heap q ! head q)\<lparr>next_buf := Some n\<rparr>] @ [new_buffer], head := n\<rparr>)
                else q)
      in q1\<lparr>heap := (heap q1)[head q1 := buf_push data (heap q1 ! head q1)]\<rparr>)"

definition fq_shift :: "'a FixedQueue \<Rightarrow> 'a option \<times> 'a FixedQueue" where
  "fq_shift q =
     (let (nxt, b) = buf_shift (heap q ! tail q);
          q1 = q\<lparr>heap := (heap q)[tail q := b]\<rparr>
      in (nxt, if buf_isEmpty b then (case next_buf b of None \<Rightarrow> q1 | Some n \<Rightarrow> q1\<lparr>tail := n\<rparr>) else q1))"

subsection \<open>The queue interface\<close>

text \<open>
  What a client may rely on: \<open>rep q xs\<close> says that the queue \<open>q\<close> holds the items
  \<open>xs\<close>, oldest first.
\<close>

text \<open>A run of a client: the results of its calls of \<^verbatim>\<open>shift\<close> and the queue it leaves, and the same run
  on a plain list.\<close>

datatype 'a queue_op = Push 'a | Shift

fun run_ops :: "('a \<Rightarrow> 'q \<Rightarrow> 'q) \<Rightarrow> ('q \<Rightarrow> 'a option \<times> 'q) \<Rightarrow> 'a queue_op list \<Rightarrow> 'q \<Rightarrow> 'a option list \<times> 'q" where
  "run_ops psh shf [] q = ([], q)"
| "run_ops psh shf (Push x # ops) q = run_ops psh shf ops (psh x q)"
| "run_ops psh shf (Shift # ops) q =
     (let (y, q1) = shf q; (ys, q2) = run_ops psh shf ops q1 in (y # ys, q2))"

definition list_push :: "'a \<Rightarrow> 'a list \<Rightarrow> 'a list" where
  "list_push x xs = xs @ [x]"

definition list_shift :: "'a list \<Rightarrow> 'a option \<times> 'a list" where
  "list_shift xs = (case xs of [] \<Rightarrow> (None, []) | x # ys \<Rightarrow> (Some x, ys))"

locale fifo_queue =
  fixes empty :: 'q
    and isEmpty :: "'q \<Rightarrow> bool"
    and push :: "'a \<Rightarrow> 'q \<Rightarrow> 'q"
    and shift :: "'q \<Rightarrow> 'a option \<times> 'q"
    and rep :: "'q \<Rightarrow> 'a list \<Rightarrow> bool"
  assumes rep_empty: "rep empty []"
    and rep_isEmpty: "rep q xs \<Longrightarrow> isEmpty q \<longleftrightarrow> xs = []"
    and rep_push: "rep q xs \<Longrightarrow> rep (push x q) (xs @ [x])"
    and rep_shift_Nil: "rep q [] \<Longrightarrow> fst (shift q) = None \<and> rep (snd (shift q)) []"
    and rep_shift_Cons: "rep q (x # xs) \<Longrightarrow> fst (shift q) = Some x \<and> rep (snd (shift q)) xs"
begin

lemma shift_cases:
  assumes "rep q xs"
  obtains q' where "xs = []" "shift q = (None, q')" "rep q' []"
  | x ys q' where "xs = x # ys" "shift q = (Some x, q')" "rep q' ys"
  using assms rep_shift_Nil [of q] rep_shift_Cons [of q] by (cases xs; cases "shift q") auto

lemma shift_list: "rep q xs \<Longrightarrow> fst (shift q) = fst (list_shift xs) \<and> rep (snd (shift q)) (snd (list_shift xs))"
  by (erule shift_cases) (simp_all add: list_shift_def)

lemma run_simulates:
  "rep q xs \<Longrightarrow> fst (run_ops push shift ops q) = fst (run_ops list_push list_shift ops xs) \<and>
     rep (snd (run_ops push shift ops q)) (snd (run_ops list_push list_shift ops xs))"
proof (induction ops arbitrary: q xs)
  case (Cons op ops)
  show ?case
  proof (cases op)
    case (Push x)
    then show ?thesis using Cons.IH [OF rep_push [OF Cons.prems, of x]] by (simp add: list_push_def)
  next
    case Shift
    then show ?thesis
      using Cons.IH [of "snd (shift q)" "snd (list_shift xs)"] shift_list [OF Cons.prems]
      by (simp add: Let_def split_beta)
  qed
qed simp

lemma rep_unique:
  assumes "rep q xs" "rep q ys"
  shows "xs = ys"
  using assms
proof (induction xs arbitrary: q ys)
  case Nil
  then show ?case using rep_isEmpty by blast
next
  case (Cons x xs)
  then have "ys \<noteq> []" using rep_isEmpty by blast
  then obtain y ys' where "ys = y # ys'" by (cases ys) auto
  with Cons rep_shift_Cons show ?case by (metis option.inject)
qed

lemma rep_pushes: "rep q xs \<Longrightarrow> rep (fold push ys q) (xs @ ys)"
proof (induction ys arbitrary: q xs)
  case (Cons y ys)
  from Cons.IH [OF rep_push [OF Cons.prems, of y]] show ?case by simp
qed simp

end

subsection \<open>The circular buffer holds a list\<close>

lemma and_kMask: "n AND kMask = n mod kSize"
proof -
  have k: "kMask = mask 11" "kSize = 2 ^ 11" by (simp_all add: kMask_def kSize_def mask_eq_exp_minus_1)
  show ?thesis unfolding k by (metis take_bit_eq_mask take_bit_eq_mod)
qed

lemma kSize_pos [simp]: "0 < kSize" "1 < kSize" "Suc 0 < kSize" by (simp_all add: kSize_def)

definition buf_rep :: "'a FixedCircularBuffer \<Rightarrow> 'a list \<Rightarrow> bool" where
  "buf_rep b xs \<longleftrightarrow> length (list b) = kSize \<and> bottom b < kSize \<and> length xs < kSize \<and>
     top_idx b = (bottom b + length xs) mod kSize \<and>
     (\<forall>i<kSize. list b ! ((bottom b + i) mod kSize) = (if i < length xs then Some (xs ! i) else None))"

lemma add_mod_eq: "i < kSize \<Longrightarrow> j < kSize \<Longrightarrow> (b + i) mod kSize = (b + j) mod kSize \<longleftrightarrow> i = j"
proof -
  assume ij: "i < kSize" "j < kSize"
  have "i = j" if eq: "(b + i) mod kSize = (b + j) mod kSize" and le: "i \<le> j" and lt: "j < kSize" for i j
  proof -
    obtain q where "b + j = b + i + kSize * q" using mod_eq_nat1E [OF eq [symmetric]] le by auto
    then show ?thesis using lt by (cases q) auto
  qed
  from this [of i j] this [of j i] ij show ?thesis by (cases "i \<le> j") auto
qed

lemma buf_rep_new: "buf_rep new_buffer []"
  by (simp add: buf_rep_def new_buffer_def)

lemma buf_rep_next: "buf_rep (b\<lparr>next_buf := n\<rparr>) xs = buf_rep b xs"
  by (simp add: buf_rep_def)

lemma buf_rep_isEmpty: "buf_rep b xs \<Longrightarrow> buf_isEmpty b \<longleftrightarrow> xs = []"
  using add_mod_eq [of "length xs" 0 "bottom b"] by (auto simp: buf_rep_def buf_isEmpty_def)

lemma buf_rep_isFull:
  assumes "buf_rep b xs"
  shows "buf_isFull b \<longleftrightarrow> Suc (length xs) = kSize"
proof -
  have "(top_idx b + 1) mod kSize = (bottom b + Suc (length xs)) mod kSize"
    using assms by (simp add: buf_rep_def mod_Suc_eq)
  moreover have "Suc (length xs) \<le> kSize" using assms by (simp add: buf_rep_def)
  ultimately show ?thesis
    using assms add_mod_eq [of "Suc (length xs)" 0 "bottom b"]
    by (cases "Suc (length xs) = kSize") (auto simp: buf_rep_def buf_isFull_def and_kMask)
qed

lemma buf_rep_push:
  assumes "buf_rep b xs" "\<not> buf_isFull b"
  shows "buf_rep (buf_push (Some x) b) (xs @ [x])"
proof -
  have len: "Suc (length xs) < kSize"
    using assms buf_rep_isFull [OF assms(1)] by (auto simp: buf_rep_def)
  have top: "top_idx b = (bottom b + length xs) mod kSize" using assms(1) by (simp add: buf_rep_def)
  then have "(top_idx b + 1) mod kSize = (bottom b + length (xs @ [x])) mod kSize" by (simp add: mod_Suc_eq)
  moreover have "(list b)[top_idx b := Some x] ! ((bottom b + i) mod kSize) =
      (if i < length (xs @ [x]) then Some ((xs @ [x]) ! i) else None)" if "i < kSize" for i
  proof -
    have "top_idx b < length (list b)" using assms(1) top by (simp add: buf_rep_def)
    moreover have "top_idx b = (bottom b + i) mod kSize \<longleftrightarrow> i = length xs"
      using add_mod_eq [OF that, of "length xs" "bottom b"] len by (auto simp: top)
    ultimately show ?thesis using assms(1) that by (auto simp: buf_rep_def nth_list_update nth_append)
  qed
  ultimately show ?thesis using assms(1) len by (simp add: buf_rep_def buf_push_def and_kMask)
qed

lemma buf_rep_shift_Nil: "buf_rep b [] \<Longrightarrow> buf_shift b = (None, b)"
  by (auto simp: buf_rep_def buf_shift_def dest: spec [of _ 0])

lemma buf_rep_shift_Cons:
  assumes "buf_rep b (x # xs)"
  shows "\<exists>b'. buf_shift b = (Some x, b') \<and> buf_rep b' xs \<and> next_buf b' = next_buf b"
proof -
  let ?b = "b\<lparr>list := (list b)[bottom b := None], bottom := (bottom b + 1) AND kMask\<rparr>"
  have slot: "list b ! ((bottom b + i) mod kSize) = (if i < Suc (length xs) then Some ((x # xs) ! i) else None)"
    if "i < kSize" for i using assms that by (simp add: buf_rep_def)
  have bot: "bottom b < kSize" "length (list b) = kSize" "Suc (length xs) < kSize" using assms by (simp_all add: buf_rep_def)
  have first: "list b ! bottom b = Some x" using slot [of 0] bot by simp
  have "(list b)[bottom b := None] ! ((Suc (bottom b) mod kSize + i) mod kSize) = (if i < length xs then Some (xs ! i) else None)"
    if "i < kSize" for i
  proof -
    have idx: "(Suc (bottom b) mod kSize + i) mod kSize = (bottom b + Suc i) mod kSize" by (simp add: mod_simps)
    show ?thesis
    proof (cases "Suc i = kSize")
      case True
      then have "(bottom b + Suc i) mod kSize = bottom b" using bot by simp
      then show ?thesis using True bot unfolding idx by simp
    next
      case False
      then have "Suc i < kSize" using that by simp
      then have "(bottom b + Suc i) mod kSize \<noteq> bottom b"
        using add_mod_eq [of "Suc i" 0 "bottom b"] bot by simp
      then show ?thesis using slot [OF \<open>Suc i < kSize\<close>] unfolding idx by simp
    qed
  qed
  moreover have "top_idx b = (Suc (bottom b) mod kSize + length xs) mod kSize"
    using assms by (simp add: buf_rep_def mod_simps)
  ultimately have "buf_rep ?b xs" using bot by (simp add: buf_rep_def and_kMask)
  then show ?thesis by (simp add: buf_shift_def first)
qed

subsection \<open>The chain of buffers holds a list\<close>

text \<open>The addresses from the tail to the head, each buffer pointing to the next one.\<close>

fun chain :: "'a FixedCircularBuffer list \<Rightarrow> nat list \<Rightarrow> bool" where
  "chain h [] = False"
| "chain h [a] = (a < length h \<and> next_buf (h ! a) = None)"
| "chain h (a # b # as) = (a < length h \<and> next_buf (h ! a) = Some b \<and> chain h (b # as))"

lemma chain_bound: "chain h as \<Longrightarrow> a \<in> set as \<Longrightarrow> a < length h"
  by (induction h as rule: chain.induct) auto

lemma chain_same_next:
  "chain h as \<Longrightarrow> length h = length h' \<Longrightarrow> (\<And>a. a < length h \<Longrightarrow> next_buf (h' ! a) = next_buf (h ! a)) \<Longrightarrow> chain h' as"
  by (induction h as rule: chain.induct) auto

lemma chain_extend:
  assumes "chain h as" "distinct as" "next_buf b = None"
  shows "chain (h[last as := (h ! last as)\<lparr>next_buf := Some (length h)\<rparr>] @ [b]) (as @ [length h])"
  using assms(1,2)
proof (induction h as rule: chain.induct)
  case (2 h a)
  then show ?case using assms(3) by (simp add: nth_append)
next
  case (3 h a c as)
  then have "last (c # as) \<noteq> a" by auto
  with 3 show ?case by (auto simp: nth_append)
qed simp

definition fq_rep :: "'a FixedQueue \<Rightarrow> 'a list \<Rightarrow> bool" where
  "fq_rep q xs \<longleftrightarrow> (\<exists>as bss. chain (heap q) as \<and> distinct as \<and> hd as = tail q \<and> last as = head q \<and>
     list_all2 (\<lambda>a ys. buf_rep (heap q ! a) ys) as bss \<and> concat bss = xs \<and>
     (length as = 1 \<or> list_all (\<lambda>ys. ys \<noteq> []) bss))"

lemma fq_rep_new: "fq_rep new_queue []"
  unfolding fq_rep_def
  by (intro exI [of _ "[0]"] exI [of _ "[[]]"]) (simp add: new_queue_def buf_rep_new, simp add: new_buffer_def)

lemma list_all2_last:
  "list_all2 P as bss \<Longrightarrow> as \<noteq> [] \<Longrightarrow> \<exists>as' a bss' ys. as = as' @ [a] \<and> bss = bss' @ [ys] \<and> list_all2 P as' bss' \<and> P a ys"
  by (cases as rule: rev_cases) (auto simp: list_all2_append1 list_all2_Cons1)

lemma list_all2_heap:
  assumes "\<And>c. c \<in> set as \<Longrightarrow> h' ! c = h ! c"
  shows "list_all2 (\<lambda>c ys. P (h' ! c) ys) as bss \<longleftrightarrow> list_all2 (\<lambda>c ys. P (h ! c) ys) as bss"
  using assms by (induction as arbitrary: bss) (auto simp: list_all2_Cons1)

lemma list_all2_update:
  "a \<notin> set as \<Longrightarrow> list_all2 (\<lambda>c ys. P (h[a := b] ! c) ys) as bss \<longleftrightarrow> list_all2 (\<lambda>c ys. P (h ! c) ys) as bss"
  by (rule list_all2_heap) (metis nth_list_update_neq)

lemma fq_shift_eq:
  "buf_shift (heap q ! tail q) = (x, b) \<Longrightarrow> fq_shift q =
     (x, if buf_isEmpty b then (case next_buf b of None \<Rightarrow> q\<lparr>heap := (heap q)[tail q := b]\<rparr>
           | Some n \<Rightarrow> q\<lparr>heap := (heap q)[tail q := b], tail := n\<rparr>) else q\<lparr>heap := (heap q)[tail q := b]\<rparr>)"
  by (simp add: fq_shift_def Let_def cong: if_cong split: option.splits)

lemma chain_Nil: "chain h as \<Longrightarrow> as \<noteq> []"
  by (cases as) auto

lemma fq_rep_isEmpty:
  assumes "fq_rep q xs"
  shows "fq_isEmpty q \<longleftrightarrow> xs = []"
proof -
  obtain as bss where r: "chain (heap q) as" "last as = head q"
      "list_all2 (\<lambda>a ys. buf_rep (heap q ! a) ys) as bss" "concat bss = xs" "length as = 1 \<or> list_all (\<lambda>ys. ys \<noteq> []) bss"
    using assms by (auto simp: fq_rep_def)
  obtain as' a bss' ys where s: "as = as' @ [a]" "bss = bss' @ [ys]" "list_all2 (\<lambda>a ys. buf_rep (heap q ! a) ys) as' bss'"
      "buf_rep (heap q ! a) ys"
    using list_all2_last [OF r(3) chain_Nil [OF r(1)]] by blast
  have "bss' = [] \<or> ys \<noteq> []" using r(5) s(1-3) by auto
  then show ?thesis using r(2,4) s(1,2) buf_rep_isEmpty [OF s(4)] by (auto simp: fq_isEmpty_def)
qed

lemma fq_rep_shift_aux:
  assumes "chain (heap q) (a # as)" "distinct (a # as)" "a = tail q" "last (a # as) = head q"
    and "buf_rep (heap q ! a) ys" "list_all2 (\<lambda>a ys. buf_rep (heap q ! a) ys) as bss"
    and "as = [] \<or> ys \<noteq> [] \<and> list_all (\<lambda>ys. ys \<noteq> []) bss"
    and sh: "buf_shift (heap q ! a) = (x, b)" "buf_rep b zs" "next_buf b = next_buf (heap q ! a)"
  shows "fst (fq_shift q) = x \<and> fq_rep (snd (fq_shift q)) (zs @ concat bss)"
proof -
  let ?h = "(heap q)[a := b]"
  have al: "a < length (heap q)" using chain_bound [OF assms(1)] by simp
  have ch: "chain ?h (a # as)"
    by (rule chain_same_next [OF assms(1)]) (use sh(3) al in \<open>auto simp: nth_list_update\<close>)
  have rest: "list_all2 (\<lambda>a ys. buf_rep (?h ! a) ys) as bss"
    using assms(2,6) by (simp add: list_all2_update)
  have hb: "?h ! a = b" using al by simp
  show ?thesis
  proof (cases as)
    case Nil
    then have nx: "next_buf b = None" "bss = []" using assms(1,6) sh(3) by auto
    then have "fq_shift q = (x, q\<lparr>heap := ?h\<rparr>)"
      using fq_shift_eq [of q x b] sh(1) assms(3) by simp
    moreover have "fq_rep (q\<lparr>heap := ?h\<rparr>) zs"
      unfolding fq_rep_def using Nil ch assms(3,4) sh(2) hb
      by (intro exI [of _ "[a]"] exI [of _ "[zs]"]) auto
    ultimately show ?thesis using nx by simp
  next
    case (Cons c cs)
    then have nx: "next_buf b = Some c" using assms(1) sh(3) by simp
    have ne: "list_all (\<lambda>ys. ys \<noteq> []) bss" using assms(7) Cons by simp
    show ?thesis
    proof (cases "zs = []")
      case True
      then have "fq_shift q = (x, q\<lparr>heap := ?h, tail := c\<rparr>)"
        using fq_shift_eq [of q x b] sh(1) assms(3) nx buf_rep_isEmpty [OF sh(2)] by simp
      moreover have "fq_rep (q\<lparr>heap := ?h, tail := c\<rparr>) (concat bss)"
        unfolding fq_rep_def using Cons ch assms(2,4) rest ne by (intro exI [of _ as] exI [of _ bss]) auto
      ultimately show ?thesis using True by simp
    next
      case False
      then have "fq_shift q = (x, q\<lparr>heap := ?h\<rparr>)"
        using fq_shift_eq [of q x b] sh(1) assms(3) buf_rep_isEmpty [OF sh(2)] by simp
      moreover have "fq_rep (q\<lparr>heap := ?h\<rparr>) (zs @ concat bss)"
        unfolding fq_rep_def using ch assms(2,3,4) rest ne False sh(2) hb
        by (intro exI [of _ "a # as"] exI [of _ "zs # bss"]) auto
      ultimately show ?thesis by simp
    qed
  qed
qed

lemma fq_rep_shift:
  assumes "fq_rep q xs"
  shows "fst (fq_shift q) = (case xs of [] \<Rightarrow> None | x # _ \<Rightarrow> Some x) \<and> fq_rep (snd (fq_shift q)) (tl xs)"
proof -
  obtain as bss where r: "chain (heap q) as" "distinct as" "hd as = tail q" "last as = head q"
      "list_all2 (\<lambda>a ys. buf_rep (heap q ! a) ys) as bss" "concat bss = xs" "length as = 1 \<or> list_all (\<lambda>ys. ys \<noteq> []) bss"
    using assms by (auto simp: fq_rep_def)
  obtain a as' where as: "as = a # as'" using chain_Nil [OF r(1)] by (cases as) auto
  then obtain ys bss' where bss: "bss = ys # bss'" "buf_rep (heap q ! a) ys"
      "list_all2 (\<lambda>a ys. buf_rep (heap q ! a) ys) as' bss'"
    using r(5) by (auto simp: list_all2_Cons1)
  have ne: "as' = [] \<or> ys \<noteq> [] \<and> list_all (\<lambda>ys. ys \<noteq> []) bss'" using r(7) as bss(1) by auto
  have t: "a = tail q" using r(3) as by simp
  note aux = fq_rep_shift_aux [OF r(1) [unfolded as] r(2) [unfolded as] t r(4) [unfolded as] bss(2,3) ne]
  have xs: "xs = ys @ concat bss'" using r(6) bss(1) by simp
  show ?thesis
  proof (cases ys)
    case Nil
    then have "bss' = []" using ne bss(3) by auto
    then have "xs = []" using xs Nil by simp
    then show ?thesis
      using aux [OF buf_rep_shift_Nil [OF bss(2) [unfolded Nil]] bss(2) [unfolded Nil] refl] \<open>bss' = []\<close> by simp
  next
    case (Cons y zs)
    obtain b where b: "buf_shift (heap q ! a) = (Some y, b)" "buf_rep b zs" "next_buf b = next_buf (heap q ! a)"
      using buf_rep_shift_Cons [OF bss(2) [unfolded Cons]] by blast
    show ?thesis using aux [OF b] unfolding xs Cons by simp
  qed
qed

lemma fq_rep_push_last:
  assumes "chain h (as @ [a])" "distinct (as @ [a])" "list_all2 (\<lambda>a ys. buf_rep (h ! a) ys) as bss"
    and "buf_rep b ys" "next_buf b = next_buf (h ! a)" "hd (as @ [a]) = t"
    and "ys \<noteq> []" "list_all (\<lambda>ys. ys \<noteq> []) bss"
  shows "fq_rep \<lparr>heap = h[a := b], head = a, tail = t\<rparr> (concat bss @ ys)"
proof -
  have al: "a < length h" using chain_bound [OF assms(1)] by simp
  have "chain (h[a := b]) (as @ [a])"
    by (rule chain_same_next [OF assms(1)]) (use assms(5) al in \<open>auto simp: nth_list_update\<close>)
  moreover have "list_all2 (\<lambda>a' ys. buf_rep (h[a := b] ! a') ys) as bss"
    using assms(2,3) by (simp add: list_all2_update)
  ultimately show ?thesis
    unfolding fq_rep_def using assms(2,4,6,7,8) al
    by (intro exI [of _ "as @ [a]"] exI [of _ "bss @ [ys]"]) (simp add: list_all2_appendI)
qed

lemma fq_rep_push:
  assumes "fq_rep q xs"
  shows "fq_rep (fq_push (Some x) q) (xs @ [x])"
proof -
  obtain as bss where r: "chain (heap q) as" "distinct as" "hd as = tail q" "last as = head q"
      "list_all2 (\<lambda>a ys. buf_rep (heap q ! a) ys) as bss" "concat bss = xs" "length as = 1 \<or> list_all (\<lambda>ys. ys \<noteq> []) bss"
    using assms by (auto simp: fq_rep_def)
  obtain as' a bss' ys where s: "as = as' @ [a]" "bss = bss' @ [ys]" "list_all2 (\<lambda>a ys. buf_rep (heap q ! a) ys) as' bss'"
      "buf_rep (heap q ! a) ys"
    using list_all2_last [OF r(5) chain_Nil [OF r(1)]] by blast
  have a: "a = head q" "a < length (heap q)" using r(4) s(1) chain_bound [OF r(1), of a] by auto
  have ne: "list_all (\<lambda>ys. ys \<noteq> []) bss'" "bss' = [] \<or> ys \<noteq> []" using r(7) s(1,2,3) by auto
  show ?thesis
  proof (cases "buf_isFull (heap q ! a)")
    case False
    let ?b = "buf_push (Some x) (heap q ! a)"
    have "fq_push (Some x) q = \<lparr>heap = (heap q)[a := ?b], head = a, tail = tail q\<rparr>"
      using False by (simp add: fq_push_def a(1))
    moreover have "fq_rep \<dots> (concat bss' @ ys @ [x])"
      using r(1,2,3) s a ne buf_rep_push [OF s(4) False]
      by (intro fq_rep_push_last) (auto simp: buf_push_def)
    moreover have "xs @ [x] = concat bss' @ ys @ [x]" using r(6) s(2) by auto
    ultimately show ?thesis by simp
  next
    case True
    let ?n = "length (heap q)"
    let ?h = "(heap q)[a := (heap q ! a)\<lparr>next_buf := Some ?n\<rparr>] @ [new_buffer]"
    let ?b = "buf_push (Some x) new_buffer"
    have nn: "\<not> buf_isFull (new_buffer :: 'a FixedCircularBuffer)" using buf_rep_isFull [OF buf_rep_new] by (simp add: kSize_def)
    have "fq_push (Some x) q = \<lparr>heap = ?h[?n := ?b], head = ?n, tail = tail q\<rparr>"
      using True by (simp add: fq_push_def Let_def a(1) nth_append)
    moreover have "fq_rep \<dots> (concat bss @ [x])"
    proof (rule fq_rep_push_last [where as = as])
      show "chain ?h (as @ [?n])" using chain_extend [OF r(1,2), of new_buffer] s(1) by (simp add: new_buffer_def)
      show "distinct (as @ [?n])" using r(1,2) chain_bound by fastforce
      have "list_all2 (\<lambda>a' ys. buf_rep (?h ! a') ys) as' bss'"
        using s(3) r(2) s(1) chain_bound [OF r(1)] by (subst list_all2_heap [of as' _ "heap q"]) (auto simp: nth_append intro: nth_list_update_neq)
      then show "list_all2 (\<lambda>a ys. buf_rep (?h ! a) ys) as bss"
        using s(1,2,4) a(2) by (auto simp: nth_append buf_rep_next intro: list_all2_appendI)
      show "buf_rep ?b [x]" using buf_rep_push [OF buf_rep_new nn, of x] by simp
      show "next_buf ?b = next_buf (?h ! ?n)" by (simp add: buf_push_def nth_append new_buffer_def)
      show "hd (as @ [?n]) = tail q" using r(3) chain_Nil [OF r(1)] by simp
      have "ys \<noteq> []" using True buf_rep_isFull [OF s(4)] by (auto simp: kSize_def)
      then show "list_all (\<lambda>ys. ys \<noteq> []) bss" using ne s(2) by simp
    qed simp
    ultimately show ?thesis using r(6) by simp
  qed
qed

interpretation fq: fifo_queue new_queue fq_isEmpty "\<lambda>x. fq_push (Some x)" fq_shift fq_rep
proof unfold_locales
  show "fq_rep new_queue []" by (rule fq_rep_new)
  show "fq_isEmpty q \<longleftrightarrow> xs = []" if "fq_rep q xs" for q :: "'a FixedQueue" and xs using that by (rule fq_rep_isEmpty)
  show "fq_rep (fq_push (Some x) q) (xs @ [x])" if "fq_rep q xs" for q :: "'a FixedQueue" and x xs
    using that by (rule fq_rep_push)
  show "fst (fq_shift q) = None \<and> fq_rep (snd (fq_shift q)) []" if "fq_rep q []" for q :: "'a FixedQueue"
    using fq_rep_shift [OF that] by simp
  show "fst (fq_shift q) = Some x \<and> fq_rep (snd (fq_shift q)) xs" if "fq_rep q (x # xs)" for q :: "'a FixedQueue" and x xs
    using fq_rep_shift [OF that] by simp
qed

subsection \<open>Properties\<close>

lemma buf_rep_bounds: "buf_rep b ys \<Longrightarrow> length (list b) = kSize \<and> bottom b < kSize \<and> top_idx b < kSize"
  by (simp add: buf_rep_def)

lemma fq_rep_bounds:
  assumes "fq_rep q xs" "a = head q \<or> a = tail q"
  shows "a < length (heap q) \<and> length (list (heap q ! a)) = kSize \<and> bottom (heap q ! a) < kSize \<and> top_idx (heap q ! a) < kSize"
proof -
  obtain as bss where r: "chain (heap q) as" "hd as = tail q" "last as = head q"
      "list_all2 (\<lambda>a ys. buf_rep (heap q ! a) ys) as bss"
    using assms(1) unfolding fq_rep_def by blast
  then have a: "a \<in> set as" using assms(2) chain_Nil [OF r(1)] by (metis hd_in_set last_in_set)
  then obtain i where "i < length as" "as ! i = a" by (auto simp: in_set_conv_nth)
  then show ?thesis using chain_bound [OF r(1) a] list_all2_nthD [OF r(4), of i] buf_rep_bounds by auto
qed

text \<open>C3. Every run of pushes and shifts on a new \<^verbatim>\<open>FixedQueue\<close> returns what the same run on a list
  returns, in first-in first-out order and across the boundaries of the circular buffers, and the queue says that it
  is empty exactly when the list is.\<close>

theorem fixed_queue_fifo:
  "fst (run_ops (\<lambda>x. fq_push (Some x)) fq_shift ops new_queue) = fst (run_ops list_push list_shift ops []) \<and>
   (fq_isEmpty (snd (run_ops (\<lambda>x. fq_push (Some x)) fq_shift ops new_queue)) \<longleftrightarrow>
    snd (run_ops list_push list_shift ops []) = [])"
  using fq.run_simulates [OF fq.rep_empty, of ops] fq.rep_isEmpty by blast

text \<open>C34. In every queue that a run of pushes and shifts leaves, \<^verbatim>\<open>head\<close> and \<^verbatim>\<open>tail\<close> point to
  allocated buffers, and the indices of these stay below \<^verbatim>\<open>kSize\<close>, the length of their arrays.\<close>

theorem fixed_queue_bounds:
  "let q = snd (run_ops (\<lambda>x. fq_push (Some x)) fq_shift ops new_queue); h = heap q ! head q; t = heap q ! tail q
   in head q < length (heap q) \<and> tail q < length (heap q) \<and>
      length (list h) = kSize \<and> bottom h < kSize \<and> top_idx h < kSize \<and>
      length (list t) = kSize \<and> bottom t < kSize \<and> top_idx t < kSize"
proof -
  define q where "q = snd (run_ops (\<lambda>x. fq_push (Some x)) fq_shift ops (new_queue :: 'a FixedQueue))"
  obtain xs where "fq_rep q xs" unfolding q_def using fq.run_simulates [OF fq.rep_empty, of ops] by blast
  then show ?thesis
    unfolding q_def [symmetric] Let_def using fq_rep_bounds [of q xs "head q"] fq_rep_bounds [of q xs "tail q"] by blast
qed

end
