(* ===== verification/Next_Tick.thy ===== *)
theory Next_Tick
  imports Fixed_Queue
begin

text \<open>
  \<^verbatim>\<open>_next_tick.ts\<close>: \<^verbatim>\<open>process.nextTick\<close> and the loop that runs the scheduled callbacks.
  The module's variables, the flag kept by \<^verbatim>\<open>core\<close> and \<^verbatim>\<open>_exiting\<close> are one record; user code
  is a parameter. It is given as an interaction tree: between its own changes of the outside world it may call
  \<^verbatim>\<open>nextTick\<close>, learns whether that threw, and in the end returns or throws. So user code does not set
  \<^verbatim>\<open>process._exiting\<close> or start \<^verbatim>\<open>processTicksAndRejections\<close> while a callback runs, and the
  flags \<open>nextTickEnabled\<close> and \<open>exiting\<close> keep their values during a pass.
\<close>

subsection \<open>State and user code\<close>

datatype 'cb js_callback = Fn 'cb | NotFn js_typeof

record ('cb, 'arg) Tock =
  callback :: 'cb
  args :: "'arg list option"

datatype ('cb, 'arg, 'w) prog =
    Return 'w
  | Throw 'w
  | CallNextTick "'cb js_callback" "'arg list" "bool \<Rightarrow> ('cb, 'arg, 'w) prog"

record ('cb, 'arg, 'w) tick_state =
  queue :: "('cb, 'arg) Tock FixedQueue"
  nextTickEnabled :: bool
  exiting :: bool
  hasTickScheduled :: bool
  world :: 'w

definition initial_ticks :: "'w \<Rightarrow> ('cb, 'arg, 'w) tick_state" where
  "initial_ticks w =
     \<lparr>queue = new_queue, nextTickEnabled = False, exiting = False, hasTickScheduled = False, world = w\<rparr>"

definition enableNextTick :: "('cb, 'arg, 'w) tick_state \<Rightarrow> ('cb, 'arg, 'w) tick_state" where
  "enableNextTick st = st\<lparr>nextTickEnabled := True\<rparr>"

subsection \<open>nextTick\<close>

definition validateFunction :: "'cb js_callback \<Rightarrow> string \<Rightarrow> 'cb result" where
  "validateFunction value name =
     (case value of Fn cb \<Rightarrow> Inr cb | NotFn _ \<Rightarrow> Inl (ERR_INVALID_ARG_TYPE name))"

text \<open>The copy of the arguments; the last case copies index by index.\<close>

definition copy_args :: "'arg list \<Rightarrow> 'arg list option" where
  "copy_args as =
     (if length as = 0 then None
      else if length as = 1 then Some [as ! 0]
      else if length as = 2 then Some [as ! 0, as ! 1]
      else if length as = 3 then Some [as ! 0, as ! 1, as ! 2]
      else Some (map (\<lambda>i. as ! i) [0..<length as]))"

definition nextTick ::
  "'cb js_callback \<Rightarrow> 'arg list \<Rightarrow> ('cb, 'arg, 'w) tick_state \<Rightarrow> ('cb, 'arg, 'w) tick_state result" where
  "nextTick cb as st =
     (if \<not> nextTickEnabled st then Inr st
      else bindE (validateFunction cb ''callback'') (\<lambda>f.
        if exiting st then Inr st
        else let st1 = (if fq_isEmpty (queue st) then st\<lparr>hasTickScheduled := True\<rparr> else st)
             in Inr (st1\<lparr>queue := fq_push (Some \<lparr>callback = f, args = copy_args as\<rparr>) (queue st1)\<rparr>)))"

subsection \<open>Running callbacks\<close>

text \<open>The arguments a callback is called with.\<close>

definition tock_call :: "('cb, 'arg) Tock \<Rightarrow> 'arg list" where
  "tock_call t =
     (case args t of None \<Rightarrow> []
      | Some as \<Rightarrow>
          if length as = 1 then [as ! 0]
          else if length as = 2 then [as ! 0, as ! 1]
          else if length as = 3 then [as ! 0, as ! 1, as ! 2]
          else if length as = 4 then [as ! 0, as ! 1, as ! 2, as ! 3]
          else as)"

text \<open>User code run to its end; the flag says whether it threw.\<close>

primrec run_prog ::
  "('cb, 'arg, 'w) prog \<Rightarrow> ('cb, 'arg, 'w) tick_state \<Rightarrow> ('cb, 'arg, 'w) tick_state \<times> bool" where
  "run_prog (Return w) st = (st\<lparr>world := w\<rparr>, False)"
| "run_prog (Throw w) st = (st\<lparr>world := w\<rparr>, True)"
| "run_prog (CallNextTick cb as k) st =
     (case nextTick cb as st of Inl _ \<Rightarrow> run_prog (k True) st | Inr st' \<Rightarrow> run_prog (k False) st')"

type_synonym ('cb, 'arg, 'w) user_code = "'cb \<Rightarrow> 'arg list \<Rightarrow> 'w \<Rightarrow> ('cb, 'arg, 'w) prog"

text \<open>\<^verbatim>\<open>while (tock = queue.shift())\<close>; \<^const>\<open>None\<close> when the fuel does not suffice. An
  exception of a callback leaves the loop.\<close>

fun drain_queue ::
  "('cb, 'arg, 'w) user_code \<Rightarrow> nat \<Rightarrow> ('cb, 'arg, 'w) tick_state \<Rightarrow> (('cb, 'arg, 'w) tick_state \<times> bool) option" where
  "drain_queue user 0 st = None"
| "drain_queue user (Suc n) st =
     (case fq_shift (queue st) of
        (None, q) \<Rightarrow> Some (st\<lparr>queue := q\<rparr>, False)
      | (Some tock, q) \<Rightarrow>
          (case run_prog (user (callback tock) (tock_call tock) (world st)) (st\<lparr>queue := q\<rparr>) of
             (st', threw) \<Rightarrow> if threw then Some (st', True) else drain_queue user n st'))"

text \<open>\<^verbatim>\<open>core.runMicrotasks\<close> is user code too; errors in microtasks do not reach the caller.\<close>

definition runMicrotasks ::
  "('w \<Rightarrow> ('cb, 'arg, 'w) prog) \<Rightarrow> ('cb, 'arg, 'w) tick_state \<Rightarrow> ('cb, 'arg, 'w) tick_state" where
  "runMicrotasks micro st = fst (run_prog (micro (world st)) st)"

fun processTicksAndRejections ::
  "('cb, 'arg, 'w) user_code \<Rightarrow> ('w \<Rightarrow> ('cb, 'arg, 'w) prog) \<Rightarrow> nat \<Rightarrow> ('cb, 'arg, 'w) tick_state
     \<Rightarrow> (('cb, 'arg, 'w) tick_state \<times> bool) option" where
  "processTicksAndRejections user micro 0 st = None"
| "processTicksAndRejections user micro (Suc n) st =
     (case drain_queue user n st of
        None \<Rightarrow> None
      | Some (st1, True) \<Rightarrow> Some (st1, True)
      | Some (st1, False) \<Rightarrow>
          (let st2 = runMicrotasks micro st1
           in if \<not> fq_isEmpty (queue st2) then processTicksAndRejections user micro n st2
              else Some (st2\<lparr>hasTickScheduled := False\<rparr>, False)))"

definition runNextTicks ::
  "('cb, 'arg, 'w) user_code \<Rightarrow> ('w \<Rightarrow> ('cb, 'arg, 'w) prog) \<Rightarrow> nat \<Rightarrow> ('cb, 'arg, 'w) tick_state
     \<Rightarrow> (('cb, 'arg, 'w) tick_state \<times> bool) option" where
  "runNextTicks user micro n st =
     (if \<not> hasTickScheduled st then Some (runMicrotasks micro st, False)
      else processTicksAndRejections user micro n st)"

subsection \<open>The abstract scheduler\<close>

text \<open>
  What a run of user code amounts to: the list of callbacks it schedules, the world it leaves and whether it throws.
  The pending callbacks are a list.
\<close>

primrec prog_out ::
  "bool \<Rightarrow> bool \<Rightarrow> ('cb, 'arg, 'w) prog \<Rightarrow> ('cb, 'arg) Tock list \<times> 'w \<times> bool" where
  "prog_out en ex (Return w) = ([], w, False)"
| "prog_out en ex (Throw w) = ([], w, True)"
| "prog_out en ex (CallNextTick cb as k) =
     (if \<not> en then prog_out en ex (k False)
      else case cb of NotFn _ \<Rightarrow> prog_out en ex (k True)
        | Fn f \<Rightarrow> if ex then prog_out en ex (k False)
                  else let (ts, r) = prog_out en ex (k False)
                       in (\<lparr>callback = f, args = (if as = [] then None else Some as)\<rparr> # ts, r))"

definition tock_out ::
  "('cb, 'arg, 'w) user_code \<Rightarrow> bool \<Rightarrow> bool \<Rightarrow> ('cb, 'arg) Tock \<Rightarrow> 'w \<Rightarrow> ('cb, 'arg) Tock list \<times> 'w \<times> bool" where
  "tock_out user en ex t w =
     prog_out en ex (user (callback t) (case args t of None \<Rightarrow> [] | Some as \<Rightarrow> as) w)"

fun spec_drain ::
  "('cb, 'arg, 'w) user_code \<Rightarrow> bool \<Rightarrow> bool \<Rightarrow> nat \<Rightarrow> ('cb, 'arg) Tock list \<Rightarrow> 'w
     \<Rightarrow> (('cb, 'arg) Tock list \<times> 'w \<times> bool) option" where
  "spec_drain user en ex 0 ts w = None"
| "spec_drain user en ex (Suc n) [] w = Some ([], w, False)"
| "spec_drain user en ex (Suc n) (t # ts) w =
     (let (new, w', threw) = tock_out user en ex t w
      in if threw then Some (ts @ new, w', True) else spec_drain user en ex n (ts @ new) w')"

fun spec_process ::
  "('cb, 'arg, 'w) user_code \<Rightarrow> ('w \<Rightarrow> ('cb, 'arg, 'w) prog) \<Rightarrow> bool \<Rightarrow> bool \<Rightarrow> nat \<Rightarrow> ('cb, 'arg) Tock list \<Rightarrow> 'w
     \<Rightarrow> (('cb, 'arg) Tock list \<times> 'w \<times> bool) option" where
  "spec_process user micro en ex 0 ts w = None"
| "spec_process user micro en ex (Suc n) ts w =
     (case spec_drain user en ex n ts w of
        None \<Rightarrow> None
      | Some (ts', w', True) \<Rightarrow> Some (ts', w', True)
      | Some (ts', w', False) \<Rightarrow>
          (let (new, w'', _) = prog_out en ex (micro w')
           in if ts' @ new = [] then Some ([], w'', False) else spec_process user micro en ex n (ts' @ new) w''))"

subsection \<open>The implementation follows the scheduler\<close>

lemma copy_args_eq: "copy_args as = (if as = [] then None else Some as)"
proof -
  have "map (\<lambda>i. as ! i) [0..<length as] = as" by (rule map_nth)
  moreover have "length as = Suc 0 \<Longrightarrow> as = [as ! 0]" by (cases as) auto
  moreover have "length as = 2 \<Longrightarrow> as = [as ! 0, as ! 1]" by (cases as; cases "tl as") auto
  moreover have "length as = 3 \<Longrightarrow> as = [as ! 0, as ! 1, as ! 2]"
    by (cases as; cases "tl as"; cases "tl (tl as)") (auto simp: numeral_2_eq_2)
  ultimately show ?thesis by (auto simp: copy_args_def)
qed

lemma tock_call_eq: "tock_call t = (case args t of None \<Rightarrow> [] | Some as \<Rightarrow> as)"
proof (cases "args t")
  case (Some as)
  have "length as = Suc 0 \<Longrightarrow> as = [as ! 0]" by (cases as) auto
  moreover have "length as = 2 \<Longrightarrow> as = [as ! 0, as ! 1]" by (cases as; cases "tl as") auto
  moreover have "length as = 3 \<Longrightarrow> as = [as ! 0, as ! 1, as ! 2]"
    by (cases as; cases "tl as"; cases "tl (tl as)") (auto simp: numeral_2_eq_2)
  moreover have "length as = 4 \<Longrightarrow> as = [as ! 0, as ! 1, as ! 2, as ! 3]"
    by (cases as; cases "tl as"; cases "tl (tl as)"; cases "tl (tl (tl as))") (auto simp: numeral_2_eq_2 numeral_3_eq_3)
  ultimately show ?thesis by (auto simp: tock_call_def Some)
qed (simp add: tock_call_def)

text \<open>The pending callbacks of a state; while there are any, a tick is scheduled with the engine.\<close>

definition tick_rep :: "('cb, 'arg, 'w) tick_state \<Rightarrow> ('cb, 'arg) Tock list \<Rightarrow> bool" where
  "tick_rep st ts \<longleftrightarrow> fq_rep (queue st) ts \<and> (ts \<noteq> [] \<longrightarrow> hasTickScheduled st)"

definition same_mode :: "('cb, 'arg, 'w) tick_state \<Rightarrow> ('cb, 'arg, 'w) tick_state \<Rightarrow> bool" where
  "same_mode st st' \<longleftrightarrow> nextTickEnabled st' = nextTickEnabled st \<and> exiting st' = exiting st"

lemma nextTick_rep:
  assumes "tick_rep st ts" "nextTickEnabled st" "\<not> exiting st"
  shows "\<exists>st'. nextTick (Fn f) as st = Inr st' \<and> same_mode st st' \<and> world st' = world st \<and>
    tick_rep st' (ts @ [\<lparr>callback = f, args = (if as = [] then None else Some as)\<rparr>])"
  using assms fq.rep_push [of "queue st" ts] fq.rep_isEmpty [of "queue st" ts]
  by (auto simp: nextTick_def validateFunction_def tick_rep_def same_mode_def copy_args_eq Let_def)

lemma run_prog_rep:
  assumes "tick_rep st ts" "prog_out (nextTickEnabled st) (exiting st) p = (new, w, threw)"
  shows "\<exists>st'. run_prog p st = (st', threw) \<and> tick_rep st' (ts @ new) \<and> world st' = w \<and> same_mode st st'"
  using assms
proof (induction p arbitrary: st ts new)
  case (CallNextTick cb as k)
  show ?case
  proof (cases "nextTickEnabled st \<and> (\<exists>f. cb = Fn f) \<and> \<not> exiting st")
    case True
    then obtain f where f: "cb = Fn f" by blast
    let ?t = "\<lparr>callback = f, args = (if as = [] then None else Some as)\<rparr>"
    obtain ts' where ts': "prog_out (nextTickEnabled st) (exiting st) (k False) = (ts', w, threw)" "new = ?t # ts'"
      using CallNextTick.prems(2) True f by (cases "prog_out (nextTickEnabled st) (exiting st) (k False)") auto
    obtain st' where st': "nextTick (Fn f) as st = Inr st'" "same_mode st st'" "tick_rep st' (ts @ [?t])"
      using nextTick_rep [OF CallNextTick.prems(1)] True by blast
    then show ?thesis
      using CallNextTick.IH [of "k False" st' "ts @ [?t]" ts'] ts' f by (auto simp: same_mode_def)
  next
    case False
    define threw1 where "threw1 = (nextTickEnabled st \<and> (\<forall>f. cb \<noteq> Fn f))"
    have "prog_out (nextTickEnabled st) (exiting st) (k threw1) = (new, w, threw)"
      using CallNextTick.prems(2) False
      by (cases cb; cases "nextTickEnabled st"; cases "exiting st") (auto simp: threw1_def)
    moreover have "run_prog (CallNextTick cb as k) st = run_prog (k threw1) st"
      using False by (cases cb) (auto simp: threw1_def nextTick_def validateFunction_def)
    ultimately show ?thesis using CallNextTick.IH [of "k threw1" st ts new] CallNextTick.prems(1) by auto
  qed
qed (auto simp: tick_rep_def same_mode_def)

lemma drain_rep:
  assumes "tick_rep st ts"
  shows "case spec_drain user (nextTickEnabled st) (exiting st) n ts (world st) of
      None \<Rightarrow> drain_queue user n st = None
    | Some (ts', w', threw) \<Rightarrow> \<exists>st'. drain_queue user n st = Some (st', threw) \<and> tick_rep st' ts' \<and>
        world st' = w' \<and> same_mode st st'"
  using assms
proof (induction n arbitrary: st ts)
  case (Suc n)
  have rep: "fq_rep (queue st) ts" using Suc.prems by (simp add: tick_rep_def)
  show ?case
  proof (cases ts)
    case Nil
    then show ?thesis using fq.rep_shift_Nil [of "queue st"] rep
      by (cases "fq_shift (queue st)") (auto simp: tick_rep_def same_mode_def)
  next
    case (Cons t ts1)
    then obtain q where q: "fq_shift (queue st) = (Some t, q)" "fq_rep q ts1"
      using fq.rep_shift_Cons [of "queue st" t ts1] rep by (cases "fq_shift (queue st)") auto
    let ?st = "st\<lparr>queue := q\<rparr>"
    obtain new w' threw where out: "tock_out user (nextTickEnabled st) (exiting st) t (world st) = (new, w', threw)"
      by (cases "tock_out user (nextTickEnabled st) (exiting st) t (world st)")
    have "tick_rep ?st ts1" using q Suc.prems Cons by (auto simp: tick_rep_def)
    then obtain st' where st': "run_prog (user (callback t) (tock_call t) (world st)) ?st = (st', threw)"
        "tick_rep st' (ts1 @ new)" "world st' = w'" "same_mode st st'"
      using run_prog_rep [of ?st ts1 _ new w' threw] out by (auto simp: tock_out_def tock_call_eq same_mode_def)
    show ?thesis
    proof (cases threw)
      case True
      then show ?thesis using st' q out Cons by simp
    next
      case False
      have "same_mode st x" if "same_mode st' x" for x using that st'(4) by (simp add: same_mode_def)
      then show ?thesis
        using Suc.IH [OF st'(2)] st' q out Cons False
        by (auto simp: same_mode_def split: option.splits prod.splits)
    qed
  qed
qed simp

lemma process_rep:
  assumes "tick_rep st ts"
  shows "case spec_process user micro (nextTickEnabled st) (exiting st) n ts (world st) of
      None \<Rightarrow> processTicksAndRejections user micro n st = None
    | Some (ts', w', threw) \<Rightarrow> \<exists>st'. processTicksAndRejections user micro n st = Some (st', threw) \<and>
        tick_rep st' ts' \<and> world st' = w' \<and> same_mode st st' \<and> (\<not> threw \<longrightarrow> \<not> hasTickScheduled st')"
  using assms
proof (induction n arbitrary: st ts)
  case (Suc n)
  note d = drain_rep [OF Suc.prems, of user n]
  show ?case
  proof (cases "spec_drain user (nextTickEnabled st) (exiting st) n ts (world st)")
    case None
    then show ?thesis using d by simp
  next
    case (Some r)
    obtain ts' w' threw where r: "r = (ts', w', threw)" by (cases r)
    then obtain st' where st': "drain_queue user n st = Some (st', threw)" "tick_rep st' ts'" "world st' = w'" "same_mode st st'"
      using d Some by auto
    show ?thesis
    proof (cases threw)
      case True
      then show ?thesis using st' Some r by simp
    next
      case False
      obtain new w'' t where out: "prog_out (nextTickEnabled st) (exiting st) (micro w') = (new, w'', t)"
        by (cases "prog_out (nextTickEnabled st) (exiting st) (micro w')")
      obtain st2 where st2: "run_prog (micro w') st' = (st2, t)" "tick_rep st2 (ts' @ new)" "world st2 = w''" "same_mode st st2"
        using run_prog_rep [OF st'(2), of "micro w'" new w'' t] out st'(4) by (auto simp: same_mode_def)
      have e: "fq_isEmpty (queue st2) \<longleftrightarrow> ts' @ new = []" using st2(2) fq.rep_isEmpty by (auto simp: tick_rep_def)
      have m: "same_mode st x" if "same_mode st2 x" for x using that st2(4) by (simp add: same_mode_def)
      show ?thesis
      proof (cases "ts' @ new = []")
        case True
        then show ?thesis
          using st' st2 Some r False out e by (simp add: runMicrotasks_def) (simp add: tick_rep_def same_mode_def)
      next
        case ne: False
        have "spec_process user micro (nextTickEnabled st) (exiting st) (Suc n) ts (world st) =
            spec_process user micro (nextTickEnabled st2) (exiting st2) n (ts' @ new) (world st2)"
          using Some r False out ne st2(3,4) by (auto simp: same_mode_def)
        moreover have "processTicksAndRejections user micro (Suc n) st = processTicksAndRejections user micro n st2"
          using st' st2(1) False ne e by (simp add: runMicrotasks_def)
        ultimately show ?thesis using Suc.IH [OF st2(2)] m by (fastforce split: option.splits)
      qed
    qed
  qed
qed simp

text \<open>The work that the pending callbacks stand for, when each of them schedules less than it stands for itself.\<close>

definition work :: "(('cb, 'arg) Tock \<Rightarrow> nat) \<Rightarrow> ('cb, 'arg) Tock list \<Rightarrow> nat" where
  "work cost ts = sum_list (map (\<lambda>t. Suc (cost t)) ts)"

lemma work_append [simp]: "work cost (ts @ us) = work cost ts + work cost us"
  by (simp add: work_def)

lemma spec_drain_terminates:
  assumes "\<And>t w. work cost (fst (tock_out user en ex t w)) \<le> cost t" "work cost ts < n"
  shows "\<exists>r. spec_drain user en ex n ts w = Some r \<and> (\<not> snd (snd r) \<longrightarrow> fst r = [])"
  using assms(2)
proof (induction n arbitrary: ts w)
  case (Suc n)
  show ?case
  proof (cases ts)
    case (Cons t us)
    obtain new w' threw where out: "tock_out user en ex t w = (new, w', threw)" by (cases "tock_out user en ex t w")
    have "work cost (us @ new) < n" using Suc.prems Cons assms(1) [of t w] out by (simp add: work_def)
    from Suc.IH [OF this, of w'] show ?thesis using Cons out by (cases threw) simp_all
  qed simp
qed simp

lemma spec_process_terminates:
  assumes "\<And>t w. work cost (fst (tock_out user en ex t w)) \<le> cost t" "\<And>w. fst (prog_out en ex (micro w)) = []"
    and "Suc (work cost ts) < n"
  shows "\<exists>r. spec_process user micro en ex n ts w = Some r \<and> (\<not> snd (snd r) \<longrightarrow> fst r = [])"
proof -
  obtain k where n: "n = Suc k" "work cost ts < k" using assms(3) by (cases n) auto
  obtain ts' w' threw where d: "spec_drain user en ex k ts w = Some (ts', w', threw)" "\<not> threw \<longrightarrow> ts' = []"
    using spec_drain_terminates [OF assms(1) n(2), of w] by auto
  obtain w'' t where "prog_out en ex (micro w') = ([], w'', t)"
    using assms(2) [of w'] by (cases "prog_out en ex (micro w')") auto
  then show ?thesis using d n(1) by (cases threw) auto
qed

subsection \<open>Reachable states\<close>

text \<open>The states of the module: it is enabled once, user code runs, the engine runs the ticks.\<close>

inductive tick_reachable ::
  "('cb, 'arg, 'w) user_code \<Rightarrow> ('w \<Rightarrow> ('cb, 'arg, 'w) prog) \<Rightarrow> ('cb, 'arg, 'w) tick_state \<Rightarrow> bool"
  for user micro where
  init: "tick_reachable user micro (initial_ticks w)"
| enable: "tick_reachable user micro st \<Longrightarrow> tick_reachable user micro (enableNextTick st)"
| exiting: "tick_reachable user micro st \<Longrightarrow> tick_reachable user micro (st\<lparr>exiting := True\<rparr>)"
| code: "tick_reachable user micro st \<Longrightarrow> run_prog p st = (st', threw) \<Longrightarrow> tick_reachable user micro st'"
| ticks: "tick_reachable user micro st \<Longrightarrow> processTicksAndRejections user micro n st = Some (st', threw) \<Longrightarrow>
    tick_reachable user micro st'"
| next_ticks: "tick_reachable user micro st \<Longrightarrow> runNextTicks user micro n st = Some (st', threw) \<Longrightarrow>
    tick_reachable user micro st'"

lemma run_prog_keeps: "tick_rep st ts \<Longrightarrow> run_prog p st = (st', threw) \<Longrightarrow> \<exists>ts'. tick_rep st' ts'"
  using run_prog_rep [of st ts p] by (cases "prog_out (nextTickEnabled st) (exiting st) p") fastforce

lemma process_keeps:
  "tick_rep st ts \<Longrightarrow> processTicksAndRejections user micro n st = Some (st', threw) \<Longrightarrow> \<exists>ts'. tick_rep st' ts'"
  using process_rep [of st ts user micro n] by (auto split: option.splits)

lemma reachable_rep: "tick_reachable user micro st \<Longrightarrow> \<exists>ts. tick_rep st ts"
proof (induction rule: tick_reachable.induct)
  case (init w)
  have "tick_rep (initial_ticks w) []" by (simp add: tick_rep_def initial_ticks_def fq.rep_empty)
  then show ?case ..
next
  case (enable st)
  then show ?case by (simp add: tick_rep_def enableNextTick_def)
next
  case (exiting st)
  then show ?case by (simp add: tick_rep_def)
next
  case (code st p st' threw)
  then show ?case using run_prog_keeps by blast
next
  case (ticks st n st' threw)
  then show ?case using process_keeps by blast
next
  case (next_ticks st n st' threw)
  then show ?case
    using process_keeps run_prog_keeps [of st _ "micro (world st)" st' "snd (run_prog (micro (world st)) st)"]
    by (auto simp: runNextTicks_def runMicrotasks_def split: if_splits)
qed

subsection \<open>Properties\<close>

text \<open>C6. \<^verbatim>\<open>processTicksAndRejections\<close> on the circular buffers does what the abstract scheduler does on a list:
  for every number of steps it needs more of them, throws or ends exactly when the scheduler does, and with the same
  effect on the world. So callbacks run in the order in which they were scheduled, each with the arguments given to
  \<^verbatim>\<open>nextTick\<close>, those scheduled by a callback after all the pending ones.\<close>

theorem process_ticks_refines:
  assumes "fq_rep (queue st) ts" "ts \<noteq> [] \<Longrightarrow> hasTickScheduled st"
  shows "map_option (\<lambda>(st', threw). (world st', threw)) (processTicksAndRejections user micro n st) =
    map_option (\<lambda>(ts', w', threw). (w', threw))
      (spec_process user micro (nextTickEnabled st) (exiting st) n ts (world st))"
proof -
  have "tick_rep st ts" using assms by (simp add: tick_rep_def)
  from process_rep [OF this, of user micro n] show ?thesis by (auto split: option.splits)
qed

theorem process_ticks_refines_witness:
  "map_option (\<lambda>(st', threw). (world st', threw))
     (processTicksAndRejections (\<lambda>cb as w. Return (w @ as)) (\<lambda>w. Return w) 4
        (initial_ticks [] \<lparr>queue := fq_push (Some \<lparr>callback = (), args = Some [7::nat]\<rparr>) new_queue,
           hasTickScheduled := True\<rparr>)) = Some ([7], False)"
proof -
  let ?t = "\<lparr>callback = (), args = Some [7::nat]\<rparr>"
  let ?st = "initial_ticks ([] :: nat list) \<lparr>queue := fq_push (Some ?t) new_queue, hasTickScheduled := True\<rparr>"
  have "fq_rep (queue ?st) [?t]" using fq.rep_push [OF fq.rep_empty, of ?t] by simp
  then have "map_option (\<lambda>(st', threw). (world st', threw))
      (processTicksAndRejections (\<lambda>cb as w. Return (w @ as)) (\<lambda>w. Return w) 4 ?st) =
    map_option (\<lambda>(ts', w', threw). (w', threw))
      (spec_process (\<lambda>cb as w. Return (w @ as)) (\<lambda>w. Return w) (nextTickEnabled ?st) (exiting ?st) 4 [?t] (world ?st))"
    by (rule process_ticks_refines) simp
  also have "\<dots> = Some ([7], False)" by (simp add: eval_nat_numeral initial_ticks_def tock_out_def)
  finally show ?thesis .
qed

text \<open>C25. No tick is lost: in every reachable state, whatever user code has done and whether or not it threw, a
  pending callback comes with a tick scheduled with the engine.\<close>

theorem pending_tick_scheduled:
  assumes "tick_reachable user micro st"
  shows "fq_isEmpty (queue st) \<or> hasTickScheduled st"
proof -
  obtain ts where "tick_rep st ts" using reachable_rep [OF assms] ..
  then show ?thesis using fq.rep_isEmpty by (auto simp: tick_rep_def)
qed

theorem pending_tick_scheduled_witness:
  "let st = fst (run_prog (CallNextTick (Fn ()) [1::nat] (\<lambda>_. Throw ())) (enableNextTick (initial_ticks ())))
   in fq_isEmpty (queue st) \<or> hasTickScheduled st"
proof -
  let ?st = "enableNextTick (initial_ticks ()) :: (unit, nat, unit) tick_state"
  let ?p = "CallNextTick (Fn ()) [1::nat] (\<lambda>_. Throw ())"
  have "tick_reachable (\<lambda>cb as w. Throw w) Return ?st" by (intro tick_reachable.enable tick_reachable.init)
  moreover have "run_prog ?p ?st = (fst (run_prog ?p ?st), snd (run_prog ?p ?st))" by (rule prod.collapse [symmetric])
  ultimately have "tick_reachable (\<lambda>cb as w. Throw w) Return (fst (run_prog ?p ?st))" by (rule tick_reachable.code)
  then show ?thesis unfolding Let_def by (rule pending_tick_scheduled)
qed

text \<open>C17. When every callback schedules less work than it stands for itself and microtasks schedule none, the loop
  ends: with one step for each unit of work, and two more, it returns, and unless a callback threw, nothing is pending
  and no tick is scheduled any more.\<close>

theorem process_ticks_terminates:
  assumes "fq_rep (queue st) ts" "ts \<noteq> [] \<Longrightarrow> hasTickScheduled st"
    and "\<And>t w. work cost (fst (tock_out user (nextTickEnabled st) (exiting st) t w)) \<le> cost t"
    and "\<And>w. fst (prog_out (nextTickEnabled st) (exiting st) (micro w)) = []"
    and "work cost ts + 2 \<le> n"
  shows "\<exists>st' threw. processTicksAndRejections user micro n st = Some (st', threw) \<and>
    (threw \<or> fq_isEmpty (queue st') \<and> hasTickScheduled st' = False)"
proof -
  have rep: "tick_rep st ts" using assms(1,2) by (simp add: tick_rep_def)
  have "Suc (work cost ts) < n" using assms(5) by simp
  with assms(3,4) have "\<exists>r. spec_process user micro (nextTickEnabled st) (exiting st) n ts (world st) = Some r \<and>
      (\<not> snd (snd r) \<longrightarrow> fst r = [])"
    by (rule spec_process_terminates)
  then obtain ts' w' threw where
      "spec_process user micro (nextTickEnabled st) (exiting st) n ts (world st) = Some (ts', w', threw)"
      "threw \<or> ts' = []" by auto
  then show ?thesis using process_rep [OF rep, of user micro n] fq.rep_isEmpty by (auto simp: tick_rep_def)
qed

theorem process_ticks_terminates_witness:
  "\<exists>st' threw. processTicksAndRejections (\<lambda>cb as w. Return w) (\<lambda>w. Return w) 3
     (initial_ticks (0::nat) \<lparr>queue := fq_push (Some \<lparr>callback = (), args = Some [7::nat]\<rparr>) new_queue,
        hasTickScheduled := True\<rparr>) = Some (st', threw) \<and>
    (threw \<or> fq_isEmpty (queue st') \<and> hasTickScheduled st' = False)"
proof -
  let ?t = "\<lparr>callback = (), args = Some [7::nat]\<rparr>"
  have "fq_rep (fq_push (Some ?t) new_queue) [?t]" using fq.rep_push [OF fq.rep_empty, of ?t] by simp
  then show ?thesis
    by (intro process_ticks_terminates [where ts = "[?t]" and cost = "\<lambda>_. 0"]) (simp_all add: tock_out_def work_def)
qed

end
