(* ===== verification/Js_Number.thy ===== *)
theory Js_Number
  imports Prelude Complex_Main "HOL-Library.Word"
begin

unbundle bit_operations_syntax

text \<open>
  The numbers of JavaScript as the buffer code uses them: finite numbers are rationals, and the
  sign of zero is not kept because no operation below observes it. Integer arithmetic in the
  sources stays below \<open>2 ^ 53\<close> and is therefore exact. The bitwise operators convert their
  operands to 32 bits, which is written out with words of that length. A \<^verbatim>\<open>Uint8Array\<close> is
  the list of its bytes.
\<close>

subsection \<open>Values\<close>

datatype js_num = Fin rat | NaN | PosInf | NegInf

text \<open>The two numeric types, which the comparison operators accept side by side.\<close>

datatype js_numeric = Number js_num | BigInt int

text \<open>
  An argument of unknown type. A string comes with the number it converts to. Symbols, functions and
  objects are seen only through their type and through what the conversion \<^verbatim>\<open>+value\<close> gives,
  which may be an exception.
\<close>

datatype js_arg =
    ANum js_num
  | ABig int
  | AUndef
  | ANull
  | ABool bool
  | AStr js_string js_num
  | AOther js_typeof "js_num result"

abbreviation num_int :: "int \<Rightarrow> js_num" where "num_int i \<equiv> Fin (of_int i)"
abbreviation num_nat :: "nat \<Rightarrow> js_num" where "num_nat i \<equiv> Fin (of_nat i)"
abbreviation arg_nat :: "nat \<Rightarrow> js_arg" where "arg_nat i \<equiv> ANum (num_nat i)"
abbreviation arg_int :: "int \<Rightarrow> js_arg" where "arg_int i \<equiv> ANum (num_int i)"

text \<open>\<^verbatim>\<open>+value\<close>\<close>

fun to_number :: "js_arg \<Rightarrow> js_num result" where
  "to_number (ANum n) = Inr n"
| "to_number (ABig _) = Inl (TypeError ''Cannot convert a BigInt value to a number'')"
| "to_number AUndef = Inr NaN"
| "to_number ANull = Inr (num_int 0)"
| "to_number (ABool b) = Inr (num_int (of_bool b))"
| "to_number (AStr _ n) = Inr n"
| "to_number (AOther _ conv) = conv"

text \<open>A parameter with the default value 0.\<close>

definition default0 :: "js_arg \<Rightarrow> js_arg" where
  "default0 a = (if a = AUndef then arg_int 0 else a)"

subsection \<open>Arithmetic and comparison\<close>

fun num_add :: "js_num \<Rightarrow> int \<Rightarrow> js_num" where
  "num_add (Fin r) k = Fin (r + of_int k)"
| "num_add n k = n"

fun num_floor :: "js_num \<Rightarrow> js_num" where
  "num_floor (Fin r) = num_int \<lfloor>r\<rfloor>"
| "num_floor n = n"

text \<open>\<^verbatim>\<open>===\<close>, \<^verbatim>\<open><\<close>\<close>

definition num_eq :: "js_num \<Rightarrow> js_num \<Rightarrow> bool" where
  "num_eq a b \<longleftrightarrow> a = b \<and> a \<noteq> NaN"

fun num_less :: "js_num \<Rightarrow> js_num \<Rightarrow> bool" where
  "num_less (Fin a) (Fin b) \<longleftrightarrow> a < b"
| "num_less NaN _ \<longleftrightarrow> False"
| "num_less _ NaN \<longleftrightarrow> False"
| "num_less NegInf b \<longleftrightarrow> b \<noteq> NegInf"
| "num_less PosInf _ \<longleftrightarrow> False"
| "num_less (Fin _) b \<longleftrightarrow> b = PosInf"

fun numeric_num :: "js_numeric \<Rightarrow> js_num" where
  "numeric_num (Number n) = n"
| "numeric_num (BigInt i) = num_int i"

definition numeric_less :: "js_numeric \<Rightarrow> js_numeric \<Rightarrow> bool" where
  "numeric_less a b \<longleftrightarrow> num_less (numeric_num a) (numeric_num b)"

text \<open>
  \<^verbatim>\<open>Math.floor(value * 2 ** -32)\<close>. The product is exact unless it is too small for a double and
  becomes zero, which decides the floor of a negative value.
\<close>

fun floor_shift32 :: "js_num \<Rightarrow> js_num" where
  "floor_shift32 (Fin r) =
     (if \<bar>r\<bar> < 1 \<and> \<bar>r\<bar> * 2 ^ 1043 \<le> 1 then num_int 0 else num_int \<lfloor>r / 2 ^ 32\<rfloor>)"
| "floor_shift32 n = n"

subsection \<open>Conversions to machine integers\<close>

fun num_trunc :: "js_num \<Rightarrow> int" where
  "num_trunc (Fin r) = (if r < 0 then \<lceil>r\<rceil> else \<lfloor>r\<rfloor>)"
| "num_trunc n = 0"

definition to_int32 :: "int \<Rightarrow> int" where
  "to_int32 i = sint (word_of_int i :: 32 word)"

definition to_uint32 :: "int \<Rightarrow> int" where
  "to_uint32 i = uint (word_of_int i :: 32 word)"

text \<open>\<^verbatim>\<open>n >>> k\<close> on a number; \<^verbatim>\<open>a >> k\<close>, \<^verbatim>\<open>a << k\<close>, \<^verbatim>\<open>a | b\<close> and
  \<^verbatim>\<open>a & b\<close> on integers.\<close>

definition num_ushr :: "js_num \<Rightarrow> nat \<Rightarrow> js_num" where
  "num_ushr n k = num_int (drop_bit k (to_uint32 (num_trunc n)))"

definition int_sshr :: "int \<Rightarrow> nat \<Rightarrow> int" where
  "int_sshr a k = drop_bit k (to_int32 a)"

definition int_shl :: "int \<Rightarrow> nat \<Rightarrow> int" where
  "int_shl a k = to_int32 (push_bit k a)"

definition int_or :: "int \<Rightarrow> int \<Rightarrow> int" where
  "int_or a b = to_int32 a OR to_int32 b"

definition int_and :: "int \<Rightarrow> int \<Rightarrow> int" where
  "int_and a b = to_int32 a AND to_int32 b"

subsection \<open>Decimal notation\<close>

fun show_nat :: "nat \<Rightarrow> js_string" where
  "show_nat n = (if n < 10 then [48 + n] else show_nat (n div 10) @ [48 + n mod 10])"

declare show_nat.simps [simp del]

definition show_int :: "int \<Rightarrow> js_string" where
  "show_int i = (if i < 0 then js ''-'' @ show_nat (nat (- i)) else show_nat (nat i))"

text \<open>A number in a template string; the sources print integers there.\<close>

fun show_numeric :: "js_numeric \<Rightarrow> js_string" where
  "show_numeric (Number (Fin r)) = show_int \<lfloor>r\<rfloor>"
| "show_numeric (Number NaN) = js ''NaN''"
| "show_numeric (Number PosInf) = js ''Infinity''"
| "show_numeric (Number NegInf) = js ''-Infinity''"
| "show_numeric (BigInt i) = show_int i"

subsection \<open>Uint8Array\<close>

type_synonym bytes = "8 word list"

text \<open>The longest buffer that can be allocated.\<close>

definition kMaxLength :: nat where "kMaxLength = 2147483647"

text \<open>The index a number denotes, if any; reads elsewhere give \<^verbatim>\<open>undefined\<close> and writes are
  ignored.\<close>

definition index_of :: "'a list \<Rightarrow> js_num \<Rightarrow> nat option" where
  "index_of buf n =
     (case n of Fin r \<Rightarrow>
        if of_int \<lfloor>r\<rfloor> = r \<and> 0 \<le> r \<and> nat \<lfloor>r\<rfloor> < length buf then Some (nat \<lfloor>r\<rfloor>) else None
      | _ \<Rightarrow> None)"

definition js_get :: "bytes \<Rightarrow> js_num \<Rightarrow> int option" where
  "js_get buf n = map_option (\<lambda>i. uint (buf ! i)) (index_of buf n)"

definition js_set :: "bytes \<Rightarrow> js_num \<Rightarrow> js_num \<Rightarrow> bytes" where
  "js_set buf n v =
     (case index_of buf n of Some i \<Rightarrow> buf[i := word_of_int (num_trunc v)] | None \<Rightarrow> buf)"

subsection \<open>Facts\<close>

lemma index_of_int [simp]:
  "index_of buf (num_int i) = (if 0 \<le> i \<and> i < int (length buf) then Some (nat i) else None)"
  by (auto simp: index_of_def nat_less_iff)

lemma index_of_nat [simp]:
  "index_of buf (Fin (of_nat i)) = (if i < length buf then Some i else None)"
  using index_of_int [of buf "int i"] by (simp del: index_of_int)

lemma num_add_int [simp]: "num_add (num_int i) k = num_int (i + k)"
  by simp

lemma num_trunc_int [simp]: "num_trunc (num_int i) = i"
  by auto

lemma to_int32_id: "- (2 ^ 31) \<le> i \<Longrightarrow> i < 2 ^ 31 \<Longrightarrow> to_int32 i = i"
  by (simp add: to_int32_def signed_of_int signed_take_bit_int_eq_self)

lemma to_uint32_mod: "to_uint32 i = i mod 2 ^ 32"
  by (simp add: to_uint32_def unsigned_of_int take_bit_eq_mod)

lemma to_uint32_take_bit: "to_uint32 i = take_bit 32 i"
  by (simp add: to_uint32_mod take_bit_eq_mod)

lemma to_int32_signed: "to_int32 i = signed_take_bit 31 i"
  by (simp add: to_int32_def signed_of_int)

end
