(* ===== verification/Buffer_Int.thy ===== *)
theory Buffer_Int
  imports Js_Number
begin

unbundle bit_operations_syntax

text \<open>
  The integer accessors of \<^verbatim>\<open>internal/buffer.mjs\<close>: argument checks, the reads and writes of
  one to six bytes in both byte orders, and the 64 bit \<^verbatim>\<open>BigInt\<close> accessors. A read returns the
  integer or the exception; a write returns the new contents of the buffer together with the
  returned offset, and an exception is only ever thrown before the first byte is stored.
\<close>

subsection \<open>Argument checks\<close>

definition validateNumber :: "js_arg \<Rightarrow> string \<Rightarrow> js_num result" where
  "validateNumber value name =
     (case value of ANum n \<Rightarrow> Inr n | _ \<Rightarrow> Inl (ERR_INVALID_ARG_TYPE name))"

text \<open>
  \<^verbatim>\<open>boundsError(value, length, type)\<close> always throws; the result is the exception. The comparison
  \<^verbatim>\<open>Math.floor(value) !== value\<close> is true of every value that is not a number.
\<close>

definition boundsError :: "js_arg \<Rightarrow> int \<Rightarrow> string option \<Rightarrow> node_error" where
  "boundsError value len type =
     (let name = (case type of None \<Rightarrow> ''offset'' | Some t \<Rightarrow> t) in
      case to_number value of
        Inl e \<Rightarrow> e
      | Inr f \<Rightarrow>
          (case value of
             ANum n \<Rightarrow>
               if \<not> num_eq (num_floor f) n then ERR_OUT_OF_RANGE name (js ''an integer'')
               else if len < 0 then ERR_BUFFER_OUT_OF_BOUNDS
               else ERR_OUT_OF_RANGE name
                      (js ''>= '' @ (if type = None then js ''0'' else js ''1'')
                        @ js '' and <= '' @ show_int len)
           | _ \<Rightarrow> ERR_INVALID_ARG_TYPE
                    (case type of None \<Rightarrow> ''undefined'' | Some t \<Rightarrow> t)))"

definition checkBounds :: "bytes \<Rightarrow> js_arg \<Rightarrow> int \<Rightarrow> js_num result" where
  "checkBounds buf offset byteLength2 =
     bindE (validateNumber offset ''offset'') (\<lambda>n.
       if js_get buf n = None \<or> js_get buf (num_add n byteLength2) = None
       then Inl (boundsError offset (int (length buf) - (byteLength2 + 1)) None)
       else Inr n)"

fun bigint_suffix :: "js_numeric \<Rightarrow> js_string" where
  "bigint_suffix (BigInt _) = js ''n''"
| "bigint_suffix (Number _) = []"

definition is_zero :: "js_numeric \<Rightarrow> bool" where
  "is_zero v \<longleftrightarrow> v = Number (num_int 0) \<or> v = BigInt 0"

definition checkInt_range :: "js_numeric \<Rightarrow> js_numeric \<Rightarrow> int \<Rightarrow> js_string" where
  "checkInt_range vmin vmax byteLength =
     (let n = bigint_suffix vmin; bits = (byteLength + 1) * 8 in
      if byteLength > 3 then
        (if is_zero vmin then
           js ''>= 0'' @ n @ js '' and < 2'' @ n @ js '' ** '' @ show_int bits @ n
         else js ''>= -(2'' @ n @ js '' ** '' @ show_int (bits - 1) @ n @ js '') and ''
              @ js ''< 2'' @ n @ js '' ** '' @ show_int (bits - 1) @ n)
      else js ''>= '' @ show_numeric vmin @ n @ js '' and <= '' @ show_numeric vmax @ n)"

definition checkInt ::
  "js_numeric \<Rightarrow> js_numeric \<Rightarrow> js_numeric \<Rightarrow> bytes \<Rightarrow> js_arg \<Rightarrow> int \<Rightarrow> js_num result" where
  "checkInt value vmin vmax buf offset byteLength =
     (if numeric_less vmax value \<or> numeric_less value vmin
      then Inl (ERR_OUT_OF_RANGE ''value'' (checkInt_range vmin vmax byteLength))
      else checkBounds buf offset byteLength)"

definition checkIntBI_range :: "js_numeric \<Rightarrow> js_numeric \<Rightarrow> int \<Rightarrow> js_string" where
  "checkIntBI_range vmin vmax byteLength2 =
     (let n = bigint_suffix vmin; bits = (byteLength2 + 1) * 8 in
      if byteLength2 > 3 then
        (if is_zero vmin then
           js ''>= 0'' @ n @ js '' and < 2'' @ n @ js '' ** '' @ show_int bits @ n
         else js ''>= -(2'' @ n @ js '' ** '' @ show_int (bits - 1) @ n
              @ js '') and < 2 ** '' @ show_int (bits - 1) @ n)
      else js ''>= '' @ show_numeric vmin @ n @ js '' and <= '' @ show_numeric vmax @ n)"

definition checkIntBI ::
  "js_numeric \<Rightarrow> js_numeric \<Rightarrow> js_numeric \<Rightarrow> bytes \<Rightarrow> js_arg \<Rightarrow> int \<Rightarrow> js_num result" where
  "checkIntBI value vmin vmax buf offset byteLength2 =
     (if numeric_less vmax value \<or> numeric_less value vmin
      then Inl (ERR_OUT_OF_RANGE ''value'' (checkIntBI_range vmin vmax byteLength2))
      else checkBounds buf offset byteLength2)"

definition validateOffset :: "js_arg \<Rightarrow> string \<Rightarrow> int \<Rightarrow> int \<Rightarrow> int result" where
  "validateOffset value name vmin vmax =
     (case value of
        ANum n \<Rightarrow>
          (case n of
             Fin r \<Rightarrow>
               if of_int \<lfloor>r\<rfloor> \<noteq> r then Inl (ERR_OUT_OF_RANGE name (js ''an integer''))
               else if \<lfloor>r\<rfloor> < vmin \<or> \<lfloor>r\<rfloor> > vmax
               then Inl (ERR_OUT_OF_RANGE name
                      (js ''>= '' @ show_int vmin @ js '' && <= '' @ show_int vmax))
               else Inr \<lfloor>r\<rfloor>
           | _ \<Rightarrow> Inl (ERR_OUT_OF_RANGE name (js ''an integer'')))
      | _ \<Rightarrow> Inl (ERR_INVALID_ARG_TYPE name))"

subsection \<open>Reads\<close>

text \<open>
  Every read begins the same way: the offset defaults to 0 and must be a number, the first and the
  last byte are fetched, and \<^verbatim>\<open>boundsError\<close> is thrown when one of them is undefined. Otherwise
  the offset is an index of the buffer and so are all indices up to the last byte, which
  \<open>byte_at\<close> reads.
\<close>

definition byte_at :: "bytes \<Rightarrow> int \<Rightarrow> int" where
  "byte_at buf i = uint (buf ! nat i)"

definition read_ends ::
  "bytes \<Rightarrow> js_arg \<Rightarrow> int \<Rightarrow> (int \<Rightarrow> int \<Rightarrow> int \<Rightarrow> int) \<Rightarrow> int result" where
  "read_ends buf offset k f =
     bindE (validateNumber (default0 offset) ''offset'') (\<lambda>n.
       case (js_get buf n, js_get buf (num_add n k)) of
         (Some first, Some last') \<Rightarrow> Inr (f first last' (num_trunc n))
       | _ \<Rightarrow> Inl (boundsError (ANum n) (int (length buf) - (k + 1)) None))"

definition readUInt8 :: "bytes \<Rightarrow> js_arg \<Rightarrow> int result" where
  "readUInt8 buf offset =
     bindE (validateNumber (default0 offset) ''offset'') (\<lambda>n.
       case js_get buf n of
         Some val \<Rightarrow> Inr val
       | None \<Rightarrow> Inl (boundsError (ANum n) (int (length buf) - 1) None))"

definition readUInt16LE :: "bytes \<Rightarrow> js_arg \<Rightarrow> int result" where
  "readUInt16LE buf offset = read_ends buf offset 1 (\<lambda>first last' i.
     first + last' * 2 ^ 8)"

definition readUInt24LE :: "bytes \<Rightarrow> js_arg \<Rightarrow> int result" where
  "readUInt24LE buf offset = read_ends buf offset 2 (\<lambda>first last' i.
     first + byte_at buf (i + 1) * 2 ^ 8 + last' * 2 ^ 16)"

definition readUInt32LE :: "bytes \<Rightarrow> js_arg \<Rightarrow> int result" where
  "readUInt32LE buf offset = read_ends buf offset 3 (\<lambda>first last' i.
     first + byte_at buf (i + 1) * 2 ^ 8 + byte_at buf (i + 2) * 2 ^ 16 + last' * 2 ^ 24)"

definition readUInt40LE :: "bytes \<Rightarrow> js_arg \<Rightarrow> int result" where
  "readUInt40LE buf offset = read_ends buf offset 4 (\<lambda>first last' i.
     first + byte_at buf (i + 1) * 2 ^ 8 + byte_at buf (i + 2) * 2 ^ 16
     + byte_at buf (i + 3) * 2 ^ 24 + last' * 2 ^ 32)"

definition readUInt48LE :: "bytes \<Rightarrow> js_arg \<Rightarrow> int result" where
  "readUInt48LE buf offset = read_ends buf offset 5 (\<lambda>first last' i.
     first + byte_at buf (i + 1) * 2 ^ 8 + byte_at buf (i + 2) * 2 ^ 16
     + byte_at buf (i + 3) * 2 ^ 24 + (byte_at buf (i + 4) + last' * 2 ^ 8) * 2 ^ 32)"

definition readUInt16BE :: "bytes \<Rightarrow> js_arg \<Rightarrow> int result" where
  "readUInt16BE buf offset = read_ends buf offset 1 (\<lambda>first last' i.
     first * 2 ^ 8 + last')"

definition readUInt24BE :: "bytes \<Rightarrow> js_arg \<Rightarrow> int result" where
  "readUInt24BE buf offset = read_ends buf offset 2 (\<lambda>first last' i.
     first * 2 ^ 16 + byte_at buf (i + 1) * 2 ^ 8 + last')"

definition readUInt32BE :: "bytes \<Rightarrow> js_arg \<Rightarrow> int result" where
  "readUInt32BE buf offset = read_ends buf offset 3 (\<lambda>first last' i.
     first * 2 ^ 24 + byte_at buf (i + 1) * 2 ^ 16 + byte_at buf (i + 2) * 2 ^ 8 + last')"

definition readUInt40BE :: "bytes \<Rightarrow> js_arg \<Rightarrow> int result" where
  "readUInt40BE buf offset = read_ends buf offset 4 (\<lambda>first last' i.
     first * 2 ^ 32 + byte_at buf (i + 1) * 2 ^ 24 + byte_at buf (i + 2) * 2 ^ 16
     + byte_at buf (i + 3) * 2 ^ 8 + last')"

definition readUInt48BE :: "bytes \<Rightarrow> js_arg \<Rightarrow> int result" where
  "readUInt48BE buf offset = read_ends buf offset 5 (\<lambda>first last' i.
     (first * 2 ^ 8 + byte_at buf (i + 1)) * 2 ^ 32 + byte_at buf (i + 2) * 2 ^ 24
     + byte_at buf (i + 3) * 2 ^ 16 + byte_at buf (i + 4) * 2 ^ 8 + last')"

text \<open>The signed reads extend the sign bit with 32 bit operators.\<close>

definition readInt8 :: "bytes \<Rightarrow> js_arg \<Rightarrow> int result" where
  "readInt8 buf offset =
     bindE (validateNumber (default0 offset) ''offset'') (\<lambda>n.
       case js_get buf n of
         Some val \<Rightarrow> Inr (int_or val (int_and val (2 ^ 7) * 0x1fffffe))
       | None \<Rightarrow> Inl (boundsError (ANum n) (int (length buf) - 1) None))"

definition readInt16LE :: "bytes \<Rightarrow> js_arg \<Rightarrow> int result" where
  "readInt16LE buf offset = read_ends buf offset 1 (\<lambda>first last' i.
     let val = first + last' * 2 ^ 8 in int_or val (int_and val (2 ^ 15) * 0x1fffe))"

definition readInt16BE :: "bytes \<Rightarrow> js_arg \<Rightarrow> int result" where
  "readInt16BE buf offset = read_ends buf offset 1 (\<lambda>first last' i.
     let val = first * 2 ^ 8 + last' in int_or val (int_and val (2 ^ 15) * 0x1fffe))"

definition readInt24LE :: "bytes \<Rightarrow> js_arg \<Rightarrow> int result" where
  "readInt24LE buf offset = read_ends buf offset 2 (\<lambda>first last' i.
     let val = first + byte_at buf (i + 1) * 2 ^ 8 + last' * 2 ^ 16
     in int_or val (int_and val (2 ^ 23) * 0x1fe))"

definition readInt24BE :: "bytes \<Rightarrow> js_arg \<Rightarrow> int result" where
  "readInt24BE buf offset = read_ends buf offset 2 (\<lambda>first last' i.
     let val = first * 2 ^ 16 + byte_at buf (i + 1) * 2 ^ 8 + last'
     in int_or val (int_and val (2 ^ 23) * 0x1fe))"

definition readInt32LE :: "bytes \<Rightarrow> js_arg \<Rightarrow> int result" where
  "readInt32LE buf offset = read_ends buf offset 3 (\<lambda>first last' i.
     first + byte_at buf (i + 1) * 2 ^ 8 + byte_at buf (i + 2) * 2 ^ 16 + int_shl last' 24)"

definition readInt32BE :: "bytes \<Rightarrow> js_arg \<Rightarrow> int result" where
  "readInt32BE buf offset = read_ends buf offset 3 (\<lambda>first last' i.
     int_shl first 24 + byte_at buf (i + 1) * 2 ^ 16 + byte_at buf (i + 2) * 2 ^ 8 + last')"

definition readInt40LE :: "bytes \<Rightarrow> js_arg \<Rightarrow> int result" where
  "readInt40LE buf offset = read_ends buf offset 4 (\<lambda>first last' i.
     int_or last' (int_and last' (2 ^ 7) * 0x1fffffe) * 2 ^ 32 + first
     + byte_at buf (i + 1) * 2 ^ 8 + byte_at buf (i + 2) * 2 ^ 16 + byte_at buf (i + 3) * 2 ^ 24)"

definition readInt40BE :: "bytes \<Rightarrow> js_arg \<Rightarrow> int result" where
  "readInt40BE buf offset = read_ends buf offset 4 (\<lambda>first last' i.
     int_or first (int_and first (2 ^ 7) * 0x1fffffe) * 2 ^ 32
     + byte_at buf (i + 1) * 2 ^ 24 + byte_at buf (i + 2) * 2 ^ 16 + byte_at buf (i + 3) * 2 ^ 8 + last')"

definition readInt48LE :: "bytes \<Rightarrow> js_arg \<Rightarrow> int result" where
  "readInt48LE buf offset = read_ends buf offset 5 (\<lambda>first last' i.
     let val = byte_at buf (i + 4) + last' * 2 ^ 8
     in int_or val (int_and val (2 ^ 15) * 0x1fffe) * 2 ^ 32 + first
     + byte_at buf (i + 1) * 2 ^ 8 + byte_at buf (i + 2) * 2 ^ 16 + byte_at buf (i + 3) * 2 ^ 24)"

definition readInt48BE :: "bytes \<Rightarrow> js_arg \<Rightarrow> int result" where
  "readInt48BE buf offset = read_ends buf offset 5 (\<lambda>first last' i.
     let val = byte_at buf (i + 1) + first * 2 ^ 8
     in int_or val (int_and val (2 ^ 15) * 0x1fffe) * 2 ^ 32
     + byte_at buf (i + 2) * 2 ^ 24 + byte_at buf (i + 3) * 2 ^ 16 + byte_at buf (i + 4) * 2 ^ 8 + last')"

text \<open>
  The entry points that take a width: an undefined offset is refused before the width is looked at,
  and a width outside 1 to 6 is an error.
\<close>

definition is_num :: "js_arg \<Rightarrow> int \<Rightarrow> bool" where
  "is_num a k \<longleftrightarrow> a = arg_int k"

definition readUIntLE :: "bytes \<Rightarrow> js_arg \<Rightarrow> js_arg \<Rightarrow> int result" where
  "readUIntLE buf offset byteLength =
     (if offset = AUndef then Inl (ERR_INVALID_ARG_TYPE ''offset'')
      else if is_num byteLength 6 then readUInt48LE buf offset
      else if is_num byteLength 5 then readUInt40LE buf offset
      else if is_num byteLength 3 then readUInt24LE buf offset
      else if is_num byteLength 4 then readUInt32LE buf offset
      else if is_num byteLength 2 then readUInt16LE buf offset
      else if is_num byteLength 1 then readUInt8 buf offset
      else Inl (boundsError byteLength 6 (Some ''byteLength'')))"

definition readUIntBE :: "bytes \<Rightarrow> js_arg \<Rightarrow> js_arg \<Rightarrow> int result" where
  "readUIntBE buf offset byteLength =
     (if offset = AUndef then Inl (ERR_INVALID_ARG_TYPE ''offset'')
      else if is_num byteLength 6 then readUInt48BE buf offset
      else if is_num byteLength 5 then readUInt40BE buf offset
      else if is_num byteLength 3 then readUInt24BE buf offset
      else if is_num byteLength 4 then readUInt32BE buf offset
      else if is_num byteLength 2 then readUInt16BE buf offset
      else if is_num byteLength 1 then readUInt8 buf offset
      else Inl (boundsError byteLength 6 (Some ''byteLength'')))"

definition readIntLE :: "bytes \<Rightarrow> js_arg \<Rightarrow> js_arg \<Rightarrow> int result" where
  "readIntLE buf offset byteLength =
     (if offset = AUndef then Inl (ERR_INVALID_ARG_TYPE ''offset'')
      else if is_num byteLength 6 then readInt48LE buf offset
      else if is_num byteLength 5 then readInt40LE buf offset
      else if is_num byteLength 3 then readInt24LE buf offset
      else if is_num byteLength 4 then readInt32LE buf offset
      else if is_num byteLength 2 then readInt16LE buf offset
      else if is_num byteLength 1 then readInt8 buf offset
      else Inl (boundsError byteLength 6 (Some ''byteLength'')))"

definition readIntBE :: "bytes \<Rightarrow> js_arg \<Rightarrow> js_arg \<Rightarrow> int result" where
  "readIntBE buf offset byteLength =
     (if offset = AUndef then Inl (ERR_INVALID_ARG_TYPE ''offset'')
      else if is_num byteLength 6 then readInt48BE buf offset
      else if is_num byteLength 5 then readInt40BE buf offset
      else if is_num byteLength 3 then readInt24BE buf offset
      else if is_num byteLength 4 then readInt32BE buf offset
      else if is_num byteLength 2 then readInt16BE buf offset
      else if is_num byteLength 1 then readInt8 buf offset
      else Inl (boundsError byteLength 6 (Some ''byteLength'')))"

text \<open>
  The 64 bit reads first convert the offset with \<^verbatim>\<open>offset >>> 0\<close>, so the check of its type that
  follows cannot fail.
\<close>

definition big_offset :: "js_arg \<Rightarrow> js_arg result" where
  "big_offset offset = bindE (to_number offset) (\<lambda>n. Inr (ANum (num_ushr n 0)))"

definition readBigUInt64LE :: "bytes \<Rightarrow> js_arg \<Rightarrow> int result" where
  "readBigUInt64LE buf offset = bindE (big_offset offset) (\<lambda>offset.
     read_ends buf offset 7 (\<lambda>first last' i.
       let lo = first + byte_at buf (i + 1) * 2 ^ 8 + byte_at buf (i + 2) * 2 ^ 16 + byte_at buf (i + 3) * 2 ^ 24;
           hi = byte_at buf (i + 4) + byte_at buf (i + 5) * 2 ^ 8 + byte_at buf (i + 6) * 2 ^ 16 + last' * 2 ^ 24
       in lo + push_bit 32 hi))"

definition readBigUInt64BE :: "bytes \<Rightarrow> js_arg \<Rightarrow> int result" where
  "readBigUInt64BE buf offset = bindE (big_offset offset) (\<lambda>offset.
     read_ends buf offset 7 (\<lambda>first last' i.
       let hi = first * 2 ^ 24 + byte_at buf (i + 1) * 2 ^ 16 + byte_at buf (i + 2) * 2 ^ 8 + byte_at buf (i + 3);
           lo = byte_at buf (i + 4) * 2 ^ 24 + byte_at buf (i + 5) * 2 ^ 16 + byte_at buf (i + 6) * 2 ^ 8 + last'
       in push_bit 32 hi + lo))"

definition readBigInt64LE :: "bytes \<Rightarrow> js_arg \<Rightarrow> int result" where
  "readBigInt64LE buf offset = bindE (big_offset offset) (\<lambda>offset.
     read_ends buf offset 7 (\<lambda>first last' i.
       let val = byte_at buf (i + 4) + byte_at buf (i + 5) * 2 ^ 8 + byte_at buf (i + 6) * 2 ^ 16 + int_shl last' 24
       in push_bit 32 val
          + (first + byte_at buf (i + 1) * 2 ^ 8 + byte_at buf (i + 2) * 2 ^ 16 + byte_at buf (i + 3) * 2 ^ 24)))"

definition readBigInt64BE :: "bytes \<Rightarrow> js_arg \<Rightarrow> int result" where
  "readBigInt64BE buf offset = bindE (big_offset offset) (\<lambda>offset.
     read_ends buf offset 7 (\<lambda>first last' i.
       let val = int_shl first 24 + byte_at buf (i + 1) * 2 ^ 16 + byte_at buf (i + 2) * 2 ^ 8 + byte_at buf (i + 3)
       in push_bit 32 val
          + (byte_at buf (i + 4) * 2 ^ 24 + byte_at buf (i + 5) * 2 ^ 16 + byte_at buf (i + 6) * 2 ^ 8 + last')))"

subsection \<open>Writes\<close>

definition writeU_Int8 ::
  "bytes \<Rightarrow> js_arg \<Rightarrow> js_arg \<Rightarrow> int \<Rightarrow> int \<Rightarrow> (bytes \<times> js_num) result" where
  "writeU_Int8 buf value offset vmin vmax =
     bindE (to_number value) (\<lambda>v.
     bindE (validateNumber offset ''offset'') (\<lambda>n.
       if num_less (num_int vmax) v \<or> num_less v (num_int vmin)
       then Inl (ERR_OUT_OF_RANGE ''value'' (js ''>= '' @ show_int vmin @ js '' and <= '' @ show_int vmax))
       else if js_get buf n = None
       then Inl (boundsError (ANum n) (int (length buf) - 1) None)
       else Inr (js_set buf n v, num_add n 1)))"

text \<open>
  The wider writes convert the value, check value and offset, and store the bytes in the order of
  the source; \<open>checked_write\<close> is that common beginning.
\<close>

definition checked_write ::
  "bytes \<Rightarrow> js_arg \<Rightarrow> js_arg \<Rightarrow> int \<Rightarrow> int \<Rightarrow> int \<Rightarrow> (js_num \<Rightarrow> js_num \<Rightarrow> bytes) \<Rightarrow>
   (bytes \<times> js_num) result" where
  "checked_write buf value offset vmin vmax k stores =
     bindE (to_number value) (\<lambda>v.
     bindE (checkInt (Number v) (Number (num_int vmin)) (Number (num_int vmax)) buf offset k) (\<lambda>n.
       Inr (stores v n, num_add n (k + 1))))"

definition writeU_Int16BE ::
  "bytes \<Rightarrow> js_arg \<Rightarrow> js_arg \<Rightarrow> int \<Rightarrow> int \<Rightarrow> (bytes \<times> js_num) result" where
  "writeU_Int16BE buf value offset vmin vmax =
     checked_write buf value offset vmin vmax 1 (\<lambda>v n.
     let b = js_set buf n (num_ushr v 8);
         b = js_set b (num_add n 1) v
     in b)"

definition writeU_Int16LE ::
  "bytes \<Rightarrow> js_arg \<Rightarrow> js_arg \<Rightarrow> int \<Rightarrow> int \<Rightarrow> (bytes \<times> js_num) result" where
  "writeU_Int16LE buf value offset vmin vmax =
     checked_write buf value offset vmin vmax 1 (\<lambda>v n.
     let b = js_set buf n v;
         b = js_set b (num_add n 1) (num_ushr v 8)
     in b)"

definition write_UInt32LE ::
  "bytes \<Rightarrow> js_arg \<Rightarrow> js_arg \<Rightarrow> int \<Rightarrow> int \<Rightarrow> (bytes \<times> js_num) result" where
  "write_UInt32LE buf value offset vmin vmax =
     checked_write buf value offset vmin vmax 3 (\<lambda>v n.
     let b = js_set buf n v;
         v = num_ushr v 8;
         b = js_set b (num_add n 1) v;
         v = num_ushr v 8;
         b = js_set b (num_add n 2) v;
         v = num_ushr v 8;
         b = js_set b (num_add n 3) v
     in b)"

definition write_UInt32BE ::
  "bytes \<Rightarrow> js_arg \<Rightarrow> js_arg \<Rightarrow> int \<Rightarrow> int \<Rightarrow> (bytes \<times> js_num) result" where
  "write_UInt32BE buf value offset vmin vmax =
     checked_write buf value offset vmin vmax 3 (\<lambda>v n.
     let b = js_set buf (num_add n 3) v;
         v = num_ushr v 8;
         b = js_set b (num_add n 2) v;
         v = num_ushr v 8;
         b = js_set b (num_add n 1) v;
         v = num_ushr v 8;
         b = js_set b n v
     in b)"

definition writeU_Int48BE ::
  "bytes \<Rightarrow> js_arg \<Rightarrow> js_arg \<Rightarrow> int \<Rightarrow> int \<Rightarrow> (bytes \<times> js_num) result" where
  "writeU_Int48BE buf value offset vmin vmax =
     checked_write buf value offset vmin vmax 5 (\<lambda>v n.
     let newVal = floor_shift32 v;
         b = js_set buf n (num_ushr newVal 8);
         b = js_set b (num_add n 1) newVal;
         b = js_set b (num_add n 5) v;
         v = num_ushr v 8;
         b = js_set b (num_add n 4) v;
         v = num_ushr v 8;
         b = js_set b (num_add n 3) v;
         v = num_ushr v 8;
         b = js_set b (num_add n 2) v
     in b)"

definition writeU_Int40BE ::
  "bytes \<Rightarrow> js_arg \<Rightarrow> js_arg \<Rightarrow> int \<Rightarrow> int \<Rightarrow> (bytes \<times> js_num) result" where
  "writeU_Int40BE buf value offset vmin vmax =
     checked_write buf value offset vmin vmax 4 (\<lambda>v n.
     let b = js_set buf n (floor_shift32 v);
         b = js_set b (num_add n 4) v;
         v = num_ushr v 8;
         b = js_set b (num_add n 3) v;
         v = num_ushr v 8;
         b = js_set b (num_add n 2) v;
         v = num_ushr v 8;
         b = js_set b (num_add n 1) v
     in b)"

definition writeU_Int32BE ::
  "bytes \<Rightarrow> js_arg \<Rightarrow> js_arg \<Rightarrow> int \<Rightarrow> int \<Rightarrow> (bytes \<times> js_num) result" where
  "writeU_Int32BE buf value offset vmin vmax =
     checked_write buf value offset vmin vmax 3 (\<lambda>v n.
     let b = js_set buf (num_add n 3) v;
         v = num_ushr v 8;
         b = js_set b (num_add n 2) v;
         v = num_ushr v 8;
         b = js_set b (num_add n 1) v;
         v = num_ushr v 8;
         b = js_set b n v
     in b)"

definition writeU_Int24BE ::
  "bytes \<Rightarrow> js_arg \<Rightarrow> js_arg \<Rightarrow> int \<Rightarrow> int \<Rightarrow> (bytes \<times> js_num) result" where
  "writeU_Int24BE buf value offset vmin vmax =
     checked_write buf value offset vmin vmax 2 (\<lambda>v n.
     let b = js_set buf (num_add n 2) v;
         v = num_ushr v 8;
         b = js_set b (num_add n 1) v;
         v = num_ushr v 8;
         b = js_set b n v
     in b)"

definition writeU_Int48LE ::
  "bytes \<Rightarrow> js_arg \<Rightarrow> js_arg \<Rightarrow> int \<Rightarrow> int \<Rightarrow> (bytes \<times> js_num) result" where
  "writeU_Int48LE buf value offset vmin vmax =
     checked_write buf value offset vmin vmax 5 (\<lambda>v n.
     let newVal = floor_shift32 v;
         b = js_set buf n v;
         v = num_ushr v 8;
         b = js_set b (num_add n 1) v;
         v = num_ushr v 8;
         b = js_set b (num_add n 2) v;
         v = num_ushr v 8;
         b = js_set b (num_add n 3) v;
         b = js_set b (num_add n 4) newVal;
         b = js_set b (num_add n 5) (num_ushr newVal 8)
     in b)"

definition writeU_Int40LE ::
  "bytes \<Rightarrow> js_arg \<Rightarrow> js_arg \<Rightarrow> int \<Rightarrow> int \<Rightarrow> (bytes \<times> js_num) result" where
  "writeU_Int40LE buf value offset vmin vmax =
     checked_write buf value offset vmin vmax 4 (\<lambda>v n.
     let newVal = v;
         b = js_set buf n v;
         v = num_ushr v 8;
         b = js_set b (num_add n 1) v;
         v = num_ushr v 8;
         b = js_set b (num_add n 2) v;
         v = num_ushr v 8;
         b = js_set b (num_add n 3) v;
         b = js_set b (num_add n 4) (floor_shift32 newVal)
     in b)"

definition writeU_Int32LE ::
  "bytes \<Rightarrow> js_arg \<Rightarrow> js_arg \<Rightarrow> int \<Rightarrow> int \<Rightarrow> (bytes \<times> js_num) result" where
  "writeU_Int32LE buf value offset vmin vmax =
     checked_write buf value offset vmin vmax 3 (\<lambda>v n.
     let b = js_set buf n v;
         v = num_ushr v 8;
         b = js_set b (num_add n 1) v;
         v = num_ushr v 8;
         b = js_set b (num_add n 2) v;
         v = num_ushr v 8;
         b = js_set b (num_add n 3) v
     in b)"

definition writeU_Int24LE ::
  "bytes \<Rightarrow> js_arg \<Rightarrow> js_arg \<Rightarrow> int \<Rightarrow> int \<Rightarrow> (bytes \<times> js_num) result" where
  "writeU_Int24LE buf value offset vmin vmax =
     checked_write buf value offset vmin vmax 2 (\<lambda>v n.
     let b = js_set buf n v;
         v = num_ushr v 8;
         b = js_set b (num_add n 1) v;
         v = num_ushr v 8;
         b = js_set b (num_add n 2) v
     in b)"

definition writeUIntLE ::
  "bytes \<Rightarrow> js_arg \<Rightarrow> js_arg \<Rightarrow> js_arg \<Rightarrow> (bytes \<times> js_num) result" where
  "writeUIntLE buf value offset byteLength =
     (if is_num byteLength 6 then writeU_Int48LE buf value offset 0 0xffffffffffff
      else if is_num byteLength 5 then writeU_Int40LE buf value offset 0 0xffffffffff
      else if is_num byteLength 3 then writeU_Int24LE buf value offset 0 0xffffff
      else if is_num byteLength 4 then writeU_Int32LE buf value offset 0 0xffffffff
      else if is_num byteLength 2 then writeU_Int16LE buf value offset 0 0xffff
      else if is_num byteLength 1 then writeU_Int8 buf value offset 0 0xff
      else Inl (boundsError byteLength 6 (Some ''byteLength'')))"

definition writeUIntBE ::
  "bytes \<Rightarrow> js_arg \<Rightarrow> js_arg \<Rightarrow> js_arg \<Rightarrow> (bytes \<times> js_num) result" where
  "writeUIntBE buf value offset byteLength =
     (if is_num byteLength 6 then writeU_Int48BE buf value offset 0 0xffffffffffff
      else if is_num byteLength 5 then writeU_Int40BE buf value offset 0 0xffffffffff
      else if is_num byteLength 3 then writeU_Int24BE buf value offset 0 0xffffff
      else if is_num byteLength 4 then writeU_Int32BE buf value offset 0 0xffffffff
      else if is_num byteLength 2 then writeU_Int16BE buf value offset 0 0xffff
      else if is_num byteLength 1 then writeU_Int8 buf value offset 0 0xff
      else Inl (boundsError byteLength 6 (Some ''byteLength'')))"

definition writeIntLE ::
  "bytes \<Rightarrow> js_arg \<Rightarrow> js_arg \<Rightarrow> js_arg \<Rightarrow> (bytes \<times> js_num) result" where
  "writeIntLE buf value offset byteLength =
     (if is_num byteLength 6 then writeU_Int48LE buf value offset (- 0x800000000000) 0x7fffffffffff
      else if is_num byteLength 5 then writeU_Int40LE buf value offset (- 0x8000000000) 0x7fffffffff
      else if is_num byteLength 3 then writeU_Int24LE buf value offset (- 0x800000) 0x7fffff
      else if is_num byteLength 4 then writeU_Int32LE buf value offset (- 0x80000000) 0x7fffffff
      else if is_num byteLength 2 then writeU_Int16LE buf value offset (- 0x8000) 0x7fff
      else if is_num byteLength 1 then writeU_Int8 buf value offset (- 0x80) 0x7f
      else Inl (boundsError byteLength 6 (Some ''byteLength'')))"

definition writeIntBE ::
  "bytes \<Rightarrow> js_arg \<Rightarrow> js_arg \<Rightarrow> js_arg \<Rightarrow> (bytes \<times> js_num) result" where
  "writeIntBE buf value offset byteLength =
     (if is_num byteLength 6 then writeU_Int48BE buf value offset (- 0x800000000000) 0x7fffffffffff
      else if is_num byteLength 5 then writeU_Int40BE buf value offset (- 0x8000000000) 0x7fffffffff
      else if is_num byteLength 3 then writeU_Int24BE buf value offset (- 0x800000) 0x7fffff
      else if is_num byteLength 4 then writeU_Int32BE buf value offset (- 0x80000000) 0x7fffffff
      else if is_num byteLength 2 then writeU_Int16BE buf value offset (- 0x8000) 0x7fff
      else if is_num byteLength 1 then writeU_Int8 buf value offset (- 0x80) 0x7f
      else Inl (boundsError byteLength 6 (Some ''byteLength'')))"

text \<open>The methods of a fixed width, whose offset defaults to 0.\<close>

definition writeUInt8 :: "bytes \<Rightarrow> js_arg \<Rightarrow> js_arg \<Rightarrow> (bytes \<times> js_num) result" where
  "writeUInt8 buf value offset = writeU_Int8 buf value (default0 offset) 0 0xff"

definition writeUInt16LE :: "bytes \<Rightarrow> js_arg \<Rightarrow> js_arg \<Rightarrow> (bytes \<times> js_num) result" where
  "writeUInt16LE buf value offset = writeU_Int16LE buf value (default0 offset) 0 0xffff"

definition writeUInt16BE :: "bytes \<Rightarrow> js_arg \<Rightarrow> js_arg \<Rightarrow> (bytes \<times> js_num) result" where
  "writeUInt16BE buf value offset = writeU_Int16BE buf value (default0 offset) 0 0xffff"

definition writeUInt32LE :: "bytes \<Rightarrow> js_arg \<Rightarrow> js_arg \<Rightarrow> (bytes \<times> js_num) result" where
  "writeUInt32LE buf value offset = write_UInt32LE buf value (default0 offset) 0 0xffffffff"

definition writeUInt32BE :: "bytes \<Rightarrow> js_arg \<Rightarrow> js_arg \<Rightarrow> (bytes \<times> js_num) result" where
  "writeUInt32BE buf value offset = write_UInt32BE buf value (default0 offset) 0 0xffffffff"

definition writeInt8 :: "bytes \<Rightarrow> js_arg \<Rightarrow> js_arg \<Rightarrow> (bytes \<times> js_num) result" where
  "writeInt8 buf value offset = writeU_Int8 buf value (default0 offset) (- 0x80) 0x7f"

definition writeInt16LE :: "bytes \<Rightarrow> js_arg \<Rightarrow> js_arg \<Rightarrow> (bytes \<times> js_num) result" where
  "writeInt16LE buf value offset = writeU_Int16LE buf value (default0 offset) (- 0x8000) 0x7fff"

definition writeInt16BE :: "bytes \<Rightarrow> js_arg \<Rightarrow> js_arg \<Rightarrow> (bytes \<times> js_num) result" where
  "writeInt16BE buf value offset = writeU_Int16BE buf value (default0 offset) (- 0x8000) 0x7fff"

definition writeInt32LE :: "bytes \<Rightarrow> js_arg \<Rightarrow> js_arg \<Rightarrow> (bytes \<times> js_num) result" where
  "writeInt32LE buf value offset = writeU_Int32LE buf value (default0 offset) (- 0x80000000) 0x7fffffff"

definition writeInt32BE :: "bytes \<Rightarrow> js_arg \<Rightarrow> js_arg \<Rightarrow> (bytes \<times> js_num) result" where
  "writeInt32BE buf value offset = writeU_Int32BE buf value (default0 offset) (- 0x80000000) 0x7fffffff"

text \<open>
  The 64 bit writes expect a \<^verbatim>\<open>BigInt\<close>. A number passes the comparisons, and the first bitwise
  operator that mixes it with a \<^verbatim>\<open>BigInt\<close> throws.
\<close>

definition checked_big_write ::
  "bytes \<Rightarrow> js_numeric \<Rightarrow> js_arg \<Rightarrow> int \<Rightarrow> int \<Rightarrow> (int \<Rightarrow> js_num \<Rightarrow> bytes) \<Rightarrow>
   (bytes \<times> js_num) result" where
  "checked_big_write buf value offset vmin vmax stores =
     bindE (checkIntBI value (BigInt vmin) (BigInt vmax) buf offset 7) (\<lambda>n.
       case value of
         BigInt v \<Rightarrow> Inr (stores v n, num_add n 8)
       | Number _ \<Rightarrow> Inl (TypeError ''Cannot mix BigInt and other types''))"

definition wrtBigUInt64LE ::
  "bytes \<Rightarrow> js_numeric \<Rightarrow> js_arg \<Rightarrow> int \<Rightarrow> int \<Rightarrow> (bytes \<times> js_num) result" where
  "wrtBigUInt64LE buf value offset vmin vmax =
     checked_big_write buf value offset vmin vmax (\<lambda>v n.
     let lo = v AND 4294967295;
         b = js_set buf n (num_int lo);
         lo = int_sshr lo 8;
         b = js_set b (num_add n 1) (num_int lo);
         lo = int_sshr lo 8;
         b = js_set b (num_add n 2) (num_int lo);
         lo = int_sshr lo 8;
         b = js_set b (num_add n 3) (num_int lo);
         hi = drop_bit 32 v AND 4294967295;
         b = js_set b (num_add n 4) (num_int hi);
         hi = int_sshr hi 8;
         b = js_set b (num_add n 5) (num_int hi);
         hi = int_sshr hi 8;
         b = js_set b (num_add n 6) (num_int hi);
         hi = int_sshr hi 8;
         b = js_set b (num_add n 7) (num_int hi)
     in b)"

definition wrtBigUInt64BE ::
  "bytes \<Rightarrow> js_numeric \<Rightarrow> js_arg \<Rightarrow> int \<Rightarrow> int \<Rightarrow> (bytes \<times> js_num) result" where
  "wrtBigUInt64BE buf value offset vmin vmax =
     checked_big_write buf value offset vmin vmax (\<lambda>v n.
     let lo = v AND 4294967295;
         b = js_set buf (num_add n 7) (num_int lo);
         lo = int_sshr lo 8;
         b = js_set b (num_add n 6) (num_int lo);
         lo = int_sshr lo 8;
         b = js_set b (num_add n 5) (num_int lo);
         lo = int_sshr lo 8;
         b = js_set b (num_add n 4) (num_int lo);
         hi = drop_bit 32 v AND 4294967295;
         b = js_set b (num_add n 3) (num_int hi);
         hi = int_sshr hi 8;
         b = js_set b (num_add n 2) (num_int hi);
         hi = int_sshr hi 8;
         b = js_set b (num_add n 1) (num_int hi);
         hi = int_sshr hi 8;
         b = js_set b n (num_int hi)
     in b)"

definition writeBigUInt64LE :: "bytes \<Rightarrow> js_numeric \<Rightarrow> js_arg \<Rightarrow> (bytes \<times> js_num) result" where
  "writeBigUInt64LE buf value offset =
     wrtBigUInt64LE buf value (default0 offset) 0 0xffffffffffffffff"

definition writeBigUInt64BE :: "bytes \<Rightarrow> js_numeric \<Rightarrow> js_arg \<Rightarrow> (bytes \<times> js_num) result" where
  "writeBigUInt64BE buf value offset =
     wrtBigUInt64BE buf value (default0 offset) 0 0xffffffffffffffff"

definition writeBigInt64LE :: "bytes \<Rightarrow> js_numeric \<Rightarrow> js_arg \<Rightarrow> (bytes \<times> js_num) result" where
  "writeBigInt64LE buf value offset =
     wrtBigUInt64LE buf value (default0 offset) (- 0x8000000000000000) 0x7fffffffffffffff"

definition writeBigInt64BE :: "bytes \<Rightarrow> js_numeric \<Rightarrow> js_arg \<Rightarrow> (bytes \<times> js_num) result" where
  "writeBigInt64BE buf value offset =
     wrtBigUInt64BE buf value (default0 offset) (- 0x8000000000000000) 0x7fffffffffffffff"

end
