(* ===== verification/Buffer_Int_Codec.thy ===== *)
theory Buffer_Int_Codec
  imports Buffer_Int
begin

unbundle bit_operations_syntax

text \<open>
  What the integer accessors of \<^verbatim>\<open>internal/buffer.mjs\<close> compute: positional notation in base
  256, with two's complement for the signed ones. The locale \<open>int_accessor\<close> is the contract that a
  pair of a read and a write shares; it is interpreted on every pair of the model, and the round
  trips and the independence of disjoint fields are proved once inside it.
\<close>

subsection \<open>Positional notation\<close>

fun le_dec :: "bytes \<Rightarrow> int" where
  "le_dec [] = 0"
| "le_dec (b # bs) = uint b + 256 * le_dec bs"

fun le_enc :: "nat \<Rightarrow> int \<Rightarrow> bytes" where
  "le_enc 0 v = []"
| "le_enc (Suc n) v = word_of_int v # le_enc n (v div 256)"

definition be_dec :: "bytes \<Rightarrow> int" where "be_dec bs = le_dec (rev bs)"

definition be_enc :: "nat \<Rightarrow> int \<Rightarrow> bytes" where "be_enc n v = rev (le_enc n v)"

text \<open>Two's complement of \<open>n\<close> bytes.\<close>

definition signed_val :: "nat \<Rightarrow> int \<Rightarrow> int" where
  "signed_val n u = (if u < 2 ^ (8 * n - 1) then u else u - 2 ^ (8 * n))"

definition overwrite :: "'a list \<Rightarrow> nat \<Rightarrow> 'a list \<Rightarrow> 'a list" where
  "overwrite buf i xs = take i buf @ xs @ drop (i + length xs) buf"

lemma le_dec_bounds: "0 \<le> le_dec bs \<and> le_dec bs < 256 ^ length bs"
proof (induction bs)
  case (Cons b bs)
  have "uint b < 256" using uint_lt2p [of b] by simp
  then show ?case using Cons by auto
qed simp

lemma length_le_enc [simp]: "length (le_enc n v) = n"
  by (induction n arbitrary: v) auto

lemma length_be_enc [simp]: "length (be_enc n v) = n"
  by (simp add: be_enc_def)

lemma uint_word8: "uint (word_of_int v :: 8 word) = v mod 256"
  by (simp add: unsigned_of_int take_bit_eq_mod)

lemma le_dec_enc: "le_dec (le_enc n v) = v mod 256 ^ n"
proof (induction n arbitrary: v)
  case (Suc n)
  have "v mod 256 + 256 * (v div 256 mod 256 ^ n) = v mod (256 * 256 ^ n)"
    using zmod_zmult2_eq [of "256 ^ n" v 256] by simp
  then show ?case using Suc by (simp add: uint_word8)
qed simp

lemma be_dec_enc: "be_dec (be_enc n v) = v mod 256 ^ n"
  by (simp add: be_dec_def be_enc_def le_dec_enc)

lemma pow256: "0 < n \<Longrightarrow> (256::int) ^ n = 2 * 2 ^ (8 * n - 1)"
proof -
  assume "0 < n"
  then have "8 * n = Suc (8 * n - 1)" by simp
  then have "(2::int) ^ (8 * n) = 2 * 2 ^ (8 * n - 1)" by (metis power_Suc)
  then show ?thesis by (simp add: power_mult)
qed

lemma signed_val_bounds:
  assumes "0 \<le> u" "u < 256 ^ n" "0 < n"
  shows "- (2 ^ (8 * n - 1)) \<le> signed_val n u \<and> signed_val n u < 2 ^ (8 * n - 1)"
proof -
  have "(2::int) ^ (8 * n) = 256 ^ n" by (simp add: power_mult)
  then show ?thesis using assms pow256 [of n] by (auto simp: signed_val_def)
qed

lemma signed_val_mod:
  assumes "0 < n" "- (2 ^ (8 * n - 1)) \<le> v" "v < 2 ^ (8 * n - 1)"
  shows "signed_val n (v mod 256 ^ n) = v"
proof (cases "0 \<le> v")
  case True
  then have "v mod 256 ^ n = v" using assms pow256 [of n] by simp
  then show ?thesis using assms by (simp add: signed_val_def)
next
  case False
  have "(v + 256 ^ n) mod 256 ^ n = v + 256 ^ n"
    by (rule mod_pos_pos_trivial) (use False assms pow256 [of n] in simp_all)
  then have "v mod 256 ^ n = v + 256 ^ n" by simp
  moreover have "(2::int) ^ (8 * n) = 256 ^ n" by (simp add: power_mult)
  ultimately show ?thesis using assms pow256 [of n] by (simp add: signed_val_def)
qed

subsection \<open>Overwriting part of a buffer\<close>

lemma length_overwrite [simp]:
  "i + length xs \<le> length buf \<Longrightarrow> length (overwrite buf i xs) = length buf"
  by (simp add: overwrite_def)

lemma overwrite_Nil [simp]: "overwrite buf i [] = buf"
  by (simp add: overwrite_def)

text \<open>Stores in ascending and in descending order of the indices.\<close>

lemma overwrite_up:
  "i < length buf \<Longrightarrow> overwrite buf i (x # xs) = overwrite (buf[i := x]) (Suc i) xs"
  by (simp add: overwrite_def take_Suc_conv_app_nth)

lemma overwrite_down:
  assumes "i + length xs < length buf"
  shows "overwrite buf i (x # xs) = (overwrite buf (Suc i) xs)[i := x]"
  using assms by (simp add: overwrite_def take_Suc_conv_app_nth list_update_append min_def)

lemma overwrite_same:
  "i + length xs \<le> length buf \<Longrightarrow> take (length xs) (drop i (overwrite buf i xs)) = xs"
  by (simp add: overwrite_def)

lemma overwrite_before:
  "j + n \<le> i \<Longrightarrow> i + length xs \<le> length buf \<Longrightarrow>
   take n (drop j (overwrite buf i xs)) = take n (drop j buf)"
  by (simp add: overwrite_def take_drop add.commute min_def)

lemma overwrite_after:
  "i + length xs \<le> j \<Longrightarrow> i + length xs \<le> length buf \<Longrightarrow>
   drop j (overwrite buf i xs) = drop j buf"
  by (simp add: overwrite_def)

subsection \<open>The contract of a read and a write\<close>

locale int_accessor =
  fixes n :: nat
    and lo hi :: int
    and rd :: "bytes \<Rightarrow> nat \<Rightarrow> int result"
    and wr :: "bytes \<Rightarrow> int \<Rightarrow> nat \<Rightarrow> (bytes \<times> js_num) result"
    and enc :: "int \<Rightarrow> bytes"
    and dec :: "bytes \<Rightarrow> int"
  assumes length_enc: "length (enc v) = n"
    and dec_enc: "lo \<le> v \<Longrightarrow> v \<le> hi \<Longrightarrow> dec (enc v) = v"
    and dec_bounds: "length bs = n \<Longrightarrow> lo \<le> dec bs \<and> dec bs \<le> hi"
    and read_eq: "i + n \<le> length buf \<Longrightarrow> length buf \<le> kMaxLength \<Longrightarrow>
      rd buf i = Inr (dec (take n (drop i buf)))"
    and write_eq: "i + n \<le> length buf \<Longrightarrow> length buf \<le> kMaxLength \<Longrightarrow> lo \<le> v \<Longrightarrow> v \<le> hi \<Longrightarrow>
      wr buf v i = Inr (overwrite buf i (enc v), num_nat (i + n))"
begin

lemma round_trip:
  assumes "i + n \<le> length buf" "length buf \<le> kMaxLength" "lo \<le> v" "v \<le> hi"
  shows "\<exists>buf'. wr buf v i = Inr (buf', num_nat (i + n)) \<and> rd buf' i = Inr v
    \<and> length buf' = length buf \<and> take i buf' = take i buf \<and> drop (i + n) buf' = drop (i + n) buf"
proof -
  let ?b = "overwrite buf i (enc v)"
  have len: "length ?b = length buf" using assms(1) by (simp add: length_enc)
  have "rd ?b i = Inr (dec (enc v))"
    using assms(1,2) len overwrite_same [of i "enc v" buf] by (simp add: read_eq length_enc)
  moreover have "take i ?b = take i buf" "drop (i + n) ?b = drop (i + n) buf"
    using assms(1) overwrite_before [of 0 i i "enc v" buf] overwrite_after [of i "enc v" "i + n" buf]
    by (simp_all add: length_enc)
  ultimately show ?thesis using assms len by (auto simp: write_eq dec_enc)
qed

lemma disjoint_read:
  assumes "i + n \<le> length buf" "j + n \<le> length buf" "length buf \<le> kMaxLength"
    and "lo \<le> v" "v \<le> hi" "wr buf v i = Inr (buf', r)" "i + n \<le> j \<or> j + n \<le> i"
  shows "rd buf' j = rd buf j"
proof -
  have b: "buf' = overwrite buf i (enc v)" using assms by (simp add: write_eq)
  have "take n (drop j buf') = take n (drop j buf)"
    using assms(1,7) overwrite_before [of j n i "enc v" buf] overwrite_after [of i "enc v" j buf]
    by (auto simp: b length_enc)
  moreover have "length buf' = length buf" using assms(1) by (simp add: b length_enc)
  ultimately show ?thesis using assms(2,3) by (simp add: read_eq)
qed

end

end
