(* ===== verification/Buffer_Int_Access.thy ===== *)
theory Buffer_Int_Access
  imports Buffer_Int_Codec
begin

unbundle bit_operations_syntax

text \<open>
  The accessors of \<^verbatim>\<open>internal/buffer.mjs\<close> against positional notation: each read returns the
  number its bytes denote, each write stores the bytes of its value, and every failing call fails
  with the documented exception.
\<close>

subsection \<open>Reads at a valid offset\<close>

lemma js_get_nat [simp]:
  "js_get buf (num_nat i) = (if i < length buf then Some (uint (buf ! i)) else None)"
  by (simp add: js_get_def)

lemma num_trunc_nat [simp]: "num_trunc (num_nat i) = int i"
  by simp

lemma num_add_nat: "num_add (num_nat i) (int k) = num_nat (i + k)"
  by simp

lemma read_ends_ok:
  assumes "0 \<le> k" "i + nat k < length buf"
  shows "read_ends buf (arg_nat i) k f
    = Inr (f (uint (buf ! i)) (uint (buf ! (i + nat k))) (int i))"
proof -
  obtain m where "k = int m" using assms(1) nonneg_int_cases by blast
  then show ?thesis
    using assms(2)
    by (simp add: read_ends_def default0_def validateNumber_def num_add_nat
        del: num_add.simps of_nat_add num_trunc.simps)
qed

lemma byte_at_add [simp]:
  "byte_at buf (int i + 1) = uint (buf ! (i + 1))"
  "byte_at buf (int i + numeral w) = uint (buf ! (i + numeral w))"
  by (simp_all add: byte_at_def nat_add_distrib)

lemma slice_Suc:
  "i < length buf \<Longrightarrow> take (Suc n) (drop i buf) = buf ! i # take n (drop (i + 1) buf)"
  by (simp add: Cons_nth_drop_Suc [symmetric])

lemma le_slice:
  "i + 1 \<le> length buf \<Longrightarrow> le_dec (take 1 (drop i buf)) = uint (buf ! i)"
  "i + 2 \<le> length buf \<Longrightarrow> le_dec (take 2 (drop i buf)) = uint (buf ! i) + uint (buf ! (i + 1)) * 2 ^ 8"
  "i + 3 \<le> length buf \<Longrightarrow> le_dec (take 3 (drop i buf))
     = uint (buf ! i) + uint (buf ! (i + 1)) * 2 ^ 8 + uint (buf ! (i + 2)) * 2 ^ 16"
  "i + 4 \<le> length buf \<Longrightarrow> le_dec (take 4 (drop i buf))
     = uint (buf ! i) + uint (buf ! (i + 1)) * 2 ^ 8 + uint (buf ! (i + 2)) * 2 ^ 16
       + uint (buf ! (i + 3)) * 2 ^ 24"
  by (simp_all add: eval_nat_numeral slice_Suc take_Suc_conv_app_nth)

lemma le_dec_append: "le_dec (xs @ ys) = le_dec xs + 256 ^ length xs * le_dec ys"
  by (induction xs) (simp_all add: algebra_simps)

lemma be_dec_append: "be_dec (xs @ ys) = be_dec xs * 256 ^ length ys + be_dec ys"
  by (simp add: be_dec_def le_dec_append)

lemma be_slice:
  "i + 1 \<le> length buf \<Longrightarrow> be_dec (take 1 (drop i buf)) = uint (buf ! i)"
  "i + 2 \<le> length buf \<Longrightarrow> be_dec (take 2 (drop i buf)) = uint (buf ! i) * 2 ^ 8 + uint (buf ! (i + 1))"
  "i + 3 \<le> length buf \<Longrightarrow> be_dec (take 3 (drop i buf))
     = uint (buf ! i) * 2 ^ 16 + uint (buf ! (i + 1)) * 2 ^ 8 + uint (buf ! (i + 2))"
  "i + 4 \<le> length buf \<Longrightarrow> be_dec (take 4 (drop i buf))
     = uint (buf ! i) * 2 ^ 24 + uint (buf ! (i + 1)) * 2 ^ 16 + uint (buf ! (i + 2)) * 2 ^ 8
       + uint (buf ! (i + 3))"
  by (simp_all add: be_dec_def eval_nat_numeral slice_Suc)

text \<open>The wider fields are a field of four bytes and the rest.\<close>

lemma slice_split: "take (m + n) (drop i buf) = take m (drop i buf) @ take n (drop (i + m) buf)"
  by (simp add: take_add add.commute)

lemma le_slice_split:
  "i + (m + n) \<le> length buf \<Longrightarrow> le_dec (take (m + n) (drop i buf))
     = le_dec (take m (drop i buf)) + 256 ^ m * le_dec (take n (drop (i + m) buf))"
  by (simp add: slice_split le_dec_append min_def)

lemma be_slice_split:
  "i + (m + n) \<le> length buf \<Longrightarrow> be_dec (take (m + n) (drop i buf))
     = be_dec (take m (drop i buf)) * 256 ^ n + be_dec (take n (drop (i + m) buf))"
proof -
  assume "i + (m + n) \<le> length buf"
  then have "length (take n (drop (i + m) buf)) = n" by simp
  then show ?thesis by (simp add: slice_split be_dec_append)
qed

lemma readUInt_LE:
  "i + 1 \<le> length buf \<Longrightarrow> readUInt8 buf (arg_nat i) = Inr (le_dec (take 1 (drop i buf)))"
  "i + 2 \<le> length buf \<Longrightarrow> readUInt16LE buf (arg_nat i) = Inr (le_dec (take 2 (drop i buf)))"
  "i + 3 \<le> length buf \<Longrightarrow> readUInt24LE buf (arg_nat i) = Inr (le_dec (take 3 (drop i buf)))"
  "i + 4 \<le> length buf \<Longrightarrow> readUInt32LE buf (arg_nat i) = Inr (le_dec (take 4 (drop i buf)))"
  "i + 5 \<le> length buf \<Longrightarrow> readUInt40LE buf (arg_nat i) = Inr (le_dec (take 5 (drop i buf)))"
  "i + 6 \<le> length buf \<Longrightarrow> readUInt48LE buf (arg_nat i) = Inr (le_dec (take 6 (drop i buf)))"
proof -
  show "readUInt8 buf (arg_nat i) = Inr (le_dec (take 1 (drop i buf)))" if "i + 1 \<le> length buf"
    using that by (simp add: readUInt8_def default0_def validateNumber_def js_get_def le_slice(1)[simplified])
  show "readUInt16LE buf (arg_nat i) = Inr (le_dec (take 2 (drop i buf)))" if "i + 2 \<le> length buf"
    using that by (simp add: readUInt16LE_def read_ends_ok le_slice)
  show "readUInt24LE buf (arg_nat i) = Inr (le_dec (take 3 (drop i buf)))" if "i + 3 \<le> length buf"
    using that by (simp add: readUInt24LE_def read_ends_ok le_slice)
  show "readUInt32LE buf (arg_nat i) = Inr (le_dec (take 4 (drop i buf)))" if "i + 4 \<le> length buf"
    using that by (simp add: readUInt32LE_def read_ends_ok le_slice)
  show "readUInt40LE buf (arg_nat i) = Inr (le_dec (take 5 (drop i buf)))" if "i + 5 \<le> length buf"
    using that le_slice_split [of i 4 1 buf]
    by (simp add: readUInt40LE_def read_ends_ok le_slice le_slice(1)[simplified])
  show "readUInt48LE buf (arg_nat i) = Inr (le_dec (take 6 (drop i buf)))" if "i + 6 \<le> length buf"
    using that le_slice_split [of i 4 2 buf]
    by (simp add: readUInt48LE_def read_ends_ok le_slice add.commute [of 5 i])
qed

lemma readUInt_BE:
  "i + 2 \<le> length buf \<Longrightarrow> readUInt16BE buf (arg_nat i) = Inr (be_dec (take 2 (drop i buf)))"
  "i + 3 \<le> length buf \<Longrightarrow> readUInt24BE buf (arg_nat i) = Inr (be_dec (take 3 (drop i buf)))"
  "i + 4 \<le> length buf \<Longrightarrow> readUInt32BE buf (arg_nat i) = Inr (be_dec (take 4 (drop i buf)))"
  "i + 5 \<le> length buf \<Longrightarrow> readUInt40BE buf (arg_nat i) = Inr (be_dec (take 5 (drop i buf)))"
  "i + 6 \<le> length buf \<Longrightarrow> readUInt48BE buf (arg_nat i) = Inr (be_dec (take 6 (drop i buf)))"
proof -
  show "readUInt16BE buf (arg_nat i) = Inr (be_dec (take 2 (drop i buf)))" if "i + 2 \<le> length buf"
    using that by (simp add: readUInt16BE_def read_ends_ok be_slice)
  show "readUInt24BE buf (arg_nat i) = Inr (be_dec (take 3 (drop i buf)))" if "i + 3 \<le> length buf"
    using that by (simp add: readUInt24BE_def read_ends_ok be_slice)
  show "readUInt32BE buf (arg_nat i) = Inr (be_dec (take 4 (drop i buf)))" if "i + 4 \<le> length buf"
    using that by (simp add: readUInt32BE_def read_ends_ok be_slice)
  show "readUInt40BE buf (arg_nat i) = Inr (be_dec (take 5 (drop i buf)))" if "i + 5 \<le> length buf"
    using that be_slice_split [of i 1 4 buf] be_slice(1) [of i buf] be_slice(4) [of "i + 1" buf]
    by (simp add: readUInt40BE_def read_ends_ok eval_nat_numeral)
  show "readUInt48BE buf (arg_nat i) = Inr (be_dec (take 6 (drop i buf)))" if "i + 6 \<le> length buf"
    using that be_slice_split [of i 2 4 buf] be_slice(2) [of i buf] be_slice(4) [of "i + 2" buf]
    by (simp add: readUInt48BE_def read_ends_ok eval_nat_numeral)
qed

subsection \<open>Sign extension\<close>

lemma and_exp_int: "(v::int) AND 2 ^ p = (if bit v p then 2 ^ p else 0)"
  by (rule bit_eqI) (auto simp: bit_simps)

lemma bit_top_iff:
  assumes "0 \<le> v" "v < 2 ^ Suc p"
  shows "bit (v::int) p \<longleftrightarrow> 2 ^ p \<le> v"
proof (cases "2 ^ p \<le> v")
  case True
  then have "v div 2 ^ p = 1" using assms by (intro int_div_pos_eq [of _ _ _ "v - 2 ^ p"]) auto
  then show ?thesis using True by (simp add: bit_iff_odd)
next
  case False
  then show ?thesis using assms by (simp add: bit_iff_odd)
qed

lemma or_minus_exp:
  assumes "0 \<le> v" "v < 2 ^ m"
  shows "(v::int) OR (- (2 ^ m)) = v - 2 ^ m"
proof -
  have "v = take_bit m v" using assms by (simp add: take_bit_int_eq_self)
  then have "\<not> bit v n \<or> \<not> bit (- (2 ^ m) :: int) n" for n
    by (metis bit_minus_exp_iff bit_take_bit_iff not_le)
  then have "v + (- (2 ^ m)) = v OR (- (2 ^ m))" by (rule disjunctive_add)
  then show ?thesis by simp
qed

lemma to_int32_cong: "a mod 2 ^ 32 = b mod 2 ^ 32 \<Longrightarrow> to_int32 a = to_int32 b"
  by (simp add: to_int32_def signed_of_int signed_take_bit_eq_iff_take_bit_eq take_bit_eq_mod)

text \<open>
  \<^verbatim>\<open>val | (val & 2 ** p) * c\<close> with the constants of the sources is the value of the two's
  complement number.
\<close>

lemma sign_extend:
  assumes "p \<le> 29" "0 \<le> v" "v < 2 ^ Suc p" "2 ^ p * c = 2 ^ 32 - 2 ^ Suc p"
  shows "int_or v (int_and v (2 ^ p) * c) = (if v < 2 ^ p then v else v - 2 ^ Suc p)"
proof -
  have le: "(2::int) ^ Suc p \<le> 2 ^ 30" using assms(1) by (intro power_increasing) auto
  have v: "to_int32 v = v" using assms le by (intro to_int32_id) auto
  have "- (2 ^ 31) \<le> (0::int)" "(0::int) \<le> 2 ^ p" by simp_all
  then have q: "to_int32 (2 ^ p) = 2 ^ p" using le by (intro to_int32_id) (linarith, simp)
  have "to_int32 (2 ^ 32 - 2 ^ Suc p) = to_int32 (- (2 ^ Suc p))"
    by (rule to_int32_cong) (simp add: mod_diff_left_eq [symmetric])
  also have "\<dots> = - (2 ^ Suc p)"
  proof (rule to_int32_id)
    show "- (2 ^ 31) \<le> - (2 ^ Suc p :: int)" using le by simp
    have "(0::int) \<le> 2 ^ Suc p" "(0::int) < 2 ^ 31" by simp_all
    then show "- (2 ^ Suc p) < (2 ^ 31 :: int)" by linarith
  qed
  finally have m: "to_int32 (2 ^ 32 - 2 ^ Suc p) = - (2 ^ Suc p)" .
  have z: "to_int32 0 = 0" by (simp add: to_int32_def)
  show ?thesis
  proof (cases "v < 2 ^ p")
    case True
    then have "int_and v (2 ^ p) = 0"
      using bit_top_iff [OF assms(2,3)] v q by (simp add: int_and_def and_exp_int)
    then show ?thesis using True v z by (simp add: int_or_def)
  next
    case False
    then have "int_and v (2 ^ p) = 2 ^ p"
      using bit_top_iff [OF assms(2,3)] v q by (simp add: int_and_def and_exp_int)
    then have "int_or v (int_and v (2 ^ p) * c) = v OR (- (2 ^ Suc p))"
      using assms(4) v m by (simp only: int_or_def)
    then show ?thesis using False or_minus_exp [OF assms(2,3)] by simp
  qed
qed

lemma sign_extend_bytes:
  assumes "0 \<le> v"
  shows "v < 2 ^ 8 \<Longrightarrow> int_or v (int_and v (2 ^ 7) * 0x1fffffe) = signed_val 1 v"
    and "v < 2 ^ 16 \<Longrightarrow> int_or v (int_and v (2 ^ 15) * 0x1fffe) = signed_val 2 v"
    and "v < 2 ^ 24 \<Longrightarrow> int_or v (int_and v (2 ^ 23) * 0x1fe) = signed_val 3 v"
  using sign_extend [of 7 v "0x1fffffe"] sign_extend [of 15 v "0x1fffe"]
    sign_extend [of 23 v "0x1fe"] assms
  by (simp_all add: signed_val_def)

lemma shl_top_byte:
  assumes "0 \<le> b" "b < 256"
  shows "int_shl b 24 = signed_val 1 b * 2 ^ 24"
proof (cases "b < 128")
  case True
  then show ?thesis using assms
    by (simp add: int_shl_def signed_val_def push_bit_eq_mult to_int32_id)
next
  case False
  have "to_int32 (b * 2 ^ 24) = to_int32 ((b - 256) * 2 ^ 24)"
    by (rule to_int32_cong) (simp add: left_diff_distrib)
  also have "\<dots> = (b - 256) * 2 ^ 24" using False assms by (intro to_int32_id) auto
  finally show ?thesis using False by (simp add: int_shl_def signed_val_def push_bit_eq_mult)
qed

lemma signed_val_split:
  assumes "0 \<le> l" "l < 256 ^ m" "0 < n"
  shows "signed_val n h * 256 ^ m + l = signed_val (n + m) (h * 256 ^ m + l)"
proof -
  let ?K = "2 ^ (8 * n - 1) :: int"
  have p: "(2::int) ^ (8 * (n + m) - 1) = ?K * 256 ^ m"
  proof -
    have "8 * (n + m) - 1 = 8 * n - 1 + 8 * m" using assms(3) by simp
    then show ?thesis by (simp add: power_add power_mult)
  qed
  have q: "(2::int) ^ (8 * (n + m)) = 2 ^ (8 * n) * 256 ^ m" by (simp add: power_mult power_add distrib_left)
  have "h * 256 ^ m + l < ?K * 256 ^ m \<longleftrightarrow> h < ?K"
  proof
    assume "h * 256 ^ m + l < ?K * 256 ^ m"
    then have "h * 256 ^ m < ?K * 256 ^ m" using assms(1) by linarith
    then show "h < ?K" by simp
  next
    assume "h < ?K"
    then have "(h + 1) * 256 ^ m \<le> ?K * 256 ^ m" by (intro mult_right_mono) auto
    then show "h * 256 ^ m + l < ?K * 256 ^ m" using assms(2) by (simp add: distrib_right)
  qed
  then show ?thesis unfolding signed_val_def p q by (simp add: left_diff_distrib)
qed

lemma uint8_bounds [simp]: "0 \<le> uint (b :: 8 word)" "uint (b :: 8 word) < 256" "uint (b :: 8 word) < 2 ^ 8"
  using uint_lt2p [of b] by simp_all

lemma length_slice: "i + n \<le> length buf \<Longrightarrow> length (take n (drop i buf)) = n"
  by simp

lemma le_take_bounds:
  "i + n \<le> length buf \<Longrightarrow>
   0 \<le> le_dec (take n (drop i buf)) \<and> le_dec (take n (drop i buf)) < 256 ^ n"
  using le_dec_bounds [of "take n (drop i buf)"] by (simp only: length_slice)

lemma be_take_bounds:
  "i + n \<le> length buf \<Longrightarrow>
   0 \<le> be_dec (take n (drop i buf)) \<and> be_dec (take n (drop i buf)) < 256 ^ n"
  using le_dec_bounds [of "rev (take n (drop i buf))"]
  by (simp only: be_dec_def length_rev length_slice)

lemma le_signed_split:
  "i + (m + n) \<le> length buf \<Longrightarrow> 0 < n \<Longrightarrow> signed_val (m + n) (le_dec (take (m + n) (drop i buf)))
     = signed_val n (le_dec (take n (drop (i + m) buf))) * 256 ^ m + le_dec (take m (drop i buf))"
  using signed_val_split [of "le_dec (take m (drop i buf))" m n] le_take_bounds [of i m buf]
  by (simp add: le_slice_split add.commute mult.commute)

lemma be_signed_split:
  "i + (n + m) \<le> length buf \<Longrightarrow> 0 < n \<Longrightarrow> signed_val (n + m) (be_dec (take (n + m) (drop i buf)))
     = signed_val n (be_dec (take n (drop i buf))) * 256 ^ m + be_dec (take m (drop (i + n) buf))"
  using signed_val_split [of "be_dec (take m (drop (i + n) buf))" m n] be_take_bounds [of "i + n" m buf]
  by (simp add: be_slice_split)

subsection \<open>Signed reads at a valid offset\<close>

lemma readInt8_eq:
  "i + 1 \<le> length buf \<Longrightarrow> readInt8 buf (arg_nat i) = Inr (signed_val 1 (uint (buf ! i)))"
  using sign_extend_bytes(1) [of "uint (buf ! i)"]
  by (simp add: readInt8_def default0_def validateNumber_def)

lemma readInt_LE:
  "i + 1 \<le> length buf \<Longrightarrow> readInt8 buf (arg_nat i) = Inr (signed_val 1 (le_dec (take 1 (drop i buf))))"
  "i + 2 \<le> length buf \<Longrightarrow> readInt16LE buf (arg_nat i) = Inr (signed_val 2 (le_dec (take 2 (drop i buf))))"
  "i + 3 \<le> length buf \<Longrightarrow> readInt24LE buf (arg_nat i) = Inr (signed_val 3 (le_dec (take 3 (drop i buf))))"
  "i + 4 \<le> length buf \<Longrightarrow> readInt32LE buf (arg_nat i) = Inr (signed_val 4 (le_dec (take 4 (drop i buf))))"
  "i + 5 \<le> length buf \<Longrightarrow> readInt40LE buf (arg_nat i) = Inr (signed_val 5 (le_dec (take 5 (drop i buf))))"
  "i + 6 \<le> length buf \<Longrightarrow> readInt48LE buf (arg_nat i) = Inr (signed_val 6 (le_dec (take 6 (drop i buf))))"
proof -
  show "readInt8 buf (arg_nat i) = Inr (signed_val 1 (le_dec (take 1 (drop i buf))))"
    if "i + 1 \<le> length buf"
    using that readInt8_eq [of i buf] le_slice(1) [of i buf] by simp
  show "readInt16LE buf (arg_nat i) = Inr (signed_val 2 (le_dec (take 2 (drop i buf))))"
    if "i + 2 \<le> length buf"
    using that sign_extend_bytes(2) [of "le_dec (take 2 (drop i buf))"] le_take_bounds [of i 2 buf]
    by (simp add: readInt16LE_def read_ends_ok le_slice(2) Let_def)
  show "readInt24LE buf (arg_nat i) = Inr (signed_val 3 (le_dec (take 3 (drop i buf))))"
    if "i + 3 \<le> length buf"
    using that sign_extend_bytes(3) [of "le_dec (take 3 (drop i buf))"] le_take_bounds [of i 3 buf]
    by (simp add: readInt24LE_def read_ends_ok le_slice(3) Let_def)
  show "readInt32LE buf (arg_nat i) = Inr (signed_val 4 (le_dec (take 4 (drop i buf))))"
    if "i + 4 \<le> length buf"
    using that le_signed_split [of i 3 1 buf] le_slice(3) [of i buf] le_slice(1) [of "i + 3" buf]
    by (simp add: readInt32LE_def read_ends_ok shl_top_byte)
  show "readInt40LE buf (arg_nat i) = Inr (signed_val 5 (le_dec (take 5 (drop i buf))))"
    if "i + 5 \<le> length buf"
    using that le_signed_split [of i 4 1 buf] le_slice(4) [of i buf] le_slice(1) [of "i + 4" buf]
      sign_extend_bytes(1) [of "uint (buf ! (i + 4))"]
    by (simp add: readInt40LE_def read_ends_ok)
  show "readInt48LE buf (arg_nat i) = Inr (signed_val 6 (le_dec (take 6 (drop i buf))))"
    if "i + 6 \<le> length buf"
    using that le_signed_split [of i 4 2 buf] le_slice(4) [of i buf] le_slice(2) [of "i + 4" buf]
      sign_extend_bytes(2) [of "le_dec (take 2 (drop (i + 4) buf))"] le_take_bounds [of "i + 4" 2 buf]
    by (simp add: readInt48LE_def read_ends_ok Let_def add.commute [of 5 i])
qed

lemma readInt_BE:
  "i + 2 \<le> length buf \<Longrightarrow> readInt16BE buf (arg_nat i) = Inr (signed_val 2 (be_dec (take 2 (drop i buf))))"
  "i + 3 \<le> length buf \<Longrightarrow> readInt24BE buf (arg_nat i) = Inr (signed_val 3 (be_dec (take 3 (drop i buf))))"
  "i + 4 \<le> length buf \<Longrightarrow> readInt32BE buf (arg_nat i) = Inr (signed_val 4 (be_dec (take 4 (drop i buf))))"
  "i + 5 \<le> length buf \<Longrightarrow> readInt40BE buf (arg_nat i) = Inr (signed_val 5 (be_dec (take 5 (drop i buf))))"
  "i + 6 \<le> length buf \<Longrightarrow> readInt48BE buf (arg_nat i) = Inr (signed_val 6 (be_dec (take 6 (drop i buf))))"
proof -
  show "readInt16BE buf (arg_nat i) = Inr (signed_val 2 (be_dec (take 2 (drop i buf))))"
    if "i + 2 \<le> length buf"
    using that sign_extend_bytes(2) [of "be_dec (take 2 (drop i buf))"] be_take_bounds [of i 2 buf]
    by (simp add: readInt16BE_def read_ends_ok be_slice(2) Let_def)
  show "readInt24BE buf (arg_nat i) = Inr (signed_val 3 (be_dec (take 3 (drop i buf))))"
    if "i + 3 \<le> length buf"
    using that sign_extend_bytes(3) [of "be_dec (take 3 (drop i buf))"] be_take_bounds [of i 3 buf]
    by (simp add: readInt24BE_def read_ends_ok be_slice(3) Let_def)
  show "readInt32BE buf (arg_nat i) = Inr (signed_val 4 (be_dec (take 4 (drop i buf))))"
    if "i + 4 \<le> length buf"
    using that be_signed_split [of i 1 3 buf] be_slice(3) [of "i + 1" buf] be_slice(1) [of i buf]
      shl_top_byte [of "uint (buf ! i)"]
    by (simp add: readInt32BE_def read_ends_ok eval_nat_numeral)
  show "readInt40BE buf (arg_nat i) = Inr (signed_val 5 (be_dec (take 5 (drop i buf))))"
    if "i + 5 \<le> length buf"
    using that be_signed_split [of i 1 4 buf] be_slice(4) [of "i + 1" buf] be_slice(1) [of i buf]
      sign_extend_bytes(1) [of "uint (buf ! i)"]
    by (simp add: readInt40BE_def read_ends_ok eval_nat_numeral)
  show "readInt48BE buf (arg_nat i) = Inr (signed_val 6 (be_dec (take 6 (drop i buf))))"
    if "i + 6 \<le> length buf"
    using that be_signed_split [of i 2 4 buf] be_slice(4) [of "i + 2" buf] be_slice(2) [of i buf]
      sign_extend_bytes(2) [of "be_dec (take 2 (drop i buf))"] be_take_bounds [of i 2 buf]
    by (simp add: readInt48BE_def read_ends_ok Let_def eval_nat_numeral
        add.commute [of "uint (buf ! Suc i)"])
qed

subsection \<open>The 64 bit reads\<close>

text \<open>A buffer has at most \<^verbatim>\<open>kMaxLength\<close> bytes, so the conversion of a valid offset to 32 bits
  changes nothing.\<close>

lemma big_offset_ok:
  "i < length buf \<Longrightarrow> length buf \<le> kMaxLength \<Longrightarrow> big_offset (arg_nat i) = Inr (arg_nat i)"
proof -
  assume "i < length buf" "length buf \<le> kMaxLength"
  then have "int i mod 2 ^ 32 = int i" by (simp add: kMaxLength_def)
  then show ?thesis by (simp add: big_offset_def num_ushr_def to_uint32_mod del: num_trunc.simps)
qed

lemma readBig_LE:
  assumes "i + 8 \<le> length buf" "length buf \<le> kMaxLength"
  shows "readBigUInt64LE buf (arg_nat i) = Inr (le_dec (take 8 (drop i buf)))"
    and "readBigInt64LE buf (arg_nat i) = Inr (signed_val 8 (le_dec (take 8 (drop i buf))))"
proof -
  have o: "big_offset (arg_nat i) = Inr (arg_nat i)" using assms by (intro big_offset_ok) auto
  show "readBigUInt64LE buf (arg_nat i) = Inr (le_dec (take 8 (drop i buf)))"
    using assms(1) le_slice_split [of i 4 4 buf] le_slice(4) [of i buf] le_slice(4) [of "i + 4" buf]
    by (simp add: readBigUInt64LE_def o read_ends_ok push_bit_eq_mult Let_def
        add.commute [of 5 i] add.commute [of 6 i] add.commute [of 7 i])
  show "readBigInt64LE buf (arg_nat i) = Inr (signed_val 8 (le_dec (take 8 (drop i buf))))"
    using assms(1) le_signed_split [of i 4 4 buf] le_slice(4) [of i buf]
      le_signed_split [of "i + 4" 3 1 buf] le_slice(3) [of "i + 4" buf] le_slice(1) [of "i + 7" buf]
      shl_top_byte [of "uint (buf ! (i + 7))"]
    by (simp add: readBigInt64LE_def o read_ends_ok push_bit_eq_mult Let_def
        add.commute [of 5 i] add.commute [of 6 i] add.commute [of 7 i])
qed

lemma readBig_BE:
  assumes "i + 8 \<le> length buf" "length buf \<le> kMaxLength"
  shows "readBigUInt64BE buf (arg_nat i) = Inr (be_dec (take 8 (drop i buf)))"
    and "readBigInt64BE buf (arg_nat i) = Inr (signed_val 8 (be_dec (take 8 (drop i buf))))"
proof -
  have o: "big_offset (arg_nat i) = Inr (arg_nat i)" using assms by (intro big_offset_ok) auto
  show "readBigUInt64BE buf (arg_nat i) = Inr (be_dec (take 8 (drop i buf)))"
    using assms(1) be_slice_split [of i 4 4 buf] be_slice(4) [of i buf] be_slice(4) [of "i + 4" buf]
    by (simp add: readBigUInt64BE_def o read_ends_ok push_bit_eq_mult Let_def
        add.commute [of 5 i] add.commute [of 6 i] add.commute [of 7 i])
  have i3: "i + 3 = Suc (Suc (Suc i))" by simp
  show "readBigInt64BE buf (arg_nat i) = Inr (signed_val 8 (be_dec (take 8 (drop i buf))))"
    using assms(1) be_signed_split [of i 4 4 buf] be_slice(4) [of "i + 4" buf]
      be_signed_split [of i 1 3 buf] be_slice(3) [of "i + 1" buf] be_slice(1) [of i buf]
      shl_top_byte [of "uint (buf ! i)"]
    by (simp add: readBigInt64BE_def o read_ends_ok push_bit_eq_mult Let_def
        add.commute [of 5 i] add.commute [of 6 i] add.commute [of 7 i] i3)
qed

subsection \<open>Writes at a valid offset\<close>

lemma js_set_nat: "js_set buf (num_nat i) x = buf[i := word_of_int (num_trunc x)]"
  by (simp add: js_set_def list_update_beyond)

lemma num_add_numeral:
  "num_add (num_nat i) 1 = num_nat (i + 1)"
  "num_add (num_nat i) (numeral w) = num_nat (i + numeral w)"
  by simp_all

lemma num_less_int: "num_less (num_int a) (num_int b) \<longleftrightarrow> a < b"
  by simp

lemma checkBounds_ok:
  "i + k < length buf \<Longrightarrow> checkBounds buf (arg_nat i) (int k) = Inr (num_nat i)"
  by (simp add: checkBounds_def validateNumber_def num_add_nat del: num_add.simps of_nat_add)

lemma checked_write_ok:
  assumes "0 \<le> k" "i + nat k < length buf" "lo \<le> v" "v \<le> hi"
  shows "checked_write buf (arg_int v) (arg_nat i) lo hi k st
    = Inr (st (num_int v) (num_nat i), num_nat (i + (nat k + 1)))"
proof -
  obtain m where m: "k = int m" using assms(1) nonneg_int_cases by blast
  have "num_add (num_nat i) (int m + 1) = num_nat (i + (m + 1))"
    using num_add_nat [of i "m + 1"] by (simp add: add.commute)
  then show ?thesis
    using assms checkBounds_ok [of i m buf]
    by (simp add: checked_write_def checkInt_def numeric_less_def m
        del: num_add.simps of_nat_add num_less.simps add: num_less_int)
qed

text \<open>The bytes that \<^verbatim>\<open>value >>> 8\<close>, repeated, leaves at the bottom.\<close>

lemma word8_eq_iff: "(word_of_int a :: 8 word) = word_of_int b \<longleftrightarrow> take_bit 8 a = take_bit 8 b"
  by (simp add: word_of_int_eq_iff)

lemma num_ushr_int: "num_ushr (num_int v) 8 = num_int (drop_bit 8 (take_bit 32 v))"
  by (simp only: num_ushr_def num_trunc_int to_uint32_take_bit)

lemma shifted_bytes:
  "(word_of_int (drop_bit 8 (take_bit 32 v)) :: 8 word) = word_of_int (drop_bit 8 v)"
  "(word_of_int (drop_bit 8 (drop_bit 8 (take_bit 32 v))) :: 8 word) = word_of_int (drop_bit 16 v)"
  "(word_of_int (drop_bit 16 (drop_bit 8 (take_bit 32 v))) :: 8 word) = word_of_int (drop_bit 24 v)"
  unfolding word8_eq_iff by (rule bit_eqI; auto simp: bit_simps)+

lemma floor_shift32_int: "floor_shift32 (num_int v) = num_int (drop_bit 32 v)"
proof (cases "v = 0")
  case False
  then have "\<not> \<bar>of_int v :: rat\<bar> < 1" by (simp flip: of_int_abs)
  moreover have "\<lfloor>of_int v / 2 ^ 32 :: rat\<rfloor> = v div 2 ^ 32"
    using floor_divide_of_int_eq [of v "2 ^ 32", where ?'a = rat] by simp
  ultimately show ?thesis by (simp add: drop_bit_eq_div)
qed simp

lemma le_enc_Suc: "le_enc (Suc n) v = word_of_int v # le_enc n (drop_bit 8 v)"
  by (simp add: drop_bit_eq_div)

lemma le_enc_bytes:
  "le_enc 1 v = [word_of_int v]"
  "le_enc 2 v = [word_of_int v, word_of_int (drop_bit 8 v)]"
  "le_enc 3 v = [word_of_int v, word_of_int (drop_bit 8 v), word_of_int (drop_bit 16 v)]"
  "le_enc 4 v = [word_of_int v, word_of_int (drop_bit 8 v), word_of_int (drop_bit 16 v),
     word_of_int (drop_bit 24 v)]"
  "le_enc 5 v = [word_of_int v, word_of_int (drop_bit 8 v), word_of_int (drop_bit 16 v),
     word_of_int (drop_bit 24 v), word_of_int (drop_bit 32 v)]"
  "le_enc 6 v = [word_of_int v, word_of_int (drop_bit 8 v), word_of_int (drop_bit 16 v),
     word_of_int (drop_bit 24 v), word_of_int (drop_bit 32 v), word_of_int (drop_bit 40 v)]"
  "le_enc 8 v = [word_of_int v, word_of_int (drop_bit 8 v), word_of_int (drop_bit 16 v),
     word_of_int (drop_bit 24 v), word_of_int (drop_bit 32 v), word_of_int (drop_bit 40 v),
     word_of_int (drop_bit 48 v), word_of_int (drop_bit 56 v)]"
proof -
  have n: "(1::nat) = Suc 0" "(2::nat) = Suc 1" "(3::nat) = Suc 2" "(4::nat) = Suc 3"
    "(5::nat) = Suc 4" "(6::nat) = Suc 5" "(7::nat) = Suc 6" "(8::nat) = Suc 7" by simp_all
  have e: "le_enc 1 v = [word_of_int v]" for v by simp
  have e2: "le_enc 2 v = [word_of_int v, word_of_int (drop_bit 8 v)]" for v
    by (simp only: n(2) le_enc_Suc e)
  have e4: "le_enc 4 v = [word_of_int v, word_of_int (drop_bit 8 v), word_of_int (drop_bit 16 v),
     word_of_int (drop_bit 24 v)]" for v
    by (subst n(4), subst le_enc_Suc, subst n(3), subst le_enc_Suc) (simp add: e2)
  show "le_enc 1 v = [word_of_int v]" by (rule e)
  show "le_enc 2 v = [word_of_int v, word_of_int (drop_bit 8 v)]" by (rule e2)
  show "le_enc 3 v = [word_of_int v, word_of_int (drop_bit 8 v), word_of_int (drop_bit 16 v)]"
    by (subst n(3), subst le_enc_Suc) (simp add: e2)
  show "le_enc 4 v = [word_of_int v, word_of_int (drop_bit 8 v), word_of_int (drop_bit 16 v),
     word_of_int (drop_bit 24 v)]" by (rule e4)
  show "le_enc 5 v = [word_of_int v, word_of_int (drop_bit 8 v), word_of_int (drop_bit 16 v),
     word_of_int (drop_bit 24 v), word_of_int (drop_bit 32 v)]"
    by (subst n(5), subst le_enc_Suc) (simp add: e4)
  show "le_enc 6 v = [word_of_int v, word_of_int (drop_bit 8 v), word_of_int (drop_bit 16 v),
     word_of_int (drop_bit 24 v), word_of_int (drop_bit 32 v), word_of_int (drop_bit 40 v)]"
    by (subst n(6), subst le_enc_Suc, subst n(5), subst le_enc_Suc) (simp add: e4)
  show "le_enc 8 v = [word_of_int v, word_of_int (drop_bit 8 v), word_of_int (drop_bit 16 v),
     word_of_int (drop_bit 24 v), word_of_int (drop_bit 32 v), word_of_int (drop_bit 40 v),
     word_of_int (drop_bit 48 v), word_of_int (drop_bit 56 v)]"
    by (subst n(8), subst le_enc_Suc, subst n(7), subst le_enc_Suc, subst n(6), subst le_enc_Suc,
        subst n(5), subst le_enc_Suc) (simp add: e4)
qed

lemma overwrite_ascending:
  "i + 1 \<le> length buf \<Longrightarrow> overwrite buf i [a]
     = buf[i := a]"
  "i + 2 \<le> length buf \<Longrightarrow> overwrite buf i [a, b]
     = buf[i := a, i + 1 := b]"
  "i + 3 \<le> length buf \<Longrightarrow> overwrite buf i [a, b, c]
     = buf[i := a, i + 1 := b, i + 2 := c]"
  "i + 4 \<le> length buf \<Longrightarrow> overwrite buf i [a, b, c, d]
     = buf[i := a, i + 1 := b, i + 2 := c, i + 3 := d]"
  "i + 5 \<le> length buf \<Longrightarrow> overwrite buf i [a, b, c, d, e]
     = buf[i := a, i + 1 := b, i + 2 := c, i + 3 := d, i + 4 := e]"
  "i + 6 \<le> length buf \<Longrightarrow> overwrite buf i [a, b, c, d, e, f]
     = buf[i := a, i + 1 := b, i + 2 := c, i + 3 := d, i + 4 := e, i + 5 := f]"
  "i + 8 \<le> length buf \<Longrightarrow> overwrite buf i [a, b, c, d, e, f, g, h]
     = buf[i := a, i + 1 := b, i + 2 := c, i + 3 := d, i + 4 := e, i + 5 := f, i + 6 := g, i + 7 := h]"
  by (simp_all add: overwrite_up eval_nat_numeral)

lemma overwrite_descending:
  "i + 2 \<le> length buf \<Longrightarrow> overwrite buf i [a, b]
     = buf[i + 1 := b, i := a]"
  "i + 3 \<le> length buf \<Longrightarrow> overwrite buf i [a, b, c]
     = buf[i + 2 := c, i + 1 := b, i := a]"
  "i + 4 \<le> length buf \<Longrightarrow> overwrite buf i [a, b, c, d]
     = buf[i + 3 := d, i + 2 := c, i + 1 := b, i := a]"
  "i + 8 \<le> length buf \<Longrightarrow> overwrite buf i [a, b, c, d, e, f, g, h]
     = buf[i + 7 := h, i + 6 := g, i + 5 := f, i + 4 := e, i + 3 := d, i + 2 := c, i + 1 := b, i := a]"
  by (simp_all add: overwrite_down eval_nat_numeral)

lemma overwrite_mixed:
  "i + 5 \<le> length buf \<Longrightarrow> overwrite buf i [a, b, c, d, e]
     = buf[i := a, i + 4 := e, i + 3 := d, i + 2 := c, i + 1 := b]"
  "i + 6 \<le> length buf \<Longrightarrow> overwrite buf i [a, b, c, d, e, f]
     = buf[i := a, i + 1 := b, i + 5 := f, i + 4 := e, i + 3 := d, i + 2 := c]"
proof -
  show "overwrite buf i [a, b, c, d, e] = buf[i := a, i + 4 := e, i + 3 := d, i + 2 := c, i + 1 := b]"
    if "i + 5 \<le> length buf"
    using that by (subst overwrite_up) (simp_all add: overwrite_down eval_nat_numeral)
  show "overwrite buf i [a, b, c, d, e, f]
      = buf[i := a, i + 1 := b, i + 5 := f, i + 4 := e, i + 3 := d, i + 2 := c]"
    if "i + 6 \<le> length buf"
    using that
    by (subst overwrite_up, simp, subst overwrite_up) (simp_all add: overwrite_down eval_nat_numeral)
qed

lemma checked_write_widths:
  assumes "lo \<le> v" "v \<le> hi"
  shows "i + 2 \<le> length buf \<Longrightarrow> checked_write buf (arg_int v) (arg_nat i) lo hi 1 st
      = Inr (st (num_int v) (num_nat i), num_nat (i + 2))"
    and "i + 3 \<le> length buf \<Longrightarrow> checked_write buf (arg_int v) (arg_nat i) lo hi 2 st
      = Inr (st (num_int v) (num_nat i), num_nat (i + 3))"
    and "i + 4 \<le> length buf \<Longrightarrow> checked_write buf (arg_int v) (arg_nat i) lo hi 3 st
      = Inr (st (num_int v) (num_nat i), num_nat (i + 4))"
    and "i + 5 \<le> length buf \<Longrightarrow> checked_write buf (arg_int v) (arg_nat i) lo hi 4 st
      = Inr (st (num_int v) (num_nat i), num_nat (i + 5))"
    and "i + 6 \<le> length buf \<Longrightarrow> checked_write buf (arg_int v) (arg_nat i) lo hi 5 st
      = Inr (st (num_int v) (num_nat i), num_nat (i + 6))"
  using assms checked_write_ok [of 1 i buf] checked_write_ok [of 2 i buf]
    checked_write_ok [of 3 i buf] checked_write_ok [of 4 i buf] checked_write_ok [of 5 i buf]
  by simp_all

lemma drop_bit_40: "drop_bit 8 (drop_bit 32 (v::int)) = drop_bit 40 v"
  by simp

lemmas store_simps = checked_write_widths js_set_nat num_add_numeral num_ushr_int num_trunc_int
  shifted_bytes floor_shift32_int drop_bit_40 Let_def

lemmas enc_simps = le_enc_bytes be_enc_def rev.simps append.simps

lemma writeU_Int8_ok:
  assumes "i + 1 \<le> length buf" "lo \<le> v" "v \<le> hi"
  shows "writeU_Int8 buf (arg_int v) (arg_nat i) lo hi
    = Inr (overwrite buf i (le_enc 1 v), num_nat (i + 1))"
proof -
  have "num_add (num_nat i) 1 = num_nat (i + 1)" by simp
  then show ?thesis
    using assms overwrite_ascending(1) [of i buf]
    by (simp add: writeU_Int8_def validateNumber_def js_set_nat num_less_int
        del: num_add.simps num_less.simps num_trunc.simps)
qed

lemma writeU_Int16LE_ok:
  assumes "i + 2 \<le> length buf" "lo \<le> v" "v \<le> hi"
  shows "writeU_Int16LE buf (arg_int v) (arg_nat i) lo hi
    = Inr (overwrite buf i (le_enc 2 v), num_nat (i + 2))"
  by (simp only: writeU_Int16LE_def store_simps enc_simps assms overwrite_ascending(2))

lemma writeU_Int16BE_ok:
  assumes "i + 2 \<le> length buf" "lo \<le> v" "v \<le> hi"
  shows "writeU_Int16BE buf (arg_int v) (arg_nat i) lo hi
    = Inr (overwrite buf i (be_enc 2 v), num_nat (i + 2))"
  by (simp only: writeU_Int16BE_def store_simps enc_simps assms overwrite_ascending(2))

lemma writeU_Int24LE_ok:
  assumes "i + 3 \<le> length buf" "lo \<le> v" "v \<le> hi"
  shows "writeU_Int24LE buf (arg_int v) (arg_nat i) lo hi
    = Inr (overwrite buf i (le_enc 3 v), num_nat (i + 3))"
  by (simp only: writeU_Int24LE_def store_simps enc_simps assms overwrite_ascending(3))

lemma writeU_Int24BE_ok:
  assumes "i + 3 \<le> length buf" "lo \<le> v" "v \<le> hi"
  shows "writeU_Int24BE buf (arg_int v) (arg_nat i) lo hi
    = Inr (overwrite buf i (be_enc 3 v), num_nat (i + 3))"
  by (simp only: writeU_Int24BE_def store_simps enc_simps assms overwrite_descending(2))

lemma writeU_Int32LE_ok:
  assumes "i + 4 \<le> length buf" "lo \<le> v" "v \<le> hi"
  shows "writeU_Int32LE buf (arg_int v) (arg_nat i) lo hi
    = Inr (overwrite buf i (le_enc 4 v), num_nat (i + 4))"
  by (simp only: writeU_Int32LE_def store_simps enc_simps assms overwrite_ascending(4))

lemma writeU_Int32BE_ok:
  assumes "i + 4 \<le> length buf" "lo \<le> v" "v \<le> hi"
  shows "writeU_Int32BE buf (arg_int v) (arg_nat i) lo hi
    = Inr (overwrite buf i (be_enc 4 v), num_nat (i + 4))"
  by (simp only: writeU_Int32BE_def store_simps enc_simps assms overwrite_descending(3))

lemma writeU_Int40LE_ok:
  assumes "i + 5 \<le> length buf" "lo \<le> v" "v \<le> hi"
  shows "writeU_Int40LE buf (arg_int v) (arg_nat i) lo hi
    = Inr (overwrite buf i (le_enc 5 v), num_nat (i + 5))"
  by (simp only: writeU_Int40LE_def store_simps enc_simps assms overwrite_ascending(5))

lemma writeU_Int40BE_ok:
  assumes "i + 5 \<le> length buf" "lo \<le> v" "v \<le> hi"
  shows "writeU_Int40BE buf (arg_int v) (arg_nat i) lo hi
    = Inr (overwrite buf i (be_enc 5 v), num_nat (i + 5))"
  by (simp only: writeU_Int40BE_def store_simps enc_simps assms overwrite_mixed(1))

lemma writeU_Int48LE_ok:
  assumes "i + 6 \<le> length buf" "lo \<le> v" "v \<le> hi"
  shows "writeU_Int48LE buf (arg_int v) (arg_nat i) lo hi
    = Inr (overwrite buf i (le_enc 6 v), num_nat (i + 6))"
  by (simp only: writeU_Int48LE_def store_simps enc_simps assms overwrite_ascending(6))

lemma writeU_Int48BE_ok:
  assumes "i + 6 \<le> length buf" "lo \<le> v" "v \<le> hi"
  shows "writeU_Int48BE buf (arg_int v) (arg_nat i) lo hi
    = Inr (overwrite buf i (be_enc 6 v), num_nat (i + 6))"
  by (simp only: writeU_Int48BE_def store_simps enc_simps assms overwrite_mixed(2))

lemma write_UInt32LE_ok:
  assumes "i + 4 \<le> length buf" "lo \<le> v" "v \<le> hi"
  shows "write_UInt32LE buf (arg_int v) (arg_nat i) lo hi
    = Inr (overwrite buf i (le_enc 4 v), num_nat (i + 4))"
  by (simp only: write_UInt32LE_def store_simps enc_simps assms overwrite_ascending(4))

lemma write_UInt32BE_ok:
  assumes "i + 4 \<le> length buf" "lo \<le> v" "v \<le> hi"
  shows "write_UInt32BE buf (arg_int v) (arg_nat i) lo hi
    = Inr (overwrite buf i (be_enc 4 v), num_nat (i + 4))"
  by (simp only: write_UInt32BE_def store_simps enc_simps assms overwrite_descending(3))

subsection \<open>The 64 bit writes\<close>

lemma checked_big_write_ok:
  assumes "i + 8 \<le> length buf" "lo \<le> v" "v \<le> hi"
  shows "checked_big_write buf (BigInt v) (arg_nat i) lo hi st
    = Inr (st v (num_nat i), num_nat (i + 8))"
  using assms checkBounds_ok [of i 7 buf]
  by (simp add: checked_big_write_def checkIntBI_def numeric_less_def num_add_numeral num_less_int
      del: num_add.simps of_nat_add num_less.simps)

lemma and_low32: "(v::int) AND 4294967295 = take_bit 32 v"
proof -
  have "(4294967295::int) = mask 32" by (simp add: mask_eq_exp_minus_1)
  then show ?thesis by (simp only: take_bit_eq_mask)
qed

lemma big_bytes:
  fixes v x :: int
  shows "(word_of_int (take_bit 32 v) :: 8 word) = word_of_int v"
    and "(word_of_int (drop_bit 8 (take_bit 32 v)) :: 8 word) = word_of_int (drop_bit 8 v)"
    and "(word_of_int (drop_bit 16 (take_bit 32 v)) :: 8 word) = word_of_int (drop_bit 16 v)"
    and "(word_of_int (drop_bit 24 (take_bit 32 v)) :: 8 word) = word_of_int (drop_bit 24 v)"
    and "(word_of_int (int_sshr x 8) :: 8 word) = word_of_int (drop_bit 8 x)"
    and "(word_of_int (drop_bit 8 (int_sshr x 8)) :: 8 word) = word_of_int (drop_bit 16 x)"
    and "(word_of_int (drop_bit 16 (int_sshr x 8)) :: 8 word) = word_of_int (drop_bit 24 x)"
  unfolding word8_eq_iff int_sshr_def to_int32_signed by (rule bit_eqI; auto simp: bit_simps)+

lemma drop_bit_high:
  "drop_bit 8 (drop_bit 32 (v::int)) = drop_bit 40 v"
  "drop_bit 16 (drop_bit 32 (v::int)) = drop_bit 48 v"
  "drop_bit 24 (drop_bit 32 (v::int)) = drop_bit 56 v"
  by simp_all

lemmas big_store_simps = checked_big_write_ok js_set_nat num_add_numeral num_trunc_int
  and_low32 big_bytes drop_bit_high Let_def

lemma wrtBigUInt64LE_ok:
  assumes "i + 8 \<le> length buf" "lo \<le> v" "v \<le> hi"
  shows "wrtBigUInt64LE buf (BigInt v) (arg_nat i) lo hi
    = Inr (overwrite buf i (le_enc 8 v), num_nat (i + 8))"
  by (simp only: wrtBigUInt64LE_def big_store_simps enc_simps assms overwrite_ascending(7))

lemma wrtBigUInt64BE_ok:
  assumes "i + 8 \<le> length buf" "lo \<le> v" "v \<le> hi"
  shows "wrtBigUInt64BE buf (BigInt v) (arg_nat i) lo hi
    = Inr (overwrite buf i (be_enc 8 v), num_nat (i + 8))"
  by (simp only: wrtBigUInt64BE_def big_store_simps enc_simps assms overwrite_descending(4))

end
