(* ===== verification/Buffer_Int_Round_Trip.thy ===== *)
theory Buffer_Int_Round_Trip
  imports Buffer_Int_Access
begin

text \<open>
  The contract \<open>int_accessor\<close> for every pair of a read and a write of
  \<^verbatim>\<open>internal/buffer.mjs\<close>, and the properties of the integer accessors: round trips in both
  byte orders, the values a read can return, and the exceptions of calls that do not fit.
\<close>

subsection \<open>The entry points that take a width\<close>

lemma width_cases:
  assumes "0 < n" "n \<le> (6::nat)"
  obtains "n = 1" | "n = 2" | "n = 3" | "n = 4" | "n = 5" | "n = 6"
  using assms by linarith

lemma is_num_nat [simp]: "is_num (arg_nat n) k \<longleftrightarrow> int n = k"
  by (auto simp: is_num_def)

lemmas width_eqs = readUIntLE_def readUIntBE_def readIntLE_def readIntBE_def
  writeUIntLE_def writeUIntBE_def writeIntLE_def writeIntBE_def

lemma be_one: "be_dec (take 1 (drop i buf)) = le_dec (take 1 (drop i buf))" "be_enc 1 v = le_enc 1 v"
  by (cases "drop i buf") (simp_all add: be_dec_def be_enc_def)

lemma readUIntLE_ok:
  assumes "0 < n" "n \<le> 6" "i + n \<le> length buf"
  shows "readUIntLE buf (arg_nat i) (arg_nat n) = Inr (le_dec (take n (drop i buf)))"
  using assms(1,2) by (rule width_cases) (use assms(3) in \<open>simp_all only: readUIntLE_def is_num_nat readUInt_LE, simp_all\<close>)

lemma readUIntBE_ok:
  assumes "0 < n" "n \<le> 6" "i + n \<le> length buf"
  shows "readUIntBE buf (arg_nat i) (arg_nat n) = Inr (be_dec (take n (drop i buf)))"
  using assms(1,2) by (rule width_cases) (use assms(3) in \<open>simp_all only: readUIntBE_def is_num_nat readUInt_BE readUInt_LE(1) be_one, simp_all\<close>)

lemma readIntLE_ok:
  assumes "0 < n" "n \<le> 6" "i + n \<le> length buf"
  shows "readIntLE buf (arg_nat i) (arg_nat n) = Inr (signed_val n (le_dec (take n (drop i buf))))"
  using assms(1,2) by (rule width_cases) (use assms(3) in \<open>simp_all only: readIntLE_def is_num_nat readInt_LE, simp_all\<close>)

lemma readIntBE_ok:
  assumes "0 < n" "n \<le> 6" "i + n \<le> length buf"
  shows "readIntBE buf (arg_nat i) (arg_nat n) = Inr (signed_val n (be_dec (take n (drop i buf))))"
  using assms(1,2) by (rule width_cases) (use assms(3) in \<open>simp_all only: readIntBE_def is_num_nat readInt_BE readInt_LE(1) be_one, simp_all\<close>)

lemma writeUIntLE_ok:
  assumes "0 < n" "n \<le> 6" "i + n \<le> length buf" "0 \<le> v" "v < 256 ^ n"
  shows "writeUIntLE buf (arg_int v) (arg_nat i) (arg_nat n)
    = Inr (overwrite buf i (le_enc n v), num_nat (i + n))"
  using assms(1,2)
proof (rule width_cases)
  show ?thesis if "n = 1"
    using assms(3-) writeU_Int8_ok [of i buf] unfolding that writeUIntLE_def is_num_nat by (simp)
  show ?thesis if "n = 2"
    using assms(3-) writeU_Int16LE_ok [of i buf] unfolding that writeUIntLE_def is_num_nat by (simp)
  show ?thesis if "n = 3"
    using assms(3-) writeU_Int24LE_ok [of i buf] unfolding that writeUIntLE_def is_num_nat by (simp)
  show ?thesis if "n = 4"
    using assms(3-) writeU_Int32LE_ok [of i buf] unfolding that writeUIntLE_def is_num_nat by (simp)
  show ?thesis if "n = 5"
    using assms(3-) writeU_Int40LE_ok [of i buf] unfolding that writeUIntLE_def is_num_nat by (simp)
  show ?thesis if "n = 6"
    using assms(3-) writeU_Int48LE_ok [of i buf] unfolding that writeUIntLE_def is_num_nat by (simp)
qed

lemma writeUIntBE_ok:
  assumes "0 < n" "n \<le> 6" "i + n \<le> length buf" "0 \<le> v" "v < 256 ^ n"
  shows "writeUIntBE buf (arg_int v) (arg_nat i) (arg_nat n)
    = Inr (overwrite buf i (be_enc n v), num_nat (i + n))"
  using assms(1,2)
proof (rule width_cases)
  show ?thesis if "n = 1"
    using assms(3-) writeU_Int8_ok [of i buf] unfolding that writeUIntBE_def is_num_nat by (simp add: be_one(2)[simplified])
  show ?thesis if "n = 2"
    using assms(3-) writeU_Int16BE_ok [of i buf] unfolding that writeUIntBE_def is_num_nat by (simp)
  show ?thesis if "n = 3"
    using assms(3-) writeU_Int24BE_ok [of i buf] unfolding that writeUIntBE_def is_num_nat by (simp)
  show ?thesis if "n = 4"
    using assms(3-) writeU_Int32BE_ok [of i buf] unfolding that writeUIntBE_def is_num_nat by (simp)
  show ?thesis if "n = 5"
    using assms(3-) writeU_Int40BE_ok [of i buf] unfolding that writeUIntBE_def is_num_nat by (simp)
  show ?thesis if "n = 6"
    using assms(3-) writeU_Int48BE_ok [of i buf] unfolding that writeUIntBE_def is_num_nat by (simp)
qed

lemma writeIntLE_ok:
  assumes "0 < n" "n \<le> 6" "i + n \<le> length buf" "- (2 ^ (8 * n - 1)) \<le> v" "v < 2 ^ (8 * n - 1)"
  shows "writeIntLE buf (arg_int v) (arg_nat i) (arg_nat n)
    = Inr (overwrite buf i (le_enc n v), num_nat (i + n))"
  using assms(1,2)
proof (rule width_cases)
  show ?thesis if "n = 1"
    using assms(3-) writeU_Int8_ok [of i buf] unfolding that writeIntLE_def is_num_nat by (simp)
  show ?thesis if "n = 2"
    using assms(3-) writeU_Int16LE_ok [of i buf] unfolding that writeIntLE_def is_num_nat by (simp)
  show ?thesis if "n = 3"
    using assms(3-) writeU_Int24LE_ok [of i buf] unfolding that writeIntLE_def is_num_nat by (simp)
  show ?thesis if "n = 4"
    using assms(3-) writeU_Int32LE_ok [of i buf] unfolding that writeIntLE_def is_num_nat by (simp)
  show ?thesis if "n = 5"
    using assms(3-) writeU_Int40LE_ok [of i buf] unfolding that writeIntLE_def is_num_nat by (simp)
  show ?thesis if "n = 6"
    using assms(3-) writeU_Int48LE_ok [of i buf] unfolding that writeIntLE_def is_num_nat by (simp)
qed

lemma writeIntBE_ok:
  assumes "0 < n" "n \<le> 6" "i + n \<le> length buf" "- (2 ^ (8 * n - 1)) \<le> v" "v < 2 ^ (8 * n - 1)"
  shows "writeIntBE buf (arg_int v) (arg_nat i) (arg_nat n)
    = Inr (overwrite buf i (be_enc n v), num_nat (i + n))"
  using assms(1,2)
proof (rule width_cases)
  show ?thesis if "n = 1"
    using assms(3-) writeU_Int8_ok [of i buf] unfolding that writeIntBE_def is_num_nat by (simp add: be_one(2)[simplified])
  show ?thesis if "n = 2"
    using assms(3-) writeU_Int16BE_ok [of i buf] unfolding that writeIntBE_def is_num_nat by (simp)
  show ?thesis if "n = 3"
    using assms(3-) writeU_Int24BE_ok [of i buf] unfolding that writeIntBE_def is_num_nat by (simp)
  show ?thesis if "n = 4"
    using assms(3-) writeU_Int32BE_ok [of i buf] unfolding that writeIntBE_def is_num_nat by (simp)
  show ?thesis if "n = 5"
    using assms(3-) writeU_Int40BE_ok [of i buf] unfolding that writeIntBE_def is_num_nat by (simp)
  show ?thesis if "n = 6"
    using assms(3-) writeU_Int48BE_ok [of i buf] unfolding that writeIntBE_def is_num_nat by (simp)
qed

subsection \<open>The contract holds of every pair\<close>

lemma codec_bounds:
  assumes "d = le_dec \<and> e = le_enc n \<or> d = be_dec \<and> e = be_enc n"
  shows "length (e v) = n" "d (e v) = v mod 256 ^ n"
    and "length bs = n \<Longrightarrow> 0 \<le> d bs \<and> d bs < 256 ^ n"
  using assms le_dec_bounds [of bs] le_dec_bounds [of "rev bs"]
  by (auto simp: le_dec_enc be_dec_def be_enc_def)

lemma unsigned_accessor:
  assumes "d = le_dec \<and> e = le_enc n \<or> d = be_dec \<and> e = be_enc n"
    and "\<And>i buf. i + n \<le> length buf \<Longrightarrow> length buf \<le> kMaxLength \<Longrightarrow>
      rd buf i = Inr (d (take n (drop i buf)))"
    and "\<And>i buf v. i + n \<le> length buf \<Longrightarrow> length buf \<le> kMaxLength \<Longrightarrow> 0 \<le> v \<Longrightarrow> v < 256 ^ n \<Longrightarrow>
      wr buf v i = Inr (overwrite buf i (e v), num_nat (i + n))"
  shows "int_accessor n 0 (256 ^ n - 1) rd wr e d"
proof
  show "length (e v) = n" for v by (rule codec_bounds(1) [OF assms(1)])
  show "d (e v) = v" if "0 \<le> v" "v \<le> 256 ^ n - 1" for v
    using that codec_bounds(2) [OF assms(1)] by simp
  show "0 \<le> d bs \<and> d bs \<le> 256 ^ n - 1" if "length bs = n" for bs
    using that codec_bounds(3) [OF assms(1)] by simp
qed (use assms(2,3) in simp_all)

lemma signed_accessor:
  assumes "d = le_dec \<and> e = le_enc n \<or> d = be_dec \<and> e = be_enc n" "0 < n"
    and "\<And>i buf. i + n \<le> length buf \<Longrightarrow> length buf \<le> kMaxLength \<Longrightarrow>
      rd buf i = Inr (signed_val n (d (take n (drop i buf))))"
    and "\<And>i buf v. i + n \<le> length buf \<Longrightarrow> length buf \<le> kMaxLength \<Longrightarrow>
      - (2 ^ (8 * n - 1)) \<le> v \<Longrightarrow> v < 2 ^ (8 * n - 1) \<Longrightarrow>
      wr buf v i = Inr (overwrite buf i (e v), num_nat (i + n))"
  shows "int_accessor n (- (2 ^ (8 * n - 1))) (2 ^ (8 * n - 1) - 1) rd wr e (\<lambda>bs. signed_val n (d bs))"
proof
  show "length (e v) = n" for v by (rule codec_bounds(1) [OF assms(1)])
  show "signed_val n (d (e v)) = v" if "- (2 ^ (8 * n - 1)) \<le> v" "v \<le> 2 ^ (8 * n - 1) - 1" for v
    using that codec_bounds(2) [OF assms(1)] signed_val_mod [OF assms(2)] by simp
  show "- (2 ^ (8 * n - 1)) \<le> signed_val n (d bs) \<and> signed_val n (d bs) \<le> 2 ^ (8 * n - 1) - 1"
    if "length bs = n" for bs
    using that codec_bounds(3) [OF assms(1)] signed_val_bounds [of "d bs" n] assms(2) by simp
qed (use assms(3,4) in simp_all)

abbreviation rd_width :: "(bytes \<Rightarrow> js_arg \<Rightarrow> js_arg \<Rightarrow> int result) \<Rightarrow> nat \<Rightarrow> bytes \<Rightarrow> nat \<Rightarrow> int result" where
  "rd_width f n \<equiv> \<lambda>buf i. f buf (arg_nat i) (arg_nat n)"

abbreviation wr_width ::
  "(bytes \<Rightarrow> js_arg \<Rightarrow> js_arg \<Rightarrow> js_arg \<Rightarrow> (bytes \<times> js_num) result) \<Rightarrow> nat \<Rightarrow>
   bytes \<Rightarrow> int \<Rightarrow> nat \<Rightarrow> (bytes \<times> js_num) result" where
  "wr_width f n \<equiv> \<lambda>buf v i. f buf (arg_int v) (arg_nat i) (arg_nat n)"

lemma width_accessors:
  assumes "0 < n" "n \<le> 6"
  shows "int_accessor n 0 (256 ^ n - 1) (rd_width readUIntLE n) (wr_width writeUIntLE n) (le_enc n) le_dec"
    and "int_accessor n 0 (256 ^ n - 1) (rd_width readUIntBE n) (wr_width writeUIntBE n) (be_enc n) be_dec"
    and "int_accessor n (- (2 ^ (8 * n - 1))) (2 ^ (8 * n - 1) - 1)
      (rd_width readIntLE n) (wr_width writeIntLE n) (le_enc n) (\<lambda>bs. signed_val n (le_dec bs))"
    and "int_accessor n (- (2 ^ (8 * n - 1))) (2 ^ (8 * n - 1) - 1)
      (rd_width readIntBE n) (wr_width writeIntBE n) (be_enc n) (\<lambda>bs. signed_val n (be_dec bs))"
  by (intro unsigned_accessor signed_accessor;
      simp add: assms readUIntLE_ok readUIntBE_ok readIntLE_ok readIntBE_ok
        writeUIntLE_ok writeUIntBE_ok writeIntLE_ok writeIntBE_ok)+

abbreviation rd_at :: "(bytes \<Rightarrow> js_arg \<Rightarrow> int result) \<Rightarrow> bytes \<Rightarrow> nat \<Rightarrow> int result" where
  "rd_at f \<equiv> \<lambda>buf i. f buf (arg_nat i)"

abbreviation wr_at ::
  "(bytes \<Rightarrow> js_arg \<Rightarrow> js_arg \<Rightarrow> (bytes \<times> js_num) result) \<Rightarrow>
   bytes \<Rightarrow> int \<Rightarrow> nat \<Rightarrow> (bytes \<times> js_num) result" where
  "wr_at f \<equiv> \<lambda>buf v i. f buf (arg_int v) (arg_nat i)"

abbreviation wr_big ::
  "(bytes \<Rightarrow> js_numeric \<Rightarrow> js_arg \<Rightarrow> (bytes \<times> js_num) result) \<Rightarrow>
   bytes \<Rightarrow> int \<Rightarrow> nat \<Rightarrow> (bytes \<times> js_num) result" where
  "wr_big f \<equiv> \<lambda>buf v i. f buf (BigInt v) (arg_nat i)"

interpretation u8: int_accessor 1 "0" "256 ^ 1 - 1" "rd_at readUInt8" "wr_at writeUInt8" "le_enc 1" le_dec
  by (rule unsigned_accessor) (simp_all add: writeUInt8_def default0_def writeU_Int8_ok[simplified] readUInt_LE(1)[simplified])

interpretation u16le: int_accessor 2 "0" "256 ^ 2 - 1" "rd_at readUInt16LE" "wr_at writeUInt16LE" "le_enc 2" le_dec
  by (rule unsigned_accessor) (simp_all add: writeUInt16LE_def default0_def writeU_Int16LE_ok readUInt_LE)

interpretation u16be: int_accessor 2 "0" "256 ^ 2 - 1" "rd_at readUInt16BE" "wr_at writeUInt16BE" "be_enc 2" be_dec
  by (rule unsigned_accessor) (simp_all add: writeUInt16BE_def default0_def writeU_Int16BE_ok readUInt_BE)

interpretation u32le: int_accessor 4 "0" "256 ^ 4 - 1" "rd_at readUInt32LE" "wr_at writeUInt32LE" "le_enc 4" le_dec
  by (rule unsigned_accessor) (simp_all add: writeUInt32LE_def default0_def write_UInt32LE_ok readUInt_LE)

interpretation u32be: int_accessor 4 "0" "256 ^ 4 - 1" "rd_at readUInt32BE" "wr_at writeUInt32BE" "be_enc 4" be_dec
  by (rule unsigned_accessor) (simp_all add: writeUInt32BE_def default0_def write_UInt32BE_ok readUInt_BE)

interpretation s8: int_accessor 1 "- (2 ^ (8 * 1 - 1))" "2 ^ (8 * 1 - 1) - 1" "rd_at readInt8" "wr_at writeInt8" "le_enc 1" "\<lambda>bs. signed_val 1 (le_dec bs)"
  by (rule signed_accessor) (simp_all add: writeInt8_def default0_def writeU_Int8_ok[simplified] readInt_LE(1)[simplified])

interpretation s16le: int_accessor 2 "- (2 ^ (8 * 2 - 1))" "2 ^ (8 * 2 - 1) - 1" "rd_at readInt16LE" "wr_at writeInt16LE" "le_enc 2" "\<lambda>bs. signed_val 2 (le_dec bs)"
  by (rule signed_accessor) (simp_all add: writeInt16LE_def default0_def writeU_Int16LE_ok readInt_LE)

interpretation s16be: int_accessor 2 "- (2 ^ (8 * 2 - 1))" "2 ^ (8 * 2 - 1) - 1" "rd_at readInt16BE" "wr_at writeInt16BE" "be_enc 2" "\<lambda>bs. signed_val 2 (be_dec bs)"
  by (rule signed_accessor) (simp_all add: writeInt16BE_def default0_def writeU_Int16BE_ok readInt_BE)

interpretation s32le: int_accessor 4 "- (2 ^ (8 * 4 - 1))" "2 ^ (8 * 4 - 1) - 1" "rd_at readInt32LE" "wr_at writeInt32LE" "le_enc 4" "\<lambda>bs. signed_val 4 (le_dec bs)"
  by (rule signed_accessor) (simp_all add: writeInt32LE_def default0_def writeU_Int32LE_ok readInt_LE)

interpretation s32be: int_accessor 4 "- (2 ^ (8 * 4 - 1))" "2 ^ (8 * 4 - 1) - 1" "rd_at readInt32BE" "wr_at writeInt32BE" "be_enc 4" "\<lambda>bs. signed_val 4 (be_dec bs)"
  by (rule signed_accessor) (simp_all add: writeInt32BE_def default0_def writeU_Int32BE_ok readInt_BE)

interpretation ubigle: int_accessor 8 "0" "256 ^ 8 - 1" "rd_at readBigUInt64LE" "wr_big writeBigUInt64LE" "le_enc 8" le_dec
  by (rule unsigned_accessor) (simp_all add: writeBigUInt64LE_def default0_def readBig_LE wrtBigUInt64LE_ok)

interpretation ubigbe: int_accessor 8 "0" "256 ^ 8 - 1" "rd_at readBigUInt64BE" "wr_big writeBigUInt64BE" "be_enc 8" be_dec
  by (rule unsigned_accessor) (simp_all add: writeBigUInt64BE_def default0_def readBig_BE wrtBigUInt64BE_ok)

interpretation sbigle: int_accessor 8 "- (2 ^ (8 * 8 - 1))" "2 ^ (8 * 8 - 1) - 1" "rd_at readBigInt64LE" "wr_big writeBigInt64LE" "le_enc 8" "\<lambda>bs. signed_val 8 (le_dec bs)"
  by (rule signed_accessor) (simp_all add: writeBigInt64LE_def default0_def readBig_LE wrtBigUInt64LE_ok)

interpretation sbigbe: int_accessor 8 "- (2 ^ (8 * 8 - 1))" "2 ^ (8 * 8 - 1) - 1" "rd_at readBigInt64BE" "wr_big writeBigInt64BE" "be_enc 8" "\<lambda>bs. signed_val 8 (be_dec bs)"
  by (rule signed_accessor) (simp_all add: writeBigInt64BE_def default0_def readBig_BE wrtBigUInt64BE_ok)

subsection \<open>Properties\<close>

text \<open>C5. An unsigned value of \<open>n\<close> bytes (\<open>n\<close> from 1 to 6) written with
  \<^verbatim>\<open>writeUIntLE\<close> or \<^verbatim>\<open>writeUIntBE\<close> at an offset where it fits is read back by the read of the
  same byte order, the call returns the offset after the field, and no byte outside the field
  changes.\<close>

theorem uint_round_trip:
  assumes "0 < n" "n \<le> 6" "i + n \<le> length buf" "length buf \<le> kMaxLength" "0 \<le> v" "v < 256 ^ n"
  shows "(\<exists>buf'. writeUIntLE buf (arg_int v) (arg_nat i) (arg_nat n) = Inr (buf', num_nat (i + n))
      \<and> readUIntLE buf' (arg_nat i) (arg_nat n) = Inr v \<and> length buf' = length buf
      \<and> take i buf' = take i buf \<and> drop (i + n) buf' = drop (i + n) buf)
    \<and> (\<exists>buf'. writeUIntBE buf (arg_int v) (arg_nat i) (arg_nat n) = Inr (buf', num_nat (i + n))
      \<and> readUIntBE buf' (arg_nat i) (arg_nat n) = Inr v \<and> length buf' = length buf
      \<and> take i buf' = take i buf \<and> drop (i + n) buf' = drop (i + n) buf)"
  using int_accessor.round_trip [OF width_accessors(1) [OF assms(1,2)] assms(3,4)]
    int_accessor.round_trip [OF width_accessors(2) [OF assms(1,2)] assms(3,4)] assms(5,6) by simp

theorem uint_round_trip_witness:
  "(0::nat) < 3 \<and> (\<exists>buf'. writeUIntBE [1, 2, 3, 4, 5] (arg_int 65538) (arg_nat 1) (arg_nat 3)
      = Inr (buf', num_nat 4) \<and> readUIntBE buf' (arg_nat 1) (arg_nat 3) = Inr 65538)"
  using uint_round_trip [of 3 1 "[1, 2, 3, 4, 5]" 65538] by (auto simp: kMaxLength_def)

text \<open>C22. A signed value of \<open>n\<close> bytes in two's complement makes the same round trip through
  \<^verbatim>\<open>writeIntLE\<close> and \<^verbatim>\<open>readIntLE\<close>, and through \<^verbatim>\<open>writeIntBE\<close> and \<^verbatim>\<open>readIntBE\<close>.\<close>

theorem int_round_trip:
  assumes "0 < n" "n \<le> 6" "i + n \<le> length buf" "length buf \<le> kMaxLength"
    and "- (2 ^ (8 * n - 1)) \<le> v" "v < 2 ^ (8 * n - 1)"
  shows "(\<exists>buf'. writeIntLE buf (arg_int v) (arg_nat i) (arg_nat n) = Inr (buf', num_nat (i + n))
      \<and> readIntLE buf' (arg_nat i) (arg_nat n) = Inr v \<and> length buf' = length buf
      \<and> take i buf' = take i buf \<and> drop (i + n) buf' = drop (i + n) buf)
    \<and> (\<exists>buf'. writeIntBE buf (arg_int v) (arg_nat i) (arg_nat n) = Inr (buf', num_nat (i + n))
      \<and> readIntBE buf' (arg_nat i) (arg_nat n) = Inr v \<and> length buf' = length buf
      \<and> take i buf' = take i buf \<and> drop (i + n) buf' = drop (i + n) buf)"
  using int_accessor.round_trip [OF width_accessors(3) [OF assms(1,2)] assms(3,4,5)]
    int_accessor.round_trip [OF width_accessors(4) [OF assms(1,2)] assms(3,4,5)] assms(6) by simp

theorem int_round_trip_witness:
  "(0::nat) < 5 \<and> (\<exists>buf'. writeIntLE [0, 0, 0, 0, 0, 7] (arg_int (- 3)) (arg_nat 0) (arg_nat 5)
      = Inr (buf', num_nat 5) \<and> readIntLE buf' (arg_nat 0) (arg_nat 5) = Inr (- 3))"
  using int_round_trip [of 5 0 "[0, 0, 0, 0, 0, 7]" "- 3"] by (auto simp: kMaxLength_def)

text \<open>C21. The 64 bit accessors: a \<^verbatim>\<open>BigInt\<close> in the unsigned or the signed range of 64 bits,
  written in either byte order, is read back, and no byte outside the eight of the field
  changes.\<close>

theorem big_round_trip:
  assumes "i + 8 \<le> length buf" "length buf \<le> kMaxLength" "0 \<le> u" "u < 2 ^ 64"
    and "- (2 ^ 63) \<le> v" "v < 2 ^ 63"
  shows "(\<exists>buf'. writeBigUInt64LE buf (BigInt u) (arg_nat i) = Inr (buf', num_nat (i + 8))
      \<and> readBigUInt64LE buf' (arg_nat i) = Inr u \<and> length buf' = length buf
      \<and> take i buf' = take i buf \<and> drop (i + 8) buf' = drop (i + 8) buf)
    \<and> (\<exists>buf'. writeBigUInt64BE buf (BigInt u) (arg_nat i) = Inr (buf', num_nat (i + 8))
      \<and> readBigUInt64BE buf' (arg_nat i) = Inr u \<and> length buf' = length buf
      \<and> take i buf' = take i buf \<and> drop (i + 8) buf' = drop (i + 8) buf)
    \<and> (\<exists>buf'. writeBigInt64LE buf (BigInt v) (arg_nat i) = Inr (buf', num_nat (i + 8))
      \<and> readBigInt64LE buf' (arg_nat i) = Inr v \<and> length buf' = length buf
      \<and> take i buf' = take i buf \<and> drop (i + 8) buf' = drop (i + 8) buf)
    \<and> (\<exists>buf'. writeBigInt64BE buf (BigInt v) (arg_nat i) = Inr (buf', num_nat (i + 8))
      \<and> readBigInt64BE buf' (arg_nat i) = Inr v \<and> length buf' = length buf
      \<and> take i buf' = take i buf \<and> drop (i + 8) buf' = drop (i + 8) buf)"
  using ubigle.round_trip [OF assms(1,2,3)] ubigbe.round_trip [OF assms(1,2,3)]
    sbigle.round_trip [OF assms(1,2)] sbigbe.round_trip [OF assms(1,2)] assms by simp

theorem big_round_trip_witness:
  "(\<exists>buf'. writeBigUInt64LE (replicate 9 0) (BigInt 18446744073709551615) (arg_nat 1)
      = Inr (buf', num_nat 9) \<and> readBigUInt64LE buf' (arg_nat 1) = Inr 18446744073709551615)
   \<and> (\<exists>buf'. writeBigInt64BE (replicate 9 0) (BigInt (- 2)) (arg_nat 1)
      = Inr (buf', num_nat 9) \<and> readBigInt64BE buf' (arg_nat 1) = Inr (- 2))"
  using big_round_trip [of 1 "replicate 9 0" 18446744073709551615 "- 2"]
  by (auto simp: kMaxLength_def simp del: replicate.simps)

subsection \<open>Calls that fail\<close>

lemma js_get_Some: "js_get buf n = Some x \<Longrightarrow> \<exists>i. n = num_nat i \<and> i < length buf"
proof -
  assume "js_get buf n = Some x"
  then obtain i where i: "index_of buf n = Some i" by (auto simp: js_get_def)
  then obtain r where r: "n = Fin r" "of_int \<lfloor>r\<rfloor> = r" "0 \<le> r" "i = nat \<lfloor>r\<rfloor>" "i < length buf"
    by (auto simp: index_of_def split: js_num.splits if_splits)
  then have "r = of_nat i" by (metis floor_of_int of_int_of_nat_eq of_nat_nat zero_le_floor)
  then show ?thesis using r by blast
qed

lemma js_get_index: "js_get buf (num_nat i) = Some x \<Longrightarrow> i < length buf"
  by (simp split: if_splits)

lemma validateNumber_Inr [simp]: "validateNumber a name = Inr n \<longleftrightarrow> a = ANum n"
  by (auto simp: validateNumber_def split: js_arg.splits)

lemma read_ends_inv:
  assumes "read_ends buf offset k f = Inr v" "offset \<noteq> AUndef" "0 \<le> k"
  shows "\<exists>i. offset = arg_nat i \<and> i + nat k < length buf"
proof -
  obtain n x y where "offset = ANum n" "js_get buf n = Some x" "js_get buf (num_add n k) = Some y"
    using assms(1,2) by (auto simp: read_ends_def default0_def split: option.splits)
  moreover then obtain i where "n = num_nat i" using js_get_Some by blast
  moreover obtain m where "k = int m" using assms(3) nonneg_int_cases by blast
  ultimately show ?thesis
    using js_get_index [of buf "i + m" y] by (auto simp: num_add_nat simp del: num_add.simps)
qed

text \<open>The exception for an integer offset at which the field does not fit.\<close>

definition access_error :: "bytes \<Rightarrow> nat \<Rightarrow> node_error" where
  "access_error buf n =
     (if length buf < n then ERR_BUFFER_OUT_OF_BOUNDS
      else ERR_OUT_OF_RANGE ''offset'' (js ''>= 0 and <= '' @ show_int (int (length buf) - int n)))"

lemma js_append: "js s @ js t = js (s @ t)"
  by (simp add: js_def)

lemma boundsError_int:
  "boundsError (arg_int j) (int (length buf) - int n) None = access_error buf n"
proof -
  have "js ''>= '' @ js ''0'' @ js '' and <= '' @ x = js ''>= 0 and <= '' @ x" for x
    by (simp add: js_def)
  then show ?thesis by (auto simp: boundsError_def access_error_def num_eq_def)
qed

lemma js_get_int_None: "\<not> (0 \<le> j \<and> j + 1 \<le> int (length buf)) \<Longrightarrow> js_get buf (num_int j) = None"
  by (auto simp: js_get_def)

lemma ends_None:
  assumes "0 \<le> k" "\<not> (0 \<le> j \<and> j + (k + 1) \<le> int (length buf))"
  shows "js_get buf (num_int j) = None \<or> js_get buf (num_add (num_int j) k) = None"
  using assms js_get_int_None [of j buf] js_get_int_None [of "j + k" buf]
  by (cases "0 \<le> j") (simp_all only: num_add_int, auto)

lemma boundsError_int':
  "0 \<le> k \<Longrightarrow> boundsError (arg_int j) (int (length buf) - (k + 1)) None = access_error buf (nat k + 1)"
  using boundsError_int [of j buf "nat k + 1"] by (simp add: add.commute)

lemma read_ends_err:
  assumes "0 \<le> k" "\<not> (0 \<le> j \<and> j + (k + 1) \<le> int (length buf))"
  shows "read_ends buf (arg_int j) k f = Inl (access_error buf (nat k + 1))"
  using ends_None [OF assms] boundsError_int' [OF assms(1)]
  by (auto simp: read_ends_def default0_def validateNumber_def simp del: num_add.simps
      split: option.splits)

lemma checkBounds_err:
  assumes "0 \<le> k" "\<not> (0 \<le> j \<and> j + (k + 1) \<le> int (length buf))"
  shows "checkBounds buf (arg_int j) k = Inl (access_error buf (nat k + 1))"
  using ends_None [OF assms] boundsError_int' [OF assms(1)]
  by (auto simp: checkBounds_def validateNumber_def simp del: num_add.simps)

lemma read8_err:
  assumes "\<not> (0 \<le> j \<and> j + 1 \<le> int (length buf))"
  shows "readUInt8 buf (arg_int j) = Inl (access_error buf 1)"
    and "readInt8 buf (arg_int j) = Inl (access_error buf 1)"
  using js_get_int_None [OF assms(1)] boundsError_int [of j buf 1]
  by (simp_all add: readUInt8_def readInt8_def default0_def validateNumber_def)

lemma checked_write_err:
  assumes "0 \<le> k" "\<not> (0 \<le> j \<and> j + (k + 1) \<le> int (length buf))" "lo \<le> v" "v \<le> hi"
  shows "checked_write buf (arg_int v) (arg_int j) lo hi k st = Inl (access_error buf (nat k + 1))"
  using assms(3,4) checkBounds_err [OF assms(1,2)]
  by (simp add: checked_write_def checkInt_def numeric_less_def num_less_int del: num_less.simps)

lemma write8_err:
  assumes "\<not> (0 \<le> j \<and> j + 1 \<le> int (length buf))" "lo \<le> v" "v \<le> hi"
  shows "writeU_Int8 buf (arg_int v) (arg_int j) lo hi = Inl (access_error buf 1)"
  using assms(2,3) js_get_int_None [OF assms(1)] boundsError_int [of j buf 1]
  by (simp add: writeU_Int8_def validateNumber_def num_less_int del: num_less.simps)

lemmas read_defs = readUInt16LE_def readUInt24LE_def readUInt32LE_def readUInt40LE_def
  readUInt48LE_def readUInt16BE_def readUInt24BE_def readUInt32BE_def readUInt40BE_def
  readUInt48BE_def readInt16LE_def readInt24LE_def readInt32LE_def readInt40LE_def
  readInt48LE_def readInt16BE_def readInt24BE_def readInt32BE_def readInt40BE_def readInt48BE_def

lemmas write_defs = writeU_Int16LE_def writeU_Int24LE_def writeU_Int32LE_def writeU_Int40LE_def
  writeU_Int48LE_def writeU_Int16BE_def writeU_Int24BE_def writeU_Int32BE_def writeU_Int40BE_def
  writeU_Int48BE_def

lemma readUIntLE_err:
  assumes "0 < n" "n \<le> 6" "\<not> (0 \<le> j \<and> j + int n \<le> int (length buf))"
  shows "readUIntLE buf (arg_int j) (arg_nat n) = Inl (access_error buf n)"
  using assms(1,2)
  by (rule width_cases)
    (use assms(3) in \<open>simp_all only: readUIntLE_def is_num_nat, simp_all add: read_defs read_ends_err read8_err numeral_2_eq_2 [symmetric]\<close>)

lemma readUIntBE_err:
  assumes "0 < n" "n \<le> 6" "\<not> (0 \<le> j \<and> j + int n \<le> int (length buf))"
  shows "readUIntBE buf (arg_int j) (arg_nat n) = Inl (access_error buf n)"
  using assms(1,2)
  by (rule width_cases)
    (use assms(3) in \<open>simp_all only: readUIntBE_def is_num_nat, simp_all add: read_defs read_ends_err read8_err numeral_2_eq_2 [symmetric]\<close>)

lemma readIntLE_err:
  assumes "0 < n" "n \<le> 6" "\<not> (0 \<le> j \<and> j + int n \<le> int (length buf))"
  shows "readIntLE buf (arg_int j) (arg_nat n) = Inl (access_error buf n)"
  using assms(1,2)
  by (rule width_cases)
    (use assms(3) in \<open>simp_all only: readIntLE_def is_num_nat, simp_all add: read_defs read_ends_err read8_err numeral_2_eq_2 [symmetric]\<close>)

lemma readIntBE_err:
  assumes "0 < n" "n \<le> 6" "\<not> (0 \<le> j \<and> j + int n \<le> int (length buf))"
  shows "readIntBE buf (arg_int j) (arg_nat n) = Inl (access_error buf n)"
  using assms(1,2)
  by (rule width_cases)
    (use assms(3) in \<open>simp_all only: readIntBE_def is_num_nat, simp_all add: read_defs read_ends_err read8_err numeral_2_eq_2 [symmetric]\<close>)

lemma writeUIntLE_err:
  assumes "0 < n" "n \<le> 6" "\<not> (0 \<le> j \<and> j + int n \<le> int (length buf))" "0 \<le> v" "v < 256 ^ n"
  shows "writeUIntLE buf (arg_int v) (arg_int j) (arg_nat n) = Inl (access_error buf n)"
  using assms(1,2)
  by (rule width_cases)
    (use assms(3-) in \<open>simp_all only: writeUIntLE_def is_num_nat, simp_all add: write_defs checked_write_err write8_err numeral_2_eq_2 [symmetric]\<close>)

lemma writeUIntBE_err:
  assumes "0 < n" "n \<le> 6" "\<not> (0 \<le> j \<and> j + int n \<le> int (length buf))" "0 \<le> v" "v < 256 ^ n"
  shows "writeUIntBE buf (arg_int v) (arg_int j) (arg_nat n) = Inl (access_error buf n)"
  using assms(1,2)
  by (rule width_cases)
    (use assms(3-) in \<open>simp_all only: writeUIntBE_def is_num_nat, simp_all add: write_defs checked_write_err write8_err numeral_2_eq_2 [symmetric]\<close>)

lemma writeIntLE_err:
  assumes "0 < n" "n \<le> 6" "\<not> (0 \<le> j \<and> j + int n \<le> int (length buf))" "- (2 ^ (8 * n - 1)) \<le> v" "v < 2 ^ (8 * n - 1)"
  shows "writeIntLE buf (arg_int v) (arg_int j) (arg_nat n) = Inl (access_error buf n)"
  using assms(1,2)
  by (rule width_cases)
    (use assms(3-) in \<open>simp_all only: writeIntLE_def is_num_nat, simp_all add: write_defs checked_write_err write8_err numeral_2_eq_2 [symmetric]\<close>)

lemma writeIntBE_err:
  assumes "0 < n" "n \<le> 6" "\<not> (0 \<le> j \<and> j + int n \<le> int (length buf))" "- (2 ^ (8 * n - 1)) \<le> v" "v < 2 ^ (8 * n - 1)"
  shows "writeIntBE buf (arg_int v) (arg_int j) (arg_nat n) = Inl (access_error buf n)"
  using assms(1,2)
  by (rule width_cases)
    (use assms(3-) in \<open>simp_all only: writeIntBE_def is_num_nat, simp_all add: write_defs checked_write_err write8_err numeral_2_eq_2 [symmetric]\<close>)

lemma reads_inv:
  "readUInt8 buf offset = Inr v \<Longrightarrow> offset \<noteq> AUndef \<Longrightarrow> \<exists>i. offset = arg_nat i \<and> i + 1 \<le> length buf"
  "readInt8 buf offset = Inr v \<Longrightarrow> offset \<noteq> AUndef \<Longrightarrow> \<exists>i. offset = arg_nat i \<and> i + 1 \<le> length buf"
  "read_ends buf offset k f = Inr v \<Longrightarrow> offset \<noteq> AUndef \<Longrightarrow> 0 \<le> k \<Longrightarrow>
     \<exists>i. offset = arg_nat i \<and> i + (nat k + 1) \<le> length buf"
  using read_ends_inv [of buf offset k f v]
  by (auto simp: readUInt8_def readInt8_def default0_def Suc_le_eq
      dest: js_get_Some split: option.splits)

lemma is_num_iff: "is_num a (numeral k) \<longleftrightarrow> a = arg_nat (numeral k)" "is_num a 1 \<longleftrightarrow> a = arg_nat 1"
  by (simp_all add: is_num_def)

lemma readUIntLE_inv:
  assumes "readUIntLE buf offset byteLength = Inr v"
  shows "\<exists>i n. offset = arg_nat i \<and> byteLength = arg_nat n \<and> 0 < n \<and> n \<le> 6 \<and> i + n \<le> length buf"
  using assms unfolding readUIntLE_def is_num_iff read_defs
  by (auto split: if_splits dest!: reads_inv simp del: of_nat_numeral of_nat_1)

lemma readUIntBE_inv:
  assumes "readUIntBE buf offset byteLength = Inr v"
  shows "\<exists>i n. offset = arg_nat i \<and> byteLength = arg_nat n \<and> 0 < n \<and> n \<le> 6 \<and> i + n \<le> length buf"
  using assms unfolding readUIntBE_def is_num_iff read_defs
  by (auto split: if_splits dest!: reads_inv simp del: of_nat_numeral of_nat_1)

lemma readIntLE_inv:
  assumes "readIntLE buf offset byteLength = Inr v"
  shows "\<exists>i n. offset = arg_nat i \<and> byteLength = arg_nat n \<and> 0 < n \<and> n \<le> 6 \<and> i + n \<le> length buf"
  using assms unfolding readIntLE_def is_num_iff read_defs
  by (auto split: if_splits dest!: reads_inv simp del: of_nat_numeral of_nat_1)

lemma readIntBE_inv:
  assumes "readIntBE buf offset byteLength = Inr v"
  shows "\<exists>i n. offset = arg_nat i \<and> byteLength = arg_nat n \<and> 0 < n \<and> n \<le> 6 \<and> i + n \<le> length buf"
  using assms unfolding readIntBE_def is_num_iff read_defs
  by (auto split: if_splits dest!: reads_inv simp del: of_nat_numeral of_nat_1)

lemma checked_write_value_err:
  assumes "v < lo \<or> hi + 1 \<le> v"
  shows "\<exists>r. checked_write buf (arg_int v) offset lo hi k st = Inl (ERR_OUT_OF_RANGE ''value'' r)"
    and "\<exists>r. writeU_Int8 buf (arg_int v) (ANum j) lo hi = Inl (ERR_OUT_OF_RANGE ''value'' r)"
  using assms
  by (auto simp: checked_write_def checkInt_def numeric_less_def num_less_int writeU_Int8_def
      validateNumber_def simp del: num_less.simps)

lemma writeUIntLE_value_err:
  assumes "0 < n" "n \<le> 6" "v < 0 \<or> 256 ^ n \<le> v"
  shows "\<exists>r. writeUIntLE buf (arg_int v) (ANum j) (arg_nat n) = Inl (ERR_OUT_OF_RANGE ''value'' r)"
  using assms(1,2)
proof (rule width_cases)
  show ?thesis if "n = 1"
    using assms(3) unfolding that writeUIntLE_def is_num_nat by (simp add: checked_write_value_err)
  show ?thesis if "n = 2"
    using assms(3) unfolding that writeUIntLE_def is_num_nat writeU_Int16LE_def by (simp add: checked_write_value_err)
  show ?thesis if "n = 3"
    using assms(3) unfolding that writeUIntLE_def is_num_nat writeU_Int24LE_def by (simp add: checked_write_value_err)
  show ?thesis if "n = 4"
    using assms(3) unfolding that writeUIntLE_def is_num_nat writeU_Int32LE_def by (simp add: checked_write_value_err)
  show ?thesis if "n = 5"
    using assms(3) unfolding that writeUIntLE_def is_num_nat writeU_Int40LE_def by (simp add: checked_write_value_err)
  show ?thesis if "n = 6"
    using assms(3) unfolding that writeUIntLE_def is_num_nat writeU_Int48LE_def by (simp add: checked_write_value_err)
qed

lemma writeUIntBE_value_err:
  assumes "0 < n" "n \<le> 6" "v < 0 \<or> 256 ^ n \<le> v"
  shows "\<exists>r. writeUIntBE buf (arg_int v) (ANum j) (arg_nat n) = Inl (ERR_OUT_OF_RANGE ''value'' r)"
  using assms(1,2)
proof (rule width_cases)
  show ?thesis if "n = 1"
    using assms(3) unfolding that writeUIntBE_def is_num_nat by (simp add: checked_write_value_err)
  show ?thesis if "n = 2"
    using assms(3) unfolding that writeUIntBE_def is_num_nat writeU_Int16BE_def by (simp add: checked_write_value_err)
  show ?thesis if "n = 3"
    using assms(3) unfolding that writeUIntBE_def is_num_nat writeU_Int24BE_def by (simp add: checked_write_value_err)
  show ?thesis if "n = 4"
    using assms(3) unfolding that writeUIntBE_def is_num_nat writeU_Int32BE_def by (simp add: checked_write_value_err)
  show ?thesis if "n = 5"
    using assms(3) unfolding that writeUIntBE_def is_num_nat writeU_Int40BE_def by (simp add: checked_write_value_err)
  show ?thesis if "n = 6"
    using assms(3) unfolding that writeUIntBE_def is_num_nat writeU_Int48BE_def by (simp add: checked_write_value_err)
qed

lemma writeIntLE_value_err:
  assumes "0 < n" "n \<le> 6" "v < - (2 ^ (8 * n - 1)) \<or> 2 ^ (8 * n - 1) \<le> v"
  shows "\<exists>r. writeIntLE buf (arg_int v) (ANum j) (arg_nat n) = Inl (ERR_OUT_OF_RANGE ''value'' r)"
  using assms(1,2)
proof (rule width_cases)
  show ?thesis if "n = 1"
    using assms(3) unfolding that writeIntLE_def is_num_nat by (simp add: checked_write_value_err)
  show ?thesis if "n = 2"
    using assms(3) unfolding that writeIntLE_def is_num_nat writeU_Int16LE_def by (simp add: checked_write_value_err)
  show ?thesis if "n = 3"
    using assms(3) unfolding that writeIntLE_def is_num_nat writeU_Int24LE_def by (simp add: checked_write_value_err)
  show ?thesis if "n = 4"
    using assms(3) unfolding that writeIntLE_def is_num_nat writeU_Int32LE_def by (simp add: checked_write_value_err)
  show ?thesis if "n = 5"
    using assms(3) unfolding that writeIntLE_def is_num_nat writeU_Int40LE_def by (simp add: checked_write_value_err)
  show ?thesis if "n = 6"
    using assms(3) unfolding that writeIntLE_def is_num_nat writeU_Int48LE_def by (simp add: checked_write_value_err)
qed

lemma writeIntBE_value_err:
  assumes "0 < n" "n \<le> 6" "v < - (2 ^ (8 * n - 1)) \<or> 2 ^ (8 * n - 1) \<le> v"
  shows "\<exists>r. writeIntBE buf (arg_int v) (ANum j) (arg_nat n) = Inl (ERR_OUT_OF_RANGE ''value'' r)"
  using assms(1,2)
proof (rule width_cases)
  show ?thesis if "n = 1"
    using assms(3) unfolding that writeIntBE_def is_num_nat by (simp add: checked_write_value_err)
  show ?thesis if "n = 2"
    using assms(3) unfolding that writeIntBE_def is_num_nat writeU_Int16BE_def by (simp add: checked_write_value_err)
  show ?thesis if "n = 3"
    using assms(3) unfolding that writeIntBE_def is_num_nat writeU_Int24BE_def by (simp add: checked_write_value_err)
  show ?thesis if "n = 4"
    using assms(3) unfolding that writeIntBE_def is_num_nat writeU_Int32BE_def by (simp add: checked_write_value_err)
  show ?thesis if "n = 5"
    using assms(3) unfolding that writeIntBE_def is_num_nat writeU_Int40BE_def by (simp add: checked_write_value_err)
  show ?thesis if "n = 6"
    using assms(3) unfolding that writeIntBE_def is_num_nat writeU_Int48BE_def by (simp add: checked_write_value_err)
qed

lemma read_iff:
  assumes "\<And>v. f buf offset w = Inr v \<Longrightarrow>
      \<exists>i n. offset = arg_nat i \<and> w = arg_nat n \<and> 0 < n \<and> n \<le> 6 \<and> i + n \<le> length buf"
    and "\<And>i n. 0 < n \<Longrightarrow> n \<le> 6 \<Longrightarrow> i + n \<le> length buf \<Longrightarrow> f buf (arg_nat i) (arg_nat n) = Inr (val i n)"
  shows "f buf offset w = Inr v \<longleftrightarrow> (\<exists>i n. offset = arg_nat i \<and> w = arg_nat n \<and> 0 < n \<and> n \<le> 6
      \<and> i + n \<le> length buf \<and> v = val i n)"
proof
  assume r: "f buf offset w = Inr v"
  then obtain i n where a: "offset = arg_nat i" "w = arg_nat n" "0 < n" "n \<le> 6" "i + n \<le> length buf"
    using assms(1) by blast
  with r have "v = val i n" using assms(2) [OF a(3-5)] by simp
  with a show "\<exists>i n. offset = arg_nat i \<and> w = arg_nat n \<and> 0 < n \<and> n \<le> 6
      \<and> i + n \<le> length buf \<and> v = val i n" by blast
qed (use assms(2) in blast)

text \<open>C19. The four reads that take a width succeed exactly when the offset is an index of the
  buffer, the width is an integer from 1 to 6 and the field lies inside the buffer; the result is
  the number that the bytes of the field denote in the byte order of the method, in two's
  complement for the signed reads.\<close>

theorem read_positional:
  "(readUIntLE buf offset w = Inr v \<longleftrightarrow> (\<exists>i n. offset = arg_nat i \<and> w = arg_nat n \<and> 0 < n \<and> n \<le> 6
      \<and> i + n \<le> length buf \<and> v = le_dec (take n (drop i buf))))
   \<and> (readUIntBE buf offset w = Inr v \<longleftrightarrow> (\<exists>i n. offset = arg_nat i \<and> w = arg_nat n \<and> 0 < n \<and> n \<le> 6
      \<and> i + n \<le> length buf \<and> v = be_dec (take n (drop i buf))))
   \<and> (readIntLE buf offset w = Inr v \<longleftrightarrow> (\<exists>i n. offset = arg_nat i \<and> w = arg_nat n \<and> 0 < n \<and> n \<le> 6
      \<and> i + n \<le> length buf \<and> v = signed_val n (le_dec (take n (drop i buf)))))
   \<and> (readIntBE buf offset w = Inr v \<longleftrightarrow> (\<exists>i n. offset = arg_nat i \<and> w = arg_nat n \<and> 0 < n \<and> n \<le> 6
      \<and> i + n \<le> length buf \<and> v = signed_val n (be_dec (take n (drop i buf)))))"
  using read_iff [where f = readUIntLE, OF readUIntLE_inv readUIntLE_ok]
    read_iff [where f = readUIntBE, OF readUIntBE_inv readUIntBE_ok]
    read_iff [where f = readIntLE, OF readIntLE_inv readIntLE_ok]
    read_iff [where f = readIntBE, OF readIntBE_inv readIntBE_ok] by (intro conjI)

text \<open>C26. At an integer offset where a field of \<open>n\<close> bytes does not fit, every read and every
  write of a representable value throws: \<^verbatim>\<open>ERR_BUFFER_OUT_OF_BOUNDS\<close> when the buffer is shorter
  than the field, and otherwise \<^verbatim>\<open>ERR_OUT_OF_RANGE\<close> for the offset with the range that fits.\<close>

theorem offset_errors:
  assumes "0 < n" "n \<le> 6" "\<not> (0 \<le> j \<and> j + int n \<le> int (length buf))"
    and "0 \<le> u" "u < 256 ^ n" "- (2 ^ (8 * n - 1)) \<le> v" "v < 2 ^ (8 * n - 1)"
  shows "readUIntLE buf (arg_int j) (arg_nat n) = Inl (access_error buf n)
    \<and> readUIntBE buf (arg_int j) (arg_nat n) = Inl (access_error buf n)
    \<and> readIntLE buf (arg_int j) (arg_nat n) = Inl (access_error buf n)
    \<and> readIntBE buf (arg_int j) (arg_nat n) = Inl (access_error buf n)
    \<and> writeUIntLE buf (arg_int u) (arg_int j) (arg_nat n) = Inl (access_error buf n)
    \<and> writeUIntBE buf (arg_int u) (arg_int j) (arg_nat n) = Inl (access_error buf n)
    \<and> writeIntLE buf (arg_int v) (arg_int j) (arg_nat n) = Inl (access_error buf n)
    \<and> writeIntBE buf (arg_int v) (arg_int j) (arg_nat n) = Inl (access_error buf n)"
  by (intro conjI readUIntLE_err readUIntBE_err readIntLE_err readIntBE_err writeUIntLE_err
      writeUIntBE_err writeIntLE_err writeIntBE_err assms)

theorem offset_errors_witness:
  "readUIntLE [1, 2, 3] (arg_int 1) (arg_nat 3)
     = Inl (ERR_OUT_OF_RANGE ''offset'' (js ''>= 0 and <= 0''))
   \<and> writeIntBE [1, 2] (arg_int (- 1)) (arg_int 0) (arg_nat 3) = Inl ERR_BUFFER_OUT_OF_BOUNDS"
  using offset_errors [of 3 1 "[1, 2, 3]" 0 0] offset_errors [of 3 0 "[1, 2]" 0 "- 1"]
  by (simp add: access_error_def show_int_def show_nat.simps js_def)

text \<open>A write of \<open>n\<close> bytes refuses every integer outside the range of its type with
  \<^verbatim>\<open>ERR_OUT_OF_RANGE\<close> for the value, whatever the offset, so no value is ever truncated.\<close>

lemma write_rejects_value:
  assumes "0 < n" "n \<le> 6" "u < 0 \<or> 256 ^ n \<le> u" "v < - (2 ^ (8 * n - 1)) \<or> 2 ^ (8 * n - 1) \<le> v"
  shows "(\<exists>r. writeUIntLE buf (arg_int u) (ANum j) (arg_nat n) = Inl (ERR_OUT_OF_RANGE ''value'' r))
    \<and> (\<exists>r. writeUIntBE buf (arg_int u) (ANum j) (arg_nat n) = Inl (ERR_OUT_OF_RANGE ''value'' r))
    \<and> (\<exists>r. writeIntLE buf (arg_int v) (ANum j) (arg_nat n) = Inl (ERR_OUT_OF_RANGE ''value'' r))
    \<and> (\<exists>r. writeIntBE buf (arg_int v) (ANum j) (arg_nat n) = Inl (ERR_OUT_OF_RANGE ''value'' r))"
  by (intro conjI writeUIntLE_value_err writeUIntBE_value_err writeIntLE_value_err
      writeIntBE_value_err assms)

end
