(* ===== verification/Buffer_Ops.thy ===== *)
theory Buffer_Ops
  imports Buffer_Int_Round_Trip
begin

unbundle bit_operations_syntax

text \<open>
  The operations of \<^verbatim>\<open>internal/buffer.mjs\<close> on whole buffers: allocation, comparison, byte
  swapping, concatenation, copying and filling. A typed array is the list of its bytes; a method
  that changes its receiver returns the new contents.
\<close>

subsection \<open>Typed arrays\<close>

text \<open>An argument that should be a \<^verbatim>\<open>Uint8Array\<close>; for anything else only its
  \<^verbatim>\<open>length\<close> property is kept, which is 0 when there is none.\<close>

datatype u8_arg = U8 bytes | NotU8 nat

text \<open>\<^verbatim>\<open>target.set(source, offset)\<close> and \<^verbatim>\<open>subarray(start, end)\<close>\<close>

definition typed_set :: "bytes \<Rightarrow> bytes \<Rightarrow> int \<Rightarrow> bytes result" where
  "typed_set target source offset =
     (if offset < 0 \<or> offset + int (length source) > int (length target)
      then Inl (RangeError ''offset is out of bounds'')
      else Inr (overwrite target (nat offset) source))"

definition subarray :: "bytes \<Rightarrow> int \<Rightarrow> int \<Rightarrow> bytes" where
  "subarray buf start end' =
     (let n = int (length buf); from = rel_index n start; to = rel_index n end'
      in take (nat (to - from)) (drop (nat from) buf))"

subsection \<open>Allocation\<close>

definition num_le :: "js_num \<Rightarrow> js_num \<Rightarrow> bool" where
  "num_le a b \<longleftrightarrow> num_less a b \<or> num_eq a b"

definition createBuffer :: "js_num \<Rightarrow> bytes result" where
  "createBuffer len =
     (if num_less (num_nat kMaxLength) len then Inl (RangeError ''size'')
      else if num_trunc len < 0 then Inl (RangeError ''Invalid typed array length'')
      else Inr (replicate (nat (num_trunc len)) 0))"

definition assertSize :: "js_arg \<Rightarrow> js_num result" where
  "assertSize size' =
     bindE (validateNumber size' ''size'') (\<lambda>n.
       if \<not> (num_le (num_int 0) n \<and> num_le n (num_nat kMaxLength))
       then Inl (ERR_INVALID_ARG_VALUE ''size'') else Inr n)"

definition checked :: "js_num \<Rightarrow> int result" where
  "checked len =
     (if num_le (num_nat kMaxLength) len
      then Inl (RangeError ''Attempt to allocate Buffer larger than maximum size'')
      else Inr (to_int32 (num_trunc len)))"

definition allocUnsafe :: "js_arg \<Rightarrow> bytes result" where
  "allocUnsafe size' =
     bindE (assertSize size') (\<lambda>n.
       if num_less n (num_int 0) then createBuffer (num_int 0)
       else bindE (checked n) (\<lambda>k. createBuffer (num_int (to_int32 k))))"

subsection \<open>Comparison\<close>

text \<open>
  The loop looks for the first index where the arrays differ and leaves the two bytes there, or the
  two lengths when there is none.
\<close>

function compare_loop :: "bytes \<Rightarrow> bytes \<Rightarrow> nat \<Rightarrow> nat \<Rightarrow> int \<times> int \<Rightarrow> int \<times> int" where
  "compare_loop a b i len xy =
     (if i < len then
        if a ! i \<noteq> b ! i then (uint (a ! i), uint (b ! i)) else compare_loop a b (i + 1) len xy
      else xy)"
  by auto
termination by (relation "measure (\<lambda>(_, _, i, len, _). len - i)") auto

declare compare_loop.simps [simp del]

definition compare_sign :: "int \<times> int \<Rightarrow> int" where
  "compare_sign xy = (case xy of (x, y) \<Rightarrow> if x < y then -1 else if y < x then 1 else 0)"

text \<open>\<^verbatim>\<open>Buffer.from\<close> of a byte array, which copies it: \<^verbatim>\<open>_from\<close> comes to
  \<^verbatim>\<open>fromArrayLike\<close> through \<^verbatim>\<open>fromObject\<close>.\<close>

definition fromArrayLike :: "bytes \<Rightarrow> bytes result" where
  "fromArrayLike array =
     bindE (checked (num_nat (length array))) (\<lambda>len.
     bindE (createBuffer (num_int (to_int32 len))) (\<lambda>buf.
       Inr (overwrite buf 0 (take (length buf) array))))"

definition copy_arg :: "u8_arg \<Rightarrow> u8_arg result" where
  "copy_arg a =
     (case a of U8 bs \<Rightarrow> bindE (fromArrayLike bs) (\<lambda>bs. Inr (U8 bs)) | NotU8 n \<Rightarrow> Inr (NotU8 n))"

text \<open>\<^verbatim>\<open>Buffer.compare(a, b)\<close>: both arguments are copied before their types are checked, so
  they are never the same object.\<close>

definition Buffer_compare :: "u8_arg \<Rightarrow> u8_arg \<Rightarrow> int result" where
  "Buffer_compare a b =
     bindE (copy_arg a) (\<lambda>a.
     bindE (copy_arg b) (\<lambda>b.
       case (a, b) of
         (U8 a, U8 b) \<Rightarrow>
           Inr (compare_sign (compare_loop a b 0 (min (length a) (length b))
             (int (length a), int (length b))))
       | _ \<Rightarrow> Inl (TypeError ''buf1, buf2'')))"

text \<open>
  \<^verbatim>\<open>buf.compare(target, start, end, thisStart, thisEnd)\<close>. When \<^verbatim>\<open>thisStart\<close> or
  \<^verbatim>\<open>thisEnd\<close> is given, it is \<^verbatim>\<open>start\<close> or \<^verbatim>\<open>end\<close> that is checked again, so these two
  keep whatever number was passed.
\<close>

text \<open>An operand of a relational operator, and the left operand of \<^verbatim>\<open>>>>\<close>.\<close>

definition rel_num :: "js_arg \<Rightarrow> js_num result" where
  "rel_num a = (case a of ABig i \<Rightarrow> Inr (num_int i) | _ \<Rightarrow> to_number a)"

definition arg_uint32 :: "js_arg \<Rightarrow> int result" where
  "arg_uint32 a = bindE (to_number a) (\<lambda>n. Inr (to_uint32 (num_trunc n)))"

definition range_compare ::
  "bytes \<Rightarrow> bytes \<Rightarrow> int \<Rightarrow> int \<Rightarrow> js_arg \<Rightarrow> js_arg \<Rightarrow> int result" where
  "range_compare this target start end' thisStart thisEnd =
     bindE (rel_num thisStart) (\<lambda>ts.
     if start < 0 \<or> end' > int (length target) \<or> num_less ts (num_int 0)
     then Inl (ERR_OUT_OF_RANGE ''out of range index'' (js ''range''))
     else bindE (rel_num thisEnd) (\<lambda>te.
     if num_less (num_nat (length this)) te
     then Inl (ERR_OUT_OF_RANGE ''out of range index'' (js ''range''))
     else if num_le te ts \<and> start \<ge> end' then Inr 0
     else if num_le te ts then Inr (- 1)
     else if start \<ge> end' then Inr 1
     else
       let start = to_uint32 start; end' = to_uint32 end' in
       bindE (arg_uint32 thisStart) (\<lambda>thisStart.
       bindE (arg_uint32 thisEnd) (\<lambda>thisEnd.
       let x = thisEnd - thisStart; y = end' - start;
           thisCopy = subarray this thisStart thisEnd; targetCopy = subarray target start end'
       in Inr (compare_sign (compare_loop thisCopy targetCopy 0 (nat (min x y)) (x, y)))))))"

definition buffer_compare ::
  "bytes \<Rightarrow> u8_arg \<Rightarrow> js_arg \<Rightarrow> js_arg \<Rightarrow> js_arg \<Rightarrow> js_arg \<Rightarrow> int result" where
  "buffer_compare this target start end' thisStart thisEnd =
     (case target of
        NotU8 _ \<Rightarrow> Inl (ERR_INVALID_ARG_TYPE ''target'')
      | U8 target \<Rightarrow>
          bindE (if start = AUndef then Inr 0
                 else validateOffset start ''targetStart'' 0 (int kMaxLength)) (\<lambda>start.
          bindE (if end' = AUndef then Inr (int (length target))
                 else validateOffset end' ''targetEnd'' 0 (int (length target))) (\<lambda>end'.
          bindE (if thisStart = AUndef then Inr (arg_int 0)
                 else bindE (validateOffset (arg_int start) ''sourceStart'' 0 (int kMaxLength))
                   (\<lambda>_. Inr thisStart)) (\<lambda>thisStart.
          bindE (if thisEnd = AUndef then Inr (arg_nat (length this))
                 else bindE (validateOffset (arg_int end') ''sourceEnd'' 0 (int (length this)))
                   (\<lambda>_. Inr thisEnd)) (\<lambda>thisEnd.
            range_compare this target start end' thisStart thisEnd)))))"

text \<open>\<^verbatim>\<open>buf.equals(b)\<close>; \<^verbatim>\<open>same\<close> tells whether \<^verbatim>\<open>this === b\<close>.\<close>

definition buffer_equals :: "bool \<Rightarrow> bytes \<Rightarrow> u8_arg \<Rightarrow> bool result" where
  "buffer_equals same this b =
     (case b of
        NotU8 _ \<Rightarrow> Inl (ERR_INVALID_ARG_TYPE ''otherBuffer'')
      | U8 _ \<Rightarrow>
          if same then Inr True
          else bindE (Buffer_compare (U8 this) b) (\<lambda>c. Inr (c = 0)))"

subsection \<open>Byte swapping\<close>

definition swap :: "bytes \<Rightarrow> nat \<Rightarrow> nat \<Rightarrow> bytes" where
  "swap b n m = (let i = b ! n in b[n := b ! m, m := i])"

function swap_loop :: "(bytes \<Rightarrow> nat \<Rightarrow> bytes) \<Rightarrow> nat \<Rightarrow> bytes \<Rightarrow> nat \<Rightarrow> nat \<Rightarrow> bytes" where
  "swap_loop body step b i len =
     (if i < len \<and> 0 < step then swap_loop body step (body b i) (i + step) len else b)"
  by auto
termination by (relation "measure (\<lambda>(_, _, _, i, len). len - i)") auto

declare swap_loop.simps [simp del]

definition swap16 :: "bytes \<Rightarrow> bytes result" where
  "swap16 this =
     (if length this mod 2 \<noteq> 0 then Inl (RangeError ''Buffer size must be a multiple of 16-bits'')
      else Inr (swap_loop (\<lambda>b i. swap b i (i + 1)) 2 this 0 (length this)))"

definition swap32 :: "bytes \<Rightarrow> bytes result" where
  "swap32 this =
     (if length this mod 4 \<noteq> 0 then Inl (RangeError ''Buffer size must be a multiple of 32-bits'')
      else Inr (swap_loop (\<lambda>b i. swap (swap b i (i + 3)) (i + 1) (i + 2)) 4 this 0 (length this)))"

definition swap64 :: "bytes \<Rightarrow> bytes result" where
  "swap64 this =
     (if length this mod 8 \<noteq> 0 then Inl (RangeError ''Buffer size must be a multiple of 64-bits'')
      else Inr (swap_loop (\<lambda>b i. swap (swap (swap (swap b i (i + 7)) (i + 1) (i + 6)) (i + 2) (i + 5))
        (i + 3) (i + 4)) 8 this 0 (length this)))"

subsection \<open>Copying\<close>

definition copyActual :: "bytes \<Rightarrow> bytes \<Rightarrow> int \<Rightarrow> int \<Rightarrow> int \<Rightarrow> (bytes \<times> int) result" where
  "copyActual source target targetStart sourceStart sourceEnd =
     (let sourceEnd =
            (if sourceEnd - sourceStart > int (length target) - targetStart
             then sourceStart + int (length target) - targetStart else sourceEnd);
          nb = sourceEnd - sourceStart;
          sourceLen = int (length source) - sourceStart;
          nb = (if nb > sourceLen then sourceLen else nb)
      in bindE
           (if sourceStart \<noteq> 0 \<or> sourceEnd < int (length source) then
              (if nb < 0 \<or> sourceStart < 0 \<or> sourceStart + nb > int (length source)
               then Inl (RangeError ''Invalid typed array length'')
               else Inr (take (nat nb) (drop (nat sourceStart) source)))
            else Inr source)
           (\<lambda>source. bindE (typed_set target source targetStart) (\<lambda>target. Inr (target, nb))))"

text \<open>The loop of \<^verbatim>\<open>Buffer.concat\<close> over the remaining entries of the list.\<close>

fun concat_loop :: "u8_arg list \<Rightarrow> bytes \<Rightarrow> int \<Rightarrow> (bytes \<times> int) result" where
  "concat_loop [] buffer pos = Inr (buffer, pos)"
| "concat_loop (NotU8 _ # bufs) buffer pos = Inl (ERR_INVALID_ARG_TYPE ''list'')"
| "concat_loop (U8 buf # bufs) buffer pos =
     bindE (copyActual buf buffer pos 0 (int (length buf))) (\<lambda>(buffer, nb).
       concat_loop bufs buffer (pos + nb))"

fun u8_length :: "u8_arg \<Rightarrow> nat" where
  "u8_length (U8 b) = length b"
| "u8_length (NotU8 n) = n"

definition MAX_SAFE_INTEGER :: int where "MAX_SAFE_INTEGER = 9007199254740991"

definition Buffer_concat :: "u8_arg list \<Rightarrow> js_arg \<Rightarrow> bytes result" where
  "Buffer_concat list len =
     (if list = [] then Inr []
      else
        bindE (if len = AUndef then Inr (int (sum_list (map u8_length list)))
               else validateOffset len ''length'' 0 MAX_SAFE_INTEGER) (\<lambda>len.
        bindE (allocUnsafe (arg_int len)) (\<lambda>buffer.
        bindE (concat_loop list buffer 0) (\<lambda>(buffer, pos).
          if pos < len
          then Inr (overwrite buffer (nat pos) (replicate (nat (len - pos)) 0))
          else Inr buffer))))"

definition blitBuffer :: "bytes \<Rightarrow> bytes \<Rightarrow> int \<Rightarrow> int option \<Rightarrow> (bytes \<times> int) result" where
  "blitBuffer src dst offset byteLength =
     (let srcLength = int (length src);
          room = int (length dst) - offset;
          bytesToWrite =
            (case byteLength of None \<Rightarrow> min srcLength room | Some k \<Rightarrow> min k (min srcLength room));
          src = (if bytesToWrite < srcLength then subarray src 0 bytesToWrite else src)
      in bindE (typed_set dst src offset) (\<lambda>dst. Inr (dst, bytesToWrite)))"

text \<open>\<^verbatim>\<open>toInteger(n, 0)\<close>\<close>

definition toInteger :: "js_arg \<Rightarrow> int \<Rightarrow> int result" where
  "toInteger n defaultVal =
     bindE (to_number n) (\<lambda>n.
       case n of
         Fin r \<Rightarrow> if of_int (- MAX_SAFE_INTEGER) \<le> r \<and> r \<le> of_int MAX_SAFE_INTEGER
                  then Inr \<lfloor>r\<rfloor> else Inr defaultVal
       | _ \<Rightarrow> Inr defaultVal)"

definition MAX_UINT32 :: int where "MAX_UINT32 = 2 ^ 32"

text \<open>
  \<^verbatim>\<open>source.copy(target, targetStart, sourceStart, sourceEnd)\<close> ; the result is the new
  contents of the target and the number of bytes copied. When both are the same buffer,
  \<^verbatim>\<open>copyWithin\<close> moves the same bytes.
\<close>

definition buffer_copy ::
  "bytes \<Rightarrow> u8_arg \<Rightarrow> js_arg \<Rightarrow> js_arg \<Rightarrow> js_arg \<Rightarrow> (bytes \<times> int) result" where
  "buffer_copy this target targetStart sourceStart sourceEnd =
     (case target of
        NotU8 _ \<Rightarrow> Inl (ERR_INVALID_ARG_TYPE ''target'')
      | U8 target \<Rightarrow>
        bindE (if targetStart = AUndef then Inr 0 else bindE (toInteger targetStart 0) (\<lambda>i.
          if i < 0 then Inl (ERR_OUT_OF_RANGE ''targetStart'' (js ''>= 0'')) else Inr i)) (\<lambda>targetStart.
        bindE (if sourceStart = AUndef then Inr 0 else bindE (toInteger sourceStart 0) (\<lambda>i.
          if i < 0 \<or> i > int (length this) then Inl (ERR_OUT_OF_RANGE ''sourceStart''
            (js ''>= 0 && <= '' @ show_int (int (length this))))
          else if i \<ge> MAX_UINT32
          then Inl (ERR_OUT_OF_RANGE ''sourceStart'' (js ''< '' @ show_int MAX_UINT32))
          else Inr i)) (\<lambda>sourceStart.
        bindE (if sourceEnd = AUndef then Inr (int (length this)) else bindE (toInteger sourceEnd 0) (\<lambda>i.
          if i < 0 then Inl (ERR_OUT_OF_RANGE ''sourceEnd'' (js ''>= 0''))
          else if i \<ge> MAX_UINT32
          then Inl (ERR_OUT_OF_RANGE ''sourceEnd'' (js ''< '' @ show_int MAX_UINT32))
          else Inr i)) (\<lambda>sourceEnd.
        if targetStart \<ge> int (length target) then Inr (target, 0)
        else
          let sourceEnd = (if sourceEnd > 0 \<and> sourceEnd < sourceStart then sourceStart else sourceEnd) in
          if sourceEnd = sourceStart then Inr (target, 0)
          else if length target = 0 \<or> length this = 0 then Inr (target, 0)
          else
            let sourceEnd = (if sourceEnd > int (length this) then int (length this) else sourceEnd);
                sourceEnd =
                  (if int (length target) - targetStart < sourceEnd - sourceStart
                   then int (length target) - targetStart + sourceStart else sourceEnd)
            in bindE (typed_set target (subarray this sourceStart sourceEnd) targetStart) (\<lambda>target.
                 Inr (target, sourceEnd - sourceStart))))))"

end
