(* ===== verification/Buffer_Ops_Laws.thy ===== *)
theory Buffer_Ops_Laws
  imports Buffer_Ops
begin

text \<open>
  The operations of \<^verbatim>\<open>internal/buffer.mjs\<close> on whole buffers against operations on lists of
  bytes: comparison is the lexicographic order, swapping reverses each group of bytes, and
  concatenation and copying are list operations.
\<close>

subsection \<open>Comparison\<close>

fun lex_cmp :: "bytes \<Rightarrow> bytes \<Rightarrow> int" where
  "lex_cmp [] [] = 0"
| "lex_cmp [] (y # ys) = -1"
| "lex_cmp (x # xs) [] = 1"
| "lex_cmp (x # xs) (y # ys) = (if x < y then -1 else if y < x then 1 else lex_cmp xs ys)"

lemma lex_cmp_refl [simp]: "lex_cmp xs xs = 0"
  by (induction xs) auto

lemma lex_cmp_Nil: "xs \<noteq> [] \<Longrightarrow> lex_cmp [] xs = -1" "xs \<noteq> [] \<Longrightarrow> lex_cmp xs [] = 1"
  by (cases xs; simp)+

lemma lex_cmp_eq_0: "lex_cmp xs ys = 0 \<longleftrightarrow> xs = ys"
  by (induction xs ys rule: lex_cmp.induct) auto

lemma lex_cmp_swap: "lex_cmp ys xs = - lex_cmp xs ys"
  by (induction xs ys rule: lex_cmp.induct) auto

lemma lex_cmp_less: "lex_cmp xs ys = -1 \<longleftrightarrow> ord_class.lexordp xs ys"
  by (induction xs ys rule: lex_cmp.induct) auto

lemma lex_cmp_range: "lex_cmp xs ys \<in> {-1, 0, 1}"
  by (induction xs ys rule: lex_cmp.induct) auto

lemma compare_loop_end: "len \<le> i \<Longrightarrow> compare_loop a b i len xy = xy"
  by (subst compare_loop.simps) simp

lemma compare_loop_drop:
  assumes "i \<le> length a" "i \<le> length b"
  shows "compare_sign (compare_loop a b i (min (length a) (length b))
      (int (length a), int (length b))) = lex_cmp (drop i a) (drop i b)"
  using assms
proof (induction "min (length a) (length b) - i" arbitrary: i)
  case 0
  have m: "min (length a) (length b) \<le> i" using "0.hyps" by simp
  then have "compare_loop a b i (min (length a) (length b)) xy = xy" for xy
    by (rule compare_loop_end)
  moreover have "i = length a \<or> i = length b" using m "0.prems" by (auto simp: min_le_iff_disj)
  ultimately show ?case
    using "0.prems" by (cases "drop i a"; cases "drop i b") (auto simp: compare_sign_def)
next
  case (Suc k)
  then have i: "i < length a" "i < length b" by simp_all
  have d: "drop i a = a ! i # drop (i + 1) a" "drop i b = b ! i # drop (i + 1) b"
    using i by (simp_all add: Cons_nth_drop_Suc)
  show ?case
  proof (cases "a ! i = b ! i")
    case True
    then show ?thesis
      using Suc i by (subst compare_loop.simps) (simp add: d)
  next
    case False
    then have "uint (a ! i) \<noteq> uint (b ! i)" by (simp add: word_uint_eq_iff)
    then show ?thesis
      using False i by (subst compare_loop.simps) (auto simp: d compare_sign_def word_less_def)
  qed
qed

lemma num_le_nat: "num_le (num_nat a) (num_nat b) \<longleftrightarrow> a \<le> b"
  by (auto simp: num_le_def num_eq_def)

lemma checked_nat:
  "checked (num_nat n) = (if n < kMaxLength then Inr (int n)
     else Inl (RangeError ''Attempt to allocate Buffer larger than maximum size''))"
proof (cases "n < kMaxLength")
  case True
  then have "to_int32 (int n) = int n" by (intro to_int32_id) (simp_all add: kMaxLength_def)
  then show ?thesis using True by (simp add: checked_def num_le_nat)
qed (simp add: checked_def num_le_nat)

lemma createBuffer_checked: "n < kMaxLength \<Longrightarrow> createBuffer (num_int (to_int32 (int n))) = Inr (replicate n 0)"
  using to_int32_id [of "int n"] by (simp add: createBuffer_def kMaxLength_def)

lemma fromArrayLike_eq:
  "fromArrayLike bs = (if length bs < kMaxLength then Inr bs
     else Inl (RangeError ''Attempt to allocate Buffer larger than maximum size''))"
  by (simp add: fromArrayLike_def checked_nat createBuffer_checked overwrite_def)

lemma Buffer_compare_lex:
  "length a < kMaxLength \<Longrightarrow> length b < kMaxLength \<Longrightarrow> Buffer_compare (U8 a) (U8 b) = Inr (lex_cmp a b)"
  using compare_loop_drop [of 0 a b] by (simp add: Buffer_compare_def copy_arg_def fromArrayLike_eq)

lemma subarray_nat:
  "i \<le> j \<Longrightarrow> j \<le> length b \<Longrightarrow> subarray b (int i) (int j) = take (j - i) (drop i b)"
  by (simp add: subarray_def rel_index_def Let_def nat_diff_distrib')

lemma to_uint32_nat: "i \<le> kMaxLength \<Longrightarrow> to_uint32 (int i) = int i"
  by (simp add: to_uint32_mod kMaxLength_def)

lemma validateOffset_nat:
  "validateOffset (arg_nat i) name 0 (int hi) = (if i \<le> hi then Inr (int i)
     else Inl (ERR_OUT_OF_RANGE name (js ''>= '' @ show_int 0 @ js '' && <= '' @ show_int (int hi))))"
  by (simp add: validateOffset_def)

lemma rel_num_nat [simp]: "rel_num (arg_nat i) = Inr (num_nat i)"
  by (simp add: rel_num_def)

lemma arg_uint32_nat: "i \<le> kMaxLength \<Longrightarrow> arg_uint32 (arg_nat i) = Inr (int i)"
  using to_uint32_nat [of i] by (simp add: arg_uint32_def del: num_trunc.simps)

lemma range_compare_nat:
  assumes "e \<le> length target" "te \<le> length this" "length target \<le> kMaxLength" "length this \<le> kMaxLength"
  shows "range_compare this target (int s) (int e) (arg_nat ts) (arg_nat te)
    = Inr (lex_cmp (take (te - ts) (drop ts this)) (take (e - s) (drop s target)))"
proof -
  let ?a = "take (te - ts) (drop ts this)" and ?b = "take (e - s) (drop s target)"
  consider "te \<le> ts" "e \<le> s" | "te \<le> ts" "s < e" | "ts < te" "e \<le> s" | "ts < te" "s < e" by linarith
  then show ?thesis
  proof cases
    case 4
    have len: "length ?a = te - ts" "length ?b = e - s" using assms by simp_all
    have "compare_sign (compare_loop ?a ?b 0 (nat (min (int te - int ts) (int e - int s)))
        (int te - int ts, int e - int s)) = lex_cmp ?a ?b"
    proof -
      have m: "nat (min (int (te - ts)) (int (e - s))) = min (te - ts) (e - s)"
        "int te - int ts = int (te - ts)" "int e - int s = int (e - s)" using 4 by auto
      show ?thesis using compare_loop_drop [of 0 ?a ?b] unfolding len m by simp
    qed
    then show ?thesis
      using 4 assms
      by (simp add: range_compare_def num_le_nat subarray_nat to_uint32_nat arg_uint32_nat Let_def)
  qed (use assms in \<open>auto simp: range_compare_def num_le_nat lex_cmp_Nil\<close>)
qed

lemma small_buffer: "length bs < 10 \<Longrightarrow> length bs < kMaxLength"
  by (simp add: kMaxLength_def)

text \<open>C36. \<^verbatim>\<open>Buffer.compare\<close> of buffers below the maximum length is the lexicographic order of
  the bytes: it returns -1 exactly when the first buffer comes first, 0 exactly when the contents are
  equal, 1 otherwise, and \<^verbatim>\<open>equals\<close> tells equal contents. With an argument of the maximum length
  the copy fails and both throw, save that a buffer always equals itself.\<close>

theorem compare_lexicographic:
  assumes "length a < kMaxLength" "length b < kMaxLength" "kMaxLength \<le> length c"
  shows "Buffer_compare (U8 a) (U8 b)
      = Inr (if ord_class.lexordp a b then -1 else if ord_class.lexordp b a then 1 else 0)
    \<and> (Buffer_compare (U8 a) (U8 b) = Inr 0 \<longleftrightarrow> a = b)
    \<and> buffer_equals False a (U8 b) = Inr (a = b)
    \<and> (\<forall>x y. x = U8 c \<or> y = U8 c \<longrightarrow>
         Buffer_compare x y = Inl (RangeError ''Attempt to allocate Buffer larger than maximum size''))
    \<and> buffer_equals False a (U8 c) = Inl (RangeError ''Attempt to allocate Buffer larger than maximum size'')
    \<and> buffer_equals True c (U8 c) = Inr True"
proof -
  let ?e = "Inl (RangeError ''Attempt to allocate Buffer larger than maximum size'')"
  have c: "copy_arg (U8 c) = ?e" using assms(3) by (simp add: copy_arg_def fromArrayLike_eq)
  have copy: "copy_arg x = Inr x \<or> copy_arg x = ?e" for x by (cases x) (simp_all add: copy_arg_def fromArrayLike_eq)
  have "Buffer_compare x y = ?e" if "x = U8 c \<or> y = U8 c" for x y
  proof (cases "copy_arg x")
    case (Inl e)
    then show ?thesis using copy [of x] by (simp add: Buffer_compare_def)
  next
    case (Inr x')
    then have "y = U8 c" using that c by auto
    then show ?thesis using Inr c by (simp add: Buffer_compare_def)
  qed
  then have error: "\<forall>x y. x = U8 c \<or> y = U8 c \<longrightarrow> Buffer_compare x y = ?e" by blast
  moreover have "buffer_equals False a (U8 c) = ?e" using error by (simp add: buffer_equals_def)
  moreover have "lex_cmp a b = (if ord_class.lexordp a b then -1 else if ord_class.lexordp b a then 1 else 0)"
    using lex_cmp_range [of a b] lex_cmp_less [of a b] lex_cmp_less [of b a] lex_cmp_swap [of a b] by auto
  ultimately show ?thesis
    using Buffer_compare_lex [OF assms(1,2)] lex_cmp_eq_0 [of a b] by (simp add: buffer_equals_def)
qed

theorem compare_lexicographic_witness:
  "Buffer_compare (U8 [1, 2]) (U8 [1, 3]) = Inr (-1) \<and> buffer_equals False [1, 2] (U8 [1, 3]) = Inr False
   \<and> Buffer_compare (NotU8 0) (U8 (replicate kMaxLength 0))
       = Inl (RangeError ''Attempt to allocate Buffer larger than maximum size'')"
  using compare_lexicographic [of "[1, 2]" "[1, 3]" "replicate kMaxLength 0"] small_buffer [of "[1, 2]"] small_buffer [of "[1, 3]"]
  by simp

text \<open>\<^verbatim>\<open>buf.compare(target, start, end, thisStart, thisEnd)\<close> compares the two slices
  lexicographically, for ends inside the buffers, provided that the end in the target does not
  exceed the length of the receiver when \<^verbatim>\<open>thisEnd\<close> is given.\<close>

lemma compare_slices:
  assumes "e \<le> length target" "te \<le> length this" "s \<le> kMaxLength"
    and "length target \<le> kMaxLength" "length this \<le> kMaxLength" "e \<le> length this"
  shows "buffer_compare this (U8 target) (arg_nat s) (arg_nat e) (arg_nat ts) (arg_nat te)
      = Inr (lex_cmp (take (te - ts) (drop ts this)) (take (e - s) (drop s target)))
    \<and> buffer_compare this (U8 target) (arg_nat s) (arg_nat e) AUndef AUndef
      = Inr (lex_cmp this (take (e - s) (drop s target)))"
  using assms range_compare_nat [of e target te this s ts]
    range_compare_nat [of e target "length this" this s 0]
  by (simp add: buffer_compare_def validateOffset_nat)

text \<open>When \<^verbatim>\<open>thisEnd\<close> is given, the call checks the end in the target a second time
  against the length of the receiver instead of checking \<^verbatim>\<open>thisEnd\<close>: it throws
  \<^verbatim>\<open>ERR_OUT_OF_RANGE\<close> for \<^verbatim>\<open>sourceEnd\<close> whenever the target slice ends beyond the length of
  the receiver, even when both slices are inside their buffers.\<close>

lemma compare_checks_target_end:
  assumes "e \<le> length target" "s \<le> kMaxLength" "length this < e" "te \<le> length this"
  shows "\<exists>r. buffer_compare this (U8 target) (arg_nat s) (arg_nat e) (arg_nat ts) (arg_nat te)
    = Inl (ERR_OUT_OF_RANGE ''sourceEnd'' r)"
  using assms by (simp add: buffer_compare_def validateOffset_nat)

subsection \<open>Swapping\<close>

text \<open>The list with each group of \<open>n\<close> entries reversed.\<close>

function rev_groups :: "nat \<Rightarrow> 'a list \<Rightarrow> 'a list" where
  "rev_groups n xs = (if xs = [] \<or> n = 0 then xs else rev (take n xs) @ rev_groups n (drop n xs))"
  by auto
termination by (relation "measure (length \<circ> snd)") auto

declare rev_groups.simps [simp del]

lemma length_rev_groups [simp]: "length (rev_groups n xs) = length xs"
  by (induction n xs rule: rev_groups.induct) (subst rev_groups.simps, auto)

lemma rev_groups_append:
  "length h = n \<Longrightarrow> 0 < n \<Longrightarrow> rev_groups n (h @ r) = rev h @ rev_groups n r"
  by (subst rev_groups.simps) auto

lemma rev_groups_rev_groups:
  "n dvd length xs \<Longrightarrow> rev_groups n (rev_groups n xs) = xs"
proof (induction n xs rule: rev_groups.induct)
  case (1 n xs)
  show ?case
  proof (cases "xs = [] \<or> n = 0")
    case False
    then have n: "n \<le> length xs" using "1.prems" by (auto dest: dvd_imp_le)
    then have "n dvd length (drop n xs)" using "1.prems" by (simp add: dvd_diff_nat)
    then have ih: "rev_groups n (rev_groups n (drop n xs)) = drop n xs" using 1 False by blast
    have "rev_groups n xs = rev (take n xs) @ rev_groups n (drop n xs)"
      using False by (simp add: rev_groups.simps)
    moreover have "length (rev (take n xs)) = n" using n by simp
    ultimately show ?thesis
      using False ih by (simp add: rev_groups_append)
  qed (simp add: rev_groups.simps)
qed

lemma rev_groups_slice:
  "n * k + n \<le> length xs \<Longrightarrow> take n (drop (n * k) (rev_groups n xs)) = rev (take n (drop (n * k) xs))"
proof (induction k arbitrary: xs)
  case 0
  then show ?case by (cases "xs = [] \<or> n = 0") (auto simp: rev_groups.simps)
next
  case (Suc k)
  show ?case
  proof (cases "n = 0")
    case False
    have ih: "take n (drop (n * k) (rev_groups n (drop n xs))) = rev (take n (drop (n * k) (drop n xs)))"
      by (rule Suc.IH) (use Suc.prems in simp)
    have "rev_groups n xs = rev (take n xs) @ rev_groups n (drop n xs)"
      using False Suc.prems by (subst rev_groups.simps) auto
    moreover have "length (rev (take n xs)) = n" using Suc.prems by simp
    ultimately have "drop (n * Suc k) (rev_groups n xs) = drop (n * k) (rev_groups n (drop n xs))"
      by simp
    then show ?thesis using ih by (simp add: add.commute)
  qed simp
qed

lemma swap_loop_groups:
  assumes body: "\<And>b i. i + s \<le> length b \<Longrightarrow> body b i = overwrite b i (rev (take s (drop i b)))"
    and "0 < s"
  shows "s dvd length b - i \<Longrightarrow> i \<le> length b \<Longrightarrow>
    swap_loop body s b i (length b) = take i b @ rev_groups s (drop i b)"
proof (induction "length b - i" arbitrary: b i rule: less_induct)
  case less
  show ?case
  proof (cases "i < length b")
    case True
    then have fits: "i + s \<le> length b" using less.prems by (auto dest: dvd_imp_le)
    let ?b = "overwrite b i (rev (take s (drop i b)))"
    have len: "length ?b = length b" using fits by simp
    have "swap_loop body s b i (length b) = swap_loop body s ?b (i + s) (length ?b)"
      using True \<open>0 < s\<close> body [OF fits] len by (subst swap_loop.simps) simp
    also have "\<dots> = take (i + s) ?b @ rev_groups s (drop (i + s) ?b)"
    proof (rule less.hyps)
      show "length ?b - (i + s) < length b - i" using True \<open>0 < s\<close> len by simp
      have "s dvd length b - i - s" using less.prems dvd_diff_nat [of s "length b - i" s] by simp
      then show "s dvd length ?b - (i + s)" using len by simp
    qed (use fits len in simp)
    also have "take (i + s) ?b = take i b @ rev (take s (drop i b))"
      using fits by (simp add: overwrite_def)
    also have "drop (i + s) ?b = drop s (drop i b)"
      using fits overwrite_after [of i "rev (take s (drop i b))" "i + s" b] by (simp add: add.commute)
    finally show ?thesis
      using True \<open>0 < s\<close> by (simp add: rev_groups.simps [of s "drop i b"])
  next
    case False
    then show ?thesis using less.prems by (simp add: swap_loop.simps rev_groups.simps)
  qed
qed

lemma slice_groups:
  "i + 2 \<le> length b \<Longrightarrow> take 2 (drop i b) = [b ! i, b ! (i + 1)]"
  "i + 4 \<le> length b \<Longrightarrow> take 4 (drop i b) = [b ! i, b ! (i + 1), b ! (i + 2), b ! (i + 3)]"
  "i + 8 \<le> length b \<Longrightarrow> take 8 (drop i b) = [b ! i, b ! (i + 1), b ! (i + 2), b ! (i + 3),
     b ! (i + 4), b ! (i + 5), b ! (i + 6), b ! (i + 7)]"
  by (simp_all add: eval_nat_numeral slice_Suc)

lemma swap_twice_length [simp]: "length (swap b n m) = length b"
  by (simp add: swap_def Let_def)

lemma swap16_body:
  "i + 2 \<le> length b \<Longrightarrow> swap b i (i + 1) = overwrite b i (rev (take 2 (drop i b)))"
  using overwrite_ascending(2) [of i b "b ! (i + 1)" "b ! i"] by (simp add: slice_groups swap_def Let_def)

lemma swap32_body:
  assumes "i + 4 \<le> length b"
  shows "swap (swap b i (i + 3)) (i + 1) (i + 2) = overwrite b i (rev (take 4 (drop i b)))"
  using assms overwrite_ascending(4) [of i b "b ! (i + 3)" "b ! (i + 2)" "b ! (i + 1)" "b ! i"]
  by (simp add: slice_groups swap_def Let_def list_update_swap)

lemma swap64_body:
  assumes "i + 8 \<le> length b"
  shows "swap (swap (swap (swap b i (i + 7)) (i + 1) (i + 6)) (i + 2) (i + 5)) (i + 3) (i + 4)
    = overwrite b i (rev (take 8 (drop i b)))"
  using assms overwrite_ascending(7) [of i b "b ! (i + 7)" "b ! (i + 6)" "b ! (i + 5)" "b ! (i + 4)"
      "b ! (i + 3)" "b ! (i + 2)" "b ! (i + 1)" "b ! i"]
  by (simp add: slice_groups swap_def Let_def list_update_swap)

lemmas swap_defs = swap16_def swap32_def swap64_def

lemma swaps_groups:
  "swap16 b = (if 2 dvd length b then Inr (rev_groups 2 b)
     else Inl (RangeError ''Buffer size must be a multiple of 16-bits''))"
  "swap32 b = (if 4 dvd length b then Inr (rev_groups 4 b)
     else Inl (RangeError ''Buffer size must be a multiple of 32-bits''))"
  "swap64 b = (if 8 dvd length b then Inr (rev_groups 8 b)
     else Inl (RangeError ''Buffer size must be a multiple of 64-bits''))"
  using swap_loop_groups [OF swap16_body, of b 0] swap_loop_groups [OF swap32_body, of b 0]
    swap_loop_groups [OF swap64_body, of b 0]
  by (simp_all add: swap_defs dvd_eq_mod_eq_0)

lemma be_dec_rev: "be_dec (rev xs) = le_dec xs"
  by (simp add: be_dec_def)

text \<open>C37. The byte swaps reverse each group of 2, 4 or 8 bytes, in place, exactly when the length is
  a multiple of the group: swapping twice restores the buffer, and an aligned big-endian field of
  the swapped buffer reads as the little-endian field of the original, and the other way round.\<close>

theorem swap_changes_byte_order:
  shows "(2 dvd length b \<longleftrightarrow> (\<exists>b'. swap16 b = Inr b')) \<and> (4 dvd length b \<longleftrightarrow> (\<exists>b'. swap32 b = Inr b'))
    \<and> (8 dvd length b \<longleftrightarrow> (\<exists>b'. swap64 b = Inr b'))
    \<and> (\<forall>b'. swap16 b = Inr b' \<longrightarrow> swap16 b' = Inr b \<and> (\<forall>k. 2 * k + 2 \<le> length b \<longrightarrow>
        readUInt16BE b' (arg_nat (2 * k)) = readUInt16LE b (arg_nat (2 * k))
        \<and> readUInt16LE b' (arg_nat (2 * k)) = readUInt16BE b (arg_nat (2 * k))))
    \<and> (\<forall>b'. swap32 b = Inr b' \<longrightarrow> swap32 b' = Inr b \<and> (\<forall>k. 4 * k + 4 \<le> length b \<longrightarrow>
        readUInt32BE b' (arg_nat (4 * k)) = readUInt32LE b (arg_nat (4 * k))
        \<and> readUInt32LE b' (arg_nat (4 * k)) = readUInt32BE b (arg_nat (4 * k))))
    \<and> (\<forall>b'. swap64 b = Inr b' \<longrightarrow> swap64 b' = Inr b \<and> (\<forall>k. 8 * k + 8 \<le> length b \<longrightarrow>
        length b \<le> kMaxLength \<longrightarrow>
        readBigUInt64BE b' (arg_nat (8 * k)) = readBigUInt64LE b (arg_nat (8 * k))
        \<and> readBigUInt64LE b' (arg_nat (8 * k)) = readBigUInt64BE b (arg_nat (8 * k))))"
proof -
  have s: "take n (drop (n * k) (rev_groups n b)) = rev (take n (drop (n * k) b))"
    if "n * k + n \<le> length b" for n k using that by (rule rev_groups_slice)
  have d: "be_dec (take n (drop (n * k) (rev_groups n b))) = le_dec (take n (drop (n * k) b))"
    "le_dec (take n (drop (n * k) (rev_groups n b))) = be_dec (take n (drop (n * k) b))"
    if "n * k + n \<le> length b" for n k
    using s [OF that] by (simp_all add: be_dec_rev be_dec_def)
  show ?thesis
    by (intro conjI allI impI; auto simp: swaps_groups rev_groups_rev_groups readUInt_LE readUInt_BE
        readBig_LE readBig_BE d simp del: of_nat_mult split: if_splits)
qed

theorem swap_changes_byte_order_witness:
  "swap32 [1, 2, 3, 4] = Inr [4, 3, 2, 1]
   \<and> readUInt32BE [4, 3, 2, 1] (arg_nat 0) = readUInt32LE [1, 2, 3, 4] (arg_nat 0)"
proof -
  have "swap32 [1, 2, 3, 4] = Inr [4, 3, 2, 1]" by (simp add: swaps_groups rev_groups.simps eval_nat_numeral)
  then show ?thesis using swap_changes_byte_order [of "[1, 2, 3, 4]"] by fastforce
qed

subsection \<open>Concatenation and copying\<close>

lemma nat_int_diff: "nat (int a - int b) = a - b"
  by arith

lemma copyActual_all:
  assumes "pos \<le> length target"
  shows "copyActual src target (int pos) 0 (int (length src))
    = Inr (overwrite target pos (take (length target - pos) src), int (min (length src) (length target - pos)))"
  using assms by (auto simp: copyActual_def typed_set_def Let_def min_def nat_int_diff)

lemma overwrite_append:
  assumes "i + length xs + length ys \<le> length b"
  shows "overwrite (overwrite b i xs) (i + length xs) ys = overwrite b i (xs @ ys)"
  using assms by (simp add: overwrite_def ac_simps)

lemma concat_loop_eq:
  assumes "pos \<le> length buffer"
  shows "concat_loop (map U8 bs) buffer (int pos)
    = Inr (overwrite buffer pos (take (length buffer - pos) (concat bs)),
        int (min (pos + length (concat bs)) (length buffer)))"
  using assms
proof (induction bs arbitrary: buffer pos)
  case (Cons b bs)
  let ?k = "min (length b) (length buffer - pos)"
  let ?t = "take (length buffer - pos) b"
  let ?b1 = "overwrite buffer pos ?t"
  have len: "length ?b1 = length buffer" using Cons.prems by simp
  have p: "pos + ?k \<le> length ?b1" using Cons.prems len by simp
  have k: "length ?t = ?k" by (simp add: min.commute)
  have "concat_loop (map U8 (b # bs)) buffer (int pos) = concat_loop (map U8 bs) ?b1 (int (pos + ?k))"
    using Cons.prems by (simp add: copyActual_all)
  also have "\<dots> = Inr (overwrite ?b1 (pos + ?k) (take (length buffer - (pos + ?k)) (concat bs)),
        int (min (pos + ?k + length (concat bs)) (length buffer)))"
    using Cons.IH [OF p] len by simp
  also have "overwrite ?b1 (pos + ?k) (take (length buffer - (pos + ?k)) (concat bs))
      = overwrite buffer pos (?t @ take (length buffer - (pos + ?k)) (concat bs))"
    using overwrite_append [of pos ?t "take (length buffer - (pos + ?k)) (concat bs)" buffer] k Cons.prems
    by simp
  also have "?t @ take (length buffer - (pos + ?k)) (concat bs) = take (length buffer - pos) (concat (b # bs))"
    by (auto simp: min_def)
  also have "min (pos + ?k + length (concat bs)) (length buffer)
      = min (pos + length (concat (b # bs))) (length buffer)"
    using Cons.prems by (auto simp: min_def)
  finally show ?case .
qed simp

lemma allocUnsafe_nat:
  "n < kMaxLength \<Longrightarrow> allocUnsafe (arg_nat n) = Inr (replicate n 0)"
proof -
  assume n: "n < kMaxLength"
  then have t: "to_int32 (int n) = int n" by (intro to_int32_id) (simp_all add: kMaxLength_def)
  have "\<not> num_less (num_nat kMaxLength) (num_nat n)" "num_le (num_int 0) (num_nat n)"
    "num_le (num_nat n) (num_nat kMaxLength)" "\<not> num_le (num_nat kMaxLength) (num_nat n)"
    "\<not> num_less (num_nat n) (num_int 0)"
    using n num_le_nat [of 0 n] by (simp_all add: num_le_nat)
  then show ?thesis
    by (simp add: allocUnsafe_def assertSize_def checked_def createBuffer_def t
        validateNumber_def del: num_less.simps num_trunc.simps of_int_0)
qed

text \<open>C23. \<^verbatim>\<open>Buffer.concat\<close> of a non-empty list of byte arrays is their concatenation; with a
  length it is the concatenation cut or padded with zeros to that length, both below the maximum
  length. The empty list gives the empty buffer whatever the length argument.\<close>

theorem concat_bytes:
  assumes "bs \<noteq> []" "n < kMaxLength" "length (concat bs) < kMaxLength"
  shows "Buffer_concat (map U8 bs) AUndef = Inr (concat bs)
    \<and> Buffer_concat (map U8 bs) (arg_nat n) = Inr (take n (concat bs @ replicate n 0))
    \<and> Buffer_concat [] len = Inr []"
proof -
  define c where "c = concat bs"
  have run: "bindE (allocUnsafe (arg_nat m)) (\<lambda>buffer.
      bindE (concat_loop (map U8 bs) buffer 0) (\<lambda>(buffer, pos).
        if pos < int m then Inr (overwrite buffer (nat pos) (replicate (nat (int m - pos)) 0))
        else Inr buffer)) = Inr (take m (c @ replicate m 0))" if m: "m < kMaxLength" for m
  proof -
    have "concat_loop (map U8 bs) (replicate m 0) 0
        = Inr (overwrite (replicate m 0) 0 (take m c), int (min (length c) m))"
      using concat_loop_eq [of 0 "replicate m 0" bs] by (simp add: c_def)
    moreover have "overwrite (replicate m 0) 0 (take m c) = take m c @ replicate (m - length c) 0"
      by (simp add: overwrite_def min_def)
    ultimately show ?thesis
      unfolding allocUnsafe_nat [OF m] bindE.simps
      by (cases "length c < m") (simp_all add: overwrite_def nat_int_diff min_def)
  qed
  have total: "int (sum_list (map u8_length (map U8 bs))) = int (length c)"
    by (simp add: c_def length_concat comp_def)
  have v: "validateOffset (arg_nat n) ''length'' 0 MAX_SAFE_INTEGER = Inr (int n)"
    using assms(2) by (simp add: validateOffset_def MAX_SAFE_INTEGER_def kMaxLength_def)
  have "length c < kMaxLength" using assms(3) by (simp add: c_def)
  from run [OF this] have "Buffer_concat (map U8 bs) AUndef = Inr c"
    using assms(1) unfolding Buffer_concat_def total by (simp del: bindE_eq_Inr)
  moreover from run [OF assms(2)] have "Buffer_concat (map U8 bs) (arg_nat n) = Inr (take n (c @ replicate n 0))"
    using assms(1) v unfolding Buffer_concat_def by (simp del: bindE_eq_Inr)
  ultimately show ?thesis by (simp add: c_def Buffer_concat_def [of "[]"])
qed

theorem concat_bytes_witness:
  "Buffer_concat [U8 [1, 2], U8 [], U8 [3]] AUndef = Inr [1, 2, 3]
   \<and> Buffer_concat [U8 [1, 2], U8 [], U8 [3]] (arg_nat 5) = Inr [1, 2, 3, 0, 0]
   \<and> Buffer_concat [] (arg_nat 5) = Inr []"
proof -
  have "replicate 5 (0 :: 8 word) = [0, 0, 0, 0, 0]" by (simp add: eval_nat_numeral)
  then show ?thesis using concat_bytes [of "[[1, 2], [], [3]]" 5 "arg_nat 5"] by (simp add: kMaxLength_def)
qed

lemma toInteger_nat: "i \<le> kMaxLength \<Longrightarrow> toInteger (arg_nat i) d = Inr (int i)"
proof -
  assume "i \<le> kMaxLength"
  then have "(of_nat i :: rat) \<le> of_nat kMaxLength" by (simp only: of_nat_le_iff)
  then show ?thesis by (simp add: toInteger_def MAX_SAFE_INTEGER_def kMaxLength_def)
qed

lemma buffer_copy_nat:
  assumes "s \<le> e" "s \<le> length this" "t \<le> kMaxLength" "e \<le> kMaxLength"
    and "length this \<le> kMaxLength" "length target \<le> kMaxLength"
  defines "n \<equiv> min (min e (length this) - s) (length target - t)"
  shows "buffer_copy this (U8 target) (arg_nat t) (arg_nat s) (arg_nat e)
    = Inr (overwrite target t (take n (drop s this)), int n)"
proof -
  have e: "min e (length this) = s + (min e (length this) - s)" using assms(1,2) by simp
  have small: "\<not> int s \<ge> MAX_UINT32" "\<not> int e \<ge> MAX_UINT32"
    using assms by (simp_all add: MAX_UINT32_def kMaxLength_def)
  have start: "toInteger (arg_nat t) 0 = Inr (int t)" "toInteger (arg_nat s) 0 = Inr (int s)"
    "toInteger (arg_nat e) 0 = Inr (int e)" using assms by (simp_all add: toInteger_nat)
  show ?thesis
  proof (cases "t < length target \<and> s < e \<and> s < length this")
    case True
    let ?e = "if int e > int (length this) then int (length this) else int e"
    have ee: "?e = int (min e (length this))" by simp
    let ?f = "if int (length target) - int t < ?e - int s then int (length target) - int t + int s else ?e"
    have f: "?f = int (s + n)" using True unfolding n_def ee by (auto simp: min_def)
    have sub: "subarray this (int s) (int (s + n)) = take n (drop s this)"
      using True by (subst subarray_nat) (auto simp: n_def)
    have set: "typed_set target (take n (drop s this)) (int t) = Inr (overwrite target t (take n (drop s this)))"
      using True by (auto simp: typed_set_def n_def)
    have c: "(int t < 0) = False" "(int s < 0 \<or> int s > int (length this)) = False"
      "(int s \<ge> MAX_UINT32) = False" "(int e < 0) = False" "(int e \<ge> MAX_UINT32) = False"
      "(int t \<ge> int (length target)) = False" "(int e > 0 \<and> int e < int s) = False"
      "(int e = int s) = False" "(length target = 0 \<or> length this = 0) = False"
      "int (s + n) - int s = int n" "(ANum x = AUndef) = False" for x
      using True small assms(1,2) by auto
    show ?thesis
      by (simp only: buffer_copy_def Let_def u8_arg.case start bindE.simps c if_False f sub set)
  next
    case False
    then have "n = 0" using assms(1,2) by (auto simp: n_def)
    moreover have "typed_set target (subarray this (int s) (int s)) (int t) = Inr target" if "t < length target"
      using that assms(2) by (simp add: subarray_nat typed_set_def)
    ultimately show ?thesis
      using False small start assms(1,2) by (auto simp: buffer_copy_def Let_def)
  qed
qed

text \<open>C38. \<^verbatim>\<open>source.copy(target, t, s, e)\<close> with integer arguments and \<open>s \<le> e\<close> copies as many bytes
  of the slice as both buffers have room for, leaves the rest of the target unchanged and returns
  that number.\<close>

theorem copy_slice:
  assumes "s \<le> e" "s \<le> length this" "t \<le> kMaxLength" "e \<le> kMaxLength"
    and "length this \<le> kMaxLength" "length target \<le> kMaxLength"
  defines "n \<equiv> min (min e (length this) - s) (length target - t)"
  shows "buffer_copy this (U8 target) (arg_nat t) (arg_nat s) (arg_nat e)
    = Inr (overwrite target t (take n (drop s this)), int n)"
  unfolding n_def by (rule buffer_copy_nat [OF assms(1-6)])

theorem copy_slice_witness:
  "buffer_copy [1, 2, 3, 4] (U8 [0, 0, 0]) (arg_nat 1) (arg_nat 1) (arg_nat 4) = Inr ([0, 2, 3], 2)"
  using copy_slice [of 1 4 "[1, 2, 3, 4]" 1 "[0, 0, 0]"] by (simp add: kMaxLength_def overwrite_def)

text \<open>A source range that ends at 0 but starts later is not adjusted to the empty range:
  \<^verbatim>\<open>copy\<close> then copies nothing and returns a negative number of bytes.\<close>

lemma copy_negative_count:
  assumes "0 < s" "s \<le> length this" "t < length target" "t \<le> kMaxLength" "length this \<le> kMaxLength"
  shows "buffer_copy this (U8 target) (arg_nat t) (arg_nat s) (arg_nat 0) = Inr (target, - int s)"
proof -
  have start: "toInteger (arg_nat t) 0 = Inr (int t)" "toInteger (arg_nat s) 0 = Inr (int s)"
    "toInteger (arg_nat 0) 0 = Inr 0"
    using assms toInteger_nat [of 0 0] by (simp_all add: toInteger_nat)
  have sub: "subarray this (int s) 0 = []" by (simp add: subarray_def rel_index_def Let_def)
  have "typed_set target [] (int t) = Inr target" using assms(3) by (simp add: typed_set_def)
  moreover have "\<not> int s \<ge> MAX_UINT32" "(0::int) < MAX_UINT32"
    using assms by (simp_all add: MAX_UINT32_def kMaxLength_def)
  ultimately show ?thesis
    using start assms sub unfolding buffer_copy_def Let_def
    by (auto simp del: of_nat_0)
qed

end
