(* ===== verification/Buffer_Text.thy ===== *)
theory Buffer_Text
  imports Buffer_Ops_Laws
begin

unbundle bit_operations_syntax

text \<open>
  Text in buffers: \<^verbatim>\<open>internal/normalize_encoding.mjs\<close>, the conversions of
  \<^verbatim>\<open>internal_binding/_utils.ts\<close>, and the slices, writes, \<^verbatim>\<open>toString\<close>, \<^verbatim>\<open>write\<close> and
  \<^verbatim>\<open>fromString\<close> of \<^verbatim>\<open>internal/buffer.mjs\<close>. UTF-8 and base64 are encoded and decoded by
  the host (\<^verbatim>\<open>TextEncoder\<close>, \<^verbatim>\<open>TextDecoder\<close> and \<^verbatim>\<open>deno_web/00_infra.js\<close>); these
  conversions, and \<^verbatim>\<open>toLowerCase\<close>, are the fields of the record \<open>host\<close>; \<open>encodeInto s n\<close> is what
  the encoder stores of \<open>s\<close> in an array of \<open>n\<close> bytes.
\<close>

record host =
  toLowerCase :: "js_string \<Rightarrow> js_string"
  utf8Encode :: "js_string \<Rightarrow> bytes"
  encodeInto :: "js_string \<Rightarrow> nat \<Rightarrow> bytes"
  utf8Decode :: "bytes \<Rightarrow> js_string"
  forgivingBase64Encode :: "bytes \<Rightarrow> js_string"
  forgivingBase64UrlEncode :: "bytes \<Rightarrow> js_string"
  forgivingBase64Decode :: "js_string \<Rightarrow> bytes result"
  forgivingBase64UrlDecode :: "js_string \<Rightarrow> bytes result"

subsection \<open>Names of encodings\<close>

definition slowCases :: "host \<Rightarrow> js_string \<Rightarrow> js_string option" where
  "slowCases h enc =
     (let low = toLowerCase h enc in
      if length enc = 4 then
        if enc = js ''UTF8'' then Some (js ''utf8'')
        else if enc = js ''ucs2'' \<or> enc = js ''UCS2'' then Some (js ''utf16le'')
        else if low = js ''utf8'' then Some (js ''utf8'')
        else if low = js ''ucs2'' then Some (js ''utf16le'')
        else None
      else if length enc = 3 then
        if enc = js ''hex'' \<or> enc = js ''HEX'' \<or> low = js ''hex'' then Some (js ''hex'') else None
      else if length enc = 5 then
        if enc = js ''ascii'' then Some (js ''ascii'')
        else if enc = js ''ucs-2'' then Some (js ''utf16le'')
        else if enc = js ''UTF-8'' then Some (js ''utf8'')
        else if enc = js ''ASCII'' then Some (js ''ascii'')
        else if enc = js ''UCS-2'' then Some (js ''utf16le'')
        else if low = js ''utf-8'' then Some (js ''utf8'')
        else if low = js ''ascii'' then Some (js ''ascii'')
        else if low = js ''ucs-2'' then Some (js ''utf16le'')
        else None
      else if length enc = 6 then
        if enc = js ''base64'' then Some (js ''base64'')
        else if enc = js ''latin1'' \<or> enc = js ''binary'' then Some (js ''latin1'')
        else if enc = js ''BASE64'' then Some (js ''base64'')
        else if enc = js ''LATIN1'' \<or> enc = js ''BINARY'' then Some (js ''latin1'')
        else if low = js ''base64'' then Some (js ''base64'')
        else if low = js ''latin1'' \<or> low = js ''binary'' then Some (js ''latin1'')
        else None
      else if length enc = 7 then
        if enc = js ''utf16le'' \<or> enc = js ''UTF16LE'' \<or> low = js ''utf16le''
        then Some (js ''utf16le'') else None
      else if length enc = 8 then
        if enc = js ''utf-16le'' \<or> enc = js ''UTF-16LE'' \<or> low = js ''utf-16le''
        then Some (js ''utf16le'') else None
      else if length enc = 9 then
        if enc = js ''base64url'' \<or> enc = js ''BASE64URL'' \<or> low = js ''base64url''
        then Some (js ''base64url'') else None
      else if enc = [] then Some (js ''utf8'')
      else None)"

text \<open>\<^verbatim>\<open>null\<close> and \<^verbatim>\<open>undefined\<close> are \<^const>\<open>None\<close>.\<close>

definition normalizeEncoding :: "host \<Rightarrow> js_string option \<Rightarrow> js_string option" where
  "normalizeEncoding h enc =
     (case enc of
        None \<Rightarrow> Some (js ''utf8'')
      | Some e \<Rightarrow> if e = js ''utf8'' \<or> e = js ''utf-8'' then Some (js ''utf8'') else slowCases h e)"

definition isEncoding :: "host \<Rightarrow> js_arg \<Rightarrow> bool" where
  "isEncoding h encoding =
     (case encoding of
        AStr e _ \<Rightarrow> length e \<noteq> 0 \<and> normalizeEncoding h (Some e) \<noteq> None
      | _ \<Rightarrow> False)"

datatype encodingOps = Ascii | Base64 | Base64url | Hex | Latin1 | Ucs2 | Utf8 | Utf16le

definition getEncodingOps :: "host \<Rightarrow> js_string \<Rightarrow> encodingOps option" where
  "getEncodingOps h encoding =
     (let e = toLowerCase h encoding in
      if length e = 4 then
        if e = js ''utf8'' then Some Utf8 else if e = js ''ucs2'' then Some Ucs2 else None
      else if length e = 5 then
        if e = js ''utf-8'' then Some Utf8
        else if e = js ''ascii'' then Some Ascii
        else if e = js ''ucs-2'' then Some Ucs2 else None
      else if length e = 7 then if e = js ''utf16le'' then Some Utf16le else None
      else if length e = 8 then if e = js ''utf-16le'' then Some Utf16le else None
      else if length e = 6 then
        if e = js ''latin1'' \<or> e = js ''binary'' then Some Latin1
        else if e = js ''base64'' then Some Base64
        else if e = js ''hex'' then Some Hex else None
      else if length e = 3 then if e = js ''hex'' then Some Hex else None
      else if length e = 9 then if e = js ''base64url'' then Some Base64url else None
      else None)"

subsection \<open>Conversions\<close>

definition asciiToBytes :: "js_string \<Rightarrow> bytes" where
  "asciiToBytes str = map (\<lambda>c. of_nat (c AND 255)) str"

definition bytesToAscii :: "bytes \<Rightarrow> js_string" where
  "bytesToAscii bs = map (\<lambda>b. unat (b AND 127)) bs"

text \<open>\<^verbatim>\<open>Number.parseInt\<close> of a single character in base 16; \<^const>\<open>None\<close> is
  \<^verbatim>\<open>NaN\<close>.\<close>

definition parseHexDigit :: "code_unit \<Rightarrow> nat option" where
  "parseHexDigit c =
     (if 48 \<le> c \<and> c \<le> 57 then Some (c - 48)
      else if 65 \<le> c \<and> c \<le> 70 then Some (c - 55)
      else if 97 \<le> c \<and> c \<le> 102 then Some (c - 87)
      else None)"

text \<open>\<^verbatim>\<open>NaN\<close> is 0 in \<^verbatim>\<open>(a << 4) | b\<close>; the loop stops only when both digits are invalid.\<close>

definition nan0 :: "nat option \<Rightarrow> nat" where
  "nan0 d = (case d of None \<Rightarrow> 0 | Some k \<Rightarrow> k)"

fun hexToBytes :: "js_string \<Rightarrow> bytes" where
  "hexToBytes (c # d # str) =
     (let a = parseHexDigit c; b = parseHexDigit d in
      if a = None \<and> b = None then []
      else of_nat (push_bit 4 (nan0 a) OR nan0 b) # hexToBytes str)"
| "hexToBytes _ = []"

text \<open>\<^verbatim>\<open>units\<close> is \<^const>\<open>None\<close> when absent; 0 counts as absent.\<close>

definition utf16le_length :: "js_string \<Rightarrow> int option \<Rightarrow> nat" where
  "utf16le_length str units =
     (case units of
        None \<Rightarrow> length str * 2
      | Some u \<Rightarrow> if u = 0 then length str * 2
                  else min (length str * 2) (nat (drop_bit 1 (to_uint32 u)) * 2))"

fun utf16_units :: "js_string \<Rightarrow> nat \<Rightarrow> bytes" where
  "utf16_units (c # str) (Suc (Suc len)) = of_nat c # of_nat (drop_bit 8 c) # utf16_units str len"
| "utf16_units _ _ = []"

definition utf16leToBytes :: "js_string \<Rightarrow> int option \<Rightarrow> bytes" where
  "utf16leToBytes str units = utf16_units str (utf16le_length str units)"

fun bytesToUtf16le :: "bytes \<Rightarrow> js_string" where
  "bytesToUtf16le (a # b # bs) = (unat a + 256 * unat b) # bytesToUtf16le bs"
| "bytesToUtf16le _ = []"

definition js_whitespace :: "code_unit \<Rightarrow> bool" where
  "js_whitespace c \<longleftrightarrow>
     c \<in> {9, 10, 11, 12, 13, 32, 160, 5760, 8232, 8233, 8239, 8287, 12288, 65279}
     \<or> 8192 \<le> c \<and> c \<le> 8202"

definition trimStart :: "js_string \<Rightarrow> js_string" where "trimStart s = dropWhile js_whitespace s"

definition trim :: "js_string \<Rightarrow> js_string" where
  "trim s = rev (dropWhile js_whitespace (rev (trimStart s)))"

text \<open>The characters outside \<^verbatim>\<open>INVALID_BASE64_RE\<close>.\<close>

definition base64_char :: "code_unit \<Rightarrow> bool" where
  "base64_char c \<longleftrightarrow> c = 43 \<or> c = 47 \<or> 48 \<le> c \<and> c \<le> 57 \<or> 65 \<le> c \<and> c \<le> 90
     \<or> 97 \<le> c \<and> c \<le> 122 \<or> c = 45 \<or> c = 95"

definition base64clean :: "js_string \<Rightarrow> js_string" where
  "base64clean str =
     (let str = (if 61 \<in> set str then trimStart (takeWhile (\<lambda>c. c \<noteq> 61) str) else trim str);
          str = filter base64_char str
      in if length str < 2 then []
         else if length str mod 4 = 0 then str
         else if length str mod 4 = 1 then str @ js ''===''
         else if length str mod 4 = 2 then str @ js ''==''
         else str @ js ''='')"

definition replaceAll :: "code_unit \<Rightarrow> code_unit \<Rightarrow> js_string \<Rightarrow> js_string" where
  "replaceAll a b s = map (\<lambda>c. if c = a then b else c) s"

definition base64ToBytes :: "host \<Rightarrow> js_string \<Rightarrow> bytes result" where
  "base64ToBytes h str =
     forgivingBase64Decode h (replaceAll 95 47 (replaceAll 45 43 (base64clean str)))"

definition base64UrlToBytes :: "host \<Rightarrow> js_string \<Rightarrow> bytes result" where
  "base64UrlToBytes h str =
     forgivingBase64UrlDecode h (replaceAll 47 95 (replaceAll 43 45 (base64clean str)))"

subsection \<open>Slices\<close>

definition asciiSlice :: "bytes \<Rightarrow> int \<Rightarrow> int \<Rightarrow> js_string" where
  "asciiSlice this offset len =
     (if offset = 0 \<and> len = int (length this) then bytesToAscii this
      else bytesToAscii (subarray this offset len))"

definition ucs2Slice :: "bytes \<Rightarrow> int \<Rightarrow> int \<Rightarrow> js_string" where
  "ucs2Slice this offset len =
     (if offset = 0 \<and> len = int (length this) then bytesToUtf16le this
      else bytesToUtf16le (subarray this offset len))"

definition base64Slice :: "host \<Rightarrow> bytes \<Rightarrow> int \<Rightarrow> int \<Rightarrow> js_string" where
  "base64Slice h this offset len =
     (if offset = 0 \<and> len = int (length this) then forgivingBase64Encode h this
      else forgivingBase64Encode h (subarray this offset len))"

definition base64urlSlice :: "host \<Rightarrow> bytes \<Rightarrow> int \<Rightarrow> int \<Rightarrow> js_string" where
  "base64urlSlice h this offset len =
     (if offset = 0 \<and> len = int (length this) then forgivingBase64UrlEncode h this
      else forgivingBase64UrlEncode h (subarray this offset len))"

definition utf8Slice :: "host \<Rightarrow> bytes \<Rightarrow> int \<Rightarrow> int \<Rightarrow> js_string" where
  "utf8Slice h buf start end' = utf8Decode h (subarray buf start end')"

text \<open>\<^verbatim>\<open>String.fromCharCode(undefined)\<close> is the character 0.\<close>

definition latin1Slice :: "bytes \<Rightarrow> int \<Rightarrow> int \<Rightarrow> js_string" where
  "latin1Slice buf start end' =
     map (\<lambda>i. case js_get buf (num_int i) of Some b \<Rightarrow> nat b | None \<Rightarrow> 0)
       [start..min (int (length buf)) end' - 1]"

definition hexSliceLookupTable :: "js_string list" where
  "hexSliceLookupTable =
     (let alphabet = js ''0123456789abcdef''
      in concat (map (\<lambda>i. map (\<lambda>j. [alphabet ! i, alphabet ! j]) [0..<16]) [0..<16]))"

definition hexSlice :: "bytes \<Rightarrow> int \<Rightarrow> int \<Rightarrow> js_string" where
  "hexSlice buf start end' =
     (let len = int (length buf);
          start = (if start = 0 \<or> start < 0 then 0 else start);
          end' = (if end' = 0 \<or> end' < 0 \<or> end' > len then len else end')
      in concat (map (\<lambda>i. hexSliceLookupTable ! unat (buf ! nat i)) [start..end' - 1]))"

fun ops_slice :: "host \<Rightarrow> encodingOps \<Rightarrow> bytes \<Rightarrow> int \<Rightarrow> int \<Rightarrow> js_string" where
  "ops_slice h Ascii buf start end' = asciiSlice buf start end'"
| "ops_slice h Base64 buf start end' = base64Slice h buf start end'"
| "ops_slice h Base64url buf start end' = base64urlSlice h buf start end'"
| "ops_slice h Hex buf start end' = hexSlice buf start end'"
| "ops_slice h Latin1 buf start end' = latin1Slice buf start end'"
| "ops_slice h Ucs2 buf start end' = ucs2Slice buf start end'"
| "ops_slice h Utf8 buf start end' = utf8Slice h buf start end'"
| "ops_slice h Utf16le buf start end' = ucs2Slice buf start end'"

text \<open>\<^verbatim>\<open>buf.toString(encoding, start, end)\<close> called with at least one argument\<close>

definition buffer_toString ::
  "host \<Rightarrow> bytes \<Rightarrow> js_string option \<Rightarrow> js_arg \<Rightarrow> js_arg \<Rightarrow> js_string result" where
  "buffer_toString h this encoding start end' =
     (let len = int (length this) in
      bindE (rel_num start) (\<lambda>s.
      if num_le (num_int len) s \<and> \<not> num_le s (num_int 0) then Inr []
      else
        bindE (if num_le s (num_int 0) then Inr 0
               else bindE (to_number start) (\<lambda>n. Inr (to_int32 (num_trunc n)))) (\<lambda>start.
        bindE (rel_num end') (\<lambda>e.
        bindE (if end' = AUndef \<or> num_less (num_int len) e then Inr len
               else bindE (to_number end') (\<lambda>n. Inr (to_int32 (num_trunc n)))) (\<lambda>end'.
        if end' \<le> start then Inr []
        else case encoding of
               None \<Rightarrow> Inr (utf8Slice h this start end')
             | Some enc \<Rightarrow>
                 (case getEncodingOps h enc of
                    None \<Rightarrow> Inl ERR_UNKNOWN_ENCODING
                  | Some ops \<Rightarrow> Inr (ops_slice h ops this start end')))))))"

subsection \<open>Writes\<close>

definition utf8Write :: "host \<Rightarrow> bytes \<Rightarrow> js_string \<Rightarrow> int \<Rightarrow> int \<Rightarrow> (bytes \<times> int) result" where
  "utf8Write h this string offset len =
     (let room = int (length this) - offset;
          maxLength = (if len = 0 then room else min len room);
          buf = (if offset \<noteq> 0 \<or> maxLength < int (length this)
                 then subarray this offset (maxLength + offset) else this);
          written = encodeInto h string (length buf)
      in Inr (overwrite this (nat offset) written, int (length written)))"

fun ops_write ::
  "host \<Rightarrow> encodingOps \<Rightarrow> bytes \<Rightarrow> js_string \<Rightarrow> int \<Rightarrow> int \<Rightarrow> (bytes \<times> int) result" where
  "ops_write h Ascii buf string offset len = blitBuffer (asciiToBytes string) buf offset (Some len)"
| "ops_write h Base64 buf string offset len =
     bindE (base64ToBytes h string) (\<lambda>src. blitBuffer src buf offset (Some len))"
| "ops_write h Base64url buf string offset len =
     bindE (base64UrlToBytes h string) (\<lambda>src. blitBuffer src buf offset (Some len))"
| "ops_write h Hex buf string offset len = blitBuffer (hexToBytes string) buf offset (Some len)"
| "ops_write h Latin1 buf string offset len = blitBuffer (asciiToBytes string) buf offset (Some len)"
| "ops_write h Ucs2 buf string offset len =
     blitBuffer (utf16leToBytes string (Some (int (length buf) - offset))) buf offset (Some len)"
| "ops_write h Utf8 buf string offset len = utf8Write h buf string offset len"
| "ops_write h Utf16le buf string offset len =
     blitBuffer (utf16leToBytes string (Some (int (length buf) - offset))) buf offset (Some len)"

text \<open>
  \<^verbatim>\<open>buf.write(string, offset, length, encoding)\<close>; the encoding may come in the place of the
  offset or of the length. The encoding is a string or undefined; the empty string counts as absent.
\<close>

definition str_option :: "js_arg \<Rightarrow> js_string option" where
  "str_option a = (case a of AStr e _ \<Rightarrow> (if e = [] then None else Some e) | _ \<Rightarrow> None)"

fun is_str :: "js_arg \<Rightarrow> bool" where
  "is_str (AStr _ _) \<longleftrightarrow> True"
| "is_str _ \<longleftrightarrow> False"

definition buffer_write ::
  "host \<Rightarrow> bytes \<Rightarrow> js_arg \<Rightarrow> js_arg \<Rightarrow> js_arg \<Rightarrow> js_arg \<Rightarrow> (bytes \<times> int) result" where
  "buffer_write h this string offset len encoding =
     (let n = int (length this) in
      case string of
        AStr s _ \<Rightarrow>
          if offset = AUndef then utf8Write h this s 0 n
          else
            bindE
              (if len = AUndef \<and> is_str offset then Inr (0, n, offset)
               else bindE (validateOffset offset ''offset'' 0 n) (\<lambda>offset.
                 let remaining = n - offset in
                 if len = AUndef then Inr (offset, remaining, encoding)
                 else if is_str len then Inr (offset, remaining, len)
                 else bindE (validateOffset len ''length'' 0 n) (\<lambda>len.
                   Inr (offset, if len > remaining then remaining else len, encoding))))
              (\<lambda>(offset, len, encoding).
                case str_option encoding of
                  None \<Rightarrow> utf8Write h this s offset len
                | Some enc \<Rightarrow>
                    (case getEncodingOps h enc of
                       None \<Rightarrow> Inl ERR_UNKNOWN_ENCODING
                     | Some ops \<Rightarrow> ops_write h ops this s offset len))
      | _ \<Rightarrow> Inl (ERR_INVALID_ARG_TYPE ''argument''))"

subsection \<open>Buffers from strings\<close>

definition base64ByteLength :: "js_string \<Rightarrow> nat \<Rightarrow> nat" where
  "base64ByteLength str bs =
     (let bs = (if charCodeAt str (int bs - 1) = Some 61 then bs - 1 else bs);
          bs = (if bs > 1 \<and> charCodeAt str (int bs - 1) = Some 61 then bs - 1 else bs)
      in nat (drop_bit 2 (to_uint32 (int bs * 3))))"

fun ops_byteLength :: "host \<Rightarrow> encodingOps \<Rightarrow> js_string \<Rightarrow> nat" where
  "ops_byteLength h Ascii s = length s"
| "ops_byteLength h Base64 s = base64ByteLength s (length s)"
| "ops_byteLength h Base64url s = base64ByteLength s (length s)"
| "ops_byteLength h Hex s = length s div 2"
| "ops_byteLength h Latin1 s = length s"
| "ops_byteLength h Ucs2 s = length s * 2"
| "ops_byteLength h Utf8 s = length (utf8Encode h s)"
| "ops_byteLength h Utf16le s = length s * 2"

text \<open>\<^verbatim>\<open>byteLength(string, encoding)\<close> on a string, without the third argument\<close>

definition byteLength :: "host \<Rightarrow> js_string \<Rightarrow> js_string option \<Rightarrow> nat" where
  "byteLength h string encoding =
     (if length string = 0 then 0
      else case encoding of
             None \<Rightarrow> length (utf8Encode h string)
           | Some enc \<Rightarrow>
               if enc = [] then length (utf8Encode h string)
               else (case getEncodingOps h enc of
                       None \<Rightarrow> length (utf8Encode h string)
                     | Some ops \<Rightarrow> ops_byteLength h ops string))"

definition fromString :: "host \<Rightarrow> js_string \<Rightarrow> js_arg \<Rightarrow> bytes result" where
  "fromString h string encoding =
     (let encoding = (if str_option encoding = None
                      then AStr (js ''utf8'') NaN else encoding)
      in if \<not> isEncoding h encoding then Inl ERR_UNKNOWN_ENCODING
         else
           let len = to_int32 (int (byteLength h string (str_option encoding))) in
           bindE (createBuffer (num_int len)) (\<lambda>buf.
           bindE (buffer_write h buf (AStr string NaN) encoding AUndef AUndef) (\<lambda>(buf, actual).
             Inr (if actual \<noteq> len then subarray buf 0 actual else buf))))"

subsection \<open>Filling\<close>

text \<open>
  A fill value: a primitive, a buffer, or another object, of which only what
  \<^verbatim>\<open>Buffer.from\<close> makes of it is kept. A buffer either has memory of its own or is a view of the
  receiver's bytes, from an offset on, which the loop reads while it writes them.
\<close>

datatype fill_value = FillArg js_arg | FillBuffer bytes | FillView nat nat | FillObject "bytes result"

definition is_text :: "js_arg \<Rightarrow> string \<Rightarrow> bool" where
  "is_text a t = (case a of AStr e _ \<Rightarrow> e = js t | _ \<Rightarrow> False)"

definition fill_prepare ::
  "host \<Rightarrow> bytes \<Rightarrow> fill_value \<Rightarrow> js_arg \<Rightarrow> js_arg \<Rightarrow> js_arg \<Rightarrow>
   (fill_value \<times> js_arg \<times> js_arg \<times> js_arg) result" where
  "fill_prepare h this val start end' encoding =
     (case val of
        FillArg (AStr s _) \<Rightarrow>
          let (start, end', encoding) =
            (if is_str start then (arg_int 0, arg_nat (length this), start)
             else if is_str end' then (start, arg_nat (length this), end')
             else (start, end', encoding))
          in if encoding \<noteq> AUndef \<and> \<not> is_str encoding then Inl (TypeError ''encoding must be a string'')
             else if is_str encoding \<and> \<not> isEncoding h encoding then Inl (TypeError ''Unknown encoding'')
             else if length s = 1 \<and> (is_text encoding ''utf8'' \<and> s ! 0 < 128 \<or> is_text encoding ''latin1'')
             then Inr (FillArg (arg_nat (s ! 0)), start, end', encoding)
             else Inr (val, start, end', encoding)
      | FillArg (ANum n) \<Rightarrow>
          Inr (FillArg (arg_int (int_and (num_trunc n) 255)), start, end', encoding)
      | FillArg (ABool b) \<Rightarrow> Inr (FillArg (arg_int (of_bool b)), start, end', encoding)
      | _ \<Rightarrow> Inr (val, start, end', encoding))"

definition falsy :: "js_arg \<Rightarrow> bool" where
  "falsy a =
     (case a of
        ANum n \<Rightarrow> n = num_int 0 \<or> n = NaN
      | ABig i \<Rightarrow> i = 0
      | AUndef \<Rightarrow> True
      | ANull \<Rightarrow> True
      | ABool b \<Rightarrow> \<not> b
      | AStr s _ \<Rightarrow> s = []
      | AOther _ _ \<Rightarrow> False)"

text \<open>The bytes that are repeated: one byte for a number.\<close>

definition fill_bytes :: "host \<Rightarrow> bytes \<Rightarrow> fill_value \<Rightarrow> js_arg \<Rightarrow> bytes result" where
  "fill_bytes h this val encoding =
     (let repeated = (\<lambda>r. bindE r (\<lambda>bs.
        if length bs = 0 then Inl (ERR_INVALID_ARG_VALUE ''value'') else Inr bs))
      in case val of
           FillArg a \<Rightarrow>
             if falsy a then Inr [0]
             else (case a of
                     ANum n \<Rightarrow> Inr [word_of_int (num_trunc n)]
                   | AStr s _ \<Rightarrow> repeated (fromString h s encoding)
                   | _ \<Rightarrow> Inl (ERR_INVALID_ARG_TYPE ''first argument''))
         | FillBuffer bs \<Rightarrow> repeated (Inr bs)
         | FillView from n \<Rightarrow> repeated (Inr (take n (drop from this)))
         | FillObject r \<Rightarrow> repeated r)"

definition fill_view :: "bytes \<Rightarrow> nat \<Rightarrow> nat \<Rightarrow> nat \<Rightarrow> nat \<Rightarrow> bytes" where
  "fill_view this start from len k = foldl (\<lambda>b i. b[i + start := b ! (from + i mod len)]) this [0..<k]"

definition buffer_fill ::
  "host \<Rightarrow> bytes \<Rightarrow> fill_value \<Rightarrow> js_arg \<Rightarrow> js_arg \<Rightarrow> js_arg \<Rightarrow> bytes result" where
  "buffer_fill h this val start end' encoding =
     bindE (fill_prepare h this val start end' encoding) (\<lambda>(val, start, end', encoding).
     let len = num_nat (length this) in
     bindE (rel_num start) (\<lambda>s.
     if num_less s (num_int 0) \<or> num_less len s then Inl (RangeError ''Out of range index'')
     else bindE (rel_num end') (\<lambda>e.
     if num_less len e then Inl (RangeError ''Out of range index'')
     else if num_le e s then Inr this
     else
       bindE (arg_uint32 start) (\<lambda>start.
       bindE (if end' = AUndef then Inr (int (length this)) else arg_uint32 end') (\<lambda>end'.
       bindE (fill_bytes h this val encoding) (\<lambda>bs. Inr (
         let k = nat (end' - start) in
         case val of
           FillView from _ \<Rightarrow> fill_view this (nat start) from (length bs) k
         | _ \<Rightarrow> overwrite this (nat start) (map (\<lambda>i. bs ! (i mod length bs)) [0..<k]))))))))"

definition buffer_alloc :: "host \<Rightarrow> js_arg \<Rightarrow> fill_value \<Rightarrow> js_arg \<Rightarrow> bytes result" where
  "buffer_alloc h size' fill encoding =
     bindE (assertSize size') (\<lambda>n.
     bindE (createBuffer n) (\<lambda>buffer.
       if fill \<noteq> FillArg AUndef then
         if encoding \<noteq> AUndef \<and> \<not> is_str encoding then Inl (ERR_INVALID_ARG_TYPE ''encoding'')
         else buffer_fill h buffer fill encoding AUndef AUndef
       else Inr buffer))"

subsection \<open>Round trips\<close>

lemma length_grid: "length (concat (map (\<lambda>i. map (f i) [0..<m]) [0..<n])) = n * m"
  by (induction n) auto

lemma grid_nth:
  "i < n \<Longrightarrow> j < m \<Longrightarrow> concat (map (\<lambda>i. map (f i) [0..<m]) [0..<n]) ! (i * m + j) = f i j"
proof (induction n)
  case (Suc n)
  show ?case
  proof (cases "i < n")
    case True
    have "i * m + j < i * m + m" using Suc.prems(2) by simp
    also have "i * m + m \<le> n * m" using True mult_le_mono1 [of "Suc i" n m] by simp
    finally show ?thesis using Suc True by (simp add: nth_append length_grid)
  next
    case False
    then have "i = n" using Suc.prems(1) by simp
    then show ?thesis using Suc.prems(2) by (simp add: nth_append length_grid)
  qed
qed simp

lemma hexSliceLookupTable_nth:
  assumes "n < 256"
  shows "hexSliceLookupTable ! n
     = [js ''0123456789abcdef'' ! (n div 16), js ''0123456789abcdef'' ! (n mod 16)]"
proof -
  have "n div 16 < 16" "n mod 16 < 16" using assms by simp_all
  then show ?thesis
    using grid_nth [of "n div 16" 16 "n mod 16" 16
        "\<lambda>i j. [js ''0123456789abcdef'' ! i, js ''0123456789abcdef'' ! j]"]
    by (simp only: hexSliceLookupTable_def Let_def div_mult_mod_eq)
qed

lemma parse_table:
  "n < 16 \<Longrightarrow> parseHexDigit (js ''0123456789abcdef'' ! n) = Some n"
proof -
  have "list_all (\<lambda>n. parseHexDigit (js ''0123456789abcdef'' ! n) = Some n) [0..<16]"
    by code_simp
  then show "n < 16 \<Longrightarrow> ?thesis" by (simp add: list_all_iff)
qed

lemma nibbles: "push_bit 4 (n div 16) OR n mod 16 = (n :: nat)"
proof -
  have "push_bit 4 (drop_bit 4 n) OR take_bit 4 n = n"
    by (rule bit_eqI) (auto simp: bit_simps)
  then show ?thesis by (simp add: drop_bit_eq_div take_bit_eq_mod)
qed

lemma unat8_lt: "unat (b :: 8 word) < 256"
  using unsigned_less [where 'a = nat, of b] by simp

lemma hex_round_trip: "hexToBytes (concat (map (\<lambda>b. hexSliceLookupTable ! unat b) bs)) = bs"
proof (induction bs)
  case (Cons b bs)
  have "unat b div 16 < 16" using unat8_lt [of b] by simp
  then show ?case
    using Cons by (simp add: hexSliceLookupTable_nth unat8_lt parse_table nan0_def nibbles)
qed simp

lemma map_upto_nth: "map (\<lambda>i. f (bs ! nat i)) [0..int (length bs) - 1] = map f bs"
  by (rule nth_equalityI) auto

lemma hexSlice_all: "hexSlice buf 0 (int (length buf)) = concat (map (\<lambda>b. hexSliceLookupTable ! unat b) buf)"
  using map_upto_nth [of "\<lambda>b. hexSliceLookupTable ! unat b" buf] by (simp add: hexSlice_def Let_def)

lemma latin1Slice_all: "latin1Slice buf 0 (int (length buf)) = map unat buf"
proof -
  have "latin1Slice buf 0 (int (length buf)) = map (\<lambda>i. unat (buf ! nat i)) [0..int (length buf) - 1]"
    by (auto simp: latin1Slice_def js_get_def)
  then show ?thesis using map_upto_nth [of unat buf] by simp
qed

lemma asciiToBytes_unat: "asciiToBytes (map unat bs) = bs"
proof -
  have "(of_nat (unat b AND 255) :: 8 word) = b" for b
  proof -
    have "(255::nat) = mask 8" by (simp add: mask_eq_exp_minus_1)
    then have "unat b AND 255 = take_bit 8 (unat b)" by (simp only: take_bit_eq_mask)
    also have "\<dots> = unat b" using unat8_lt [of b] by (simp add: take_bit_nat_eq_self)
    finally show ?thesis by simp
  qed
  then show ?thesis by (simp add: asciiToBytes_def comp_def)
qed

lemma length_bytesToUtf16le: "length (bytesToUtf16le bs) = length bs div 2"
  by (induction bs rule: bytesToUtf16le.induct) auto

lemma utf16_units_bytes:
  "even (length bs) \<Longrightarrow> utf16_units (bytesToUtf16le bs) (length bs) = bs"
proof (induction bs rule: bytesToUtf16le.induct)
  case (1 a b bs)
  have a: "(of_nat (unat a + 256 * unat b) :: 8 word) = a"
  proof -
    have z: "(256 :: 8 word) = 0" by code_simp
    show ?thesis
      by (simp only: of_nat_add of_nat_mult of_nat_numeral z mult_zero_left
          add_0_right) simp
  qed
  have "drop_bit 8 (unat a + 256 * unat b) = unat b"
    using unat8_lt [of a] by (simp add: drop_bit_eq_div)
  with a 1 show ?case by simp
qed auto

lemma blitBuffer_all:
  "length src = length dst \<Longrightarrow> blitBuffer src dst 0 (Some (int (length dst))) = Inr (src, int (length dst))"
  by (simp add: blitBuffer_def typed_set_def overwrite_def Let_def)

lemma createBuffer_nat: "n \<le> kMaxLength \<Longrightarrow> createBuffer (num_nat n) = Inr (replicate n 0)"
  by (simp add: createBuffer_def)

lemma fromString_ops:
  assumes "getEncodingOps h e = Some ops" "isEncoding h (AStr e x)" "e \<noteq> []"
    and "s = [] \<Longrightarrow> n = 0" "ops_byteLength h ops s = n" "n \<le> kMaxLength"
    and "ops_write h ops (replicate n 0) s 0 (int n) = Inr (bs, int n)"
  shows "fromString h s (AStr e x) = Inr bs"
proof -
  have b: "byteLength h s (Some e) = n" using assms(1,3,4,5) by (auto simp: byteLength_def)
  have t: "to_int32 (int n) = int n" using assms(6) by (intro to_int32_id) (simp_all add: kMaxLength_def)
  have e: "str_option (AStr e x) = Some e" using assms(3) by (simp add: str_option_def)
  show ?thesis
    using assms(2,7) createBuffer_nat [OF assms(6)]
    by (simp add: fromString_def Let_def e b t buffer_write_def assms(1))
qed

lemma toString_all:
  assumes "getEncodingOps h e = Some ops" "buf \<noteq> []"
  shows "buffer_toString h buf (Some e) AUndef AUndef = Inr (ops_slice h ops buf 0 (int (length buf)))"
  using assms by (simp add: buffer_toString_def rel_num_def num_le_def num_eq_def to_int32_def Let_def)

lemma toString_empty:
  "buffer_toString h [] (Some e) AUndef AUndef = Inr []"
  by (simp add: buffer_toString_def rel_num_def num_le_def num_eq_def to_int32_def Let_def)

lemma utf16le_length_even:
  assumes "length str * 2 \<le> kMaxLength"
  shows "utf16le_length str (Some (int (length str * 2))) = length str * 2"
proof -
  have "nat (drop_bit 1 (to_uint32 (int (length str * 2)))) = length str"
    by (simp only: to_uint32_nat [OF assms] drop_bit_eq_div) (simp add: nat_div_distrib nat_mult_distrib)
  then show ?thesis by (simp add: utf16le_length_def)
qed

text \<open>The names of the encodings are in lower case already, so \<^verbatim>\<open>toLowerCase\<close> keeps them.\<close>

definition lower_law :: "host \<Rightarrow> bool" where
  "lower_law h \<longleftrightarrow> (\<forall>s. (\<forall>c\<in>set s. c < 128 \<and> \<not> (65 \<le> c \<and> c \<le> 90)) \<longrightarrow> toLowerCase h s = s)"

lemma js_eq_iff: "js s = js t \<longleftrightarrow> s = t"
  by (simp add: js_def inj_map_eq_map inj_def)

lemma js_Nil_iff: "js s = [] \<longleftrightarrow> s = []"
  by (simp add: js_def)

lemma length_js: "length (js s) = length s"
  by (simp add: js_def)

lemma lower_name:
  "lower_law h \<Longrightarrow> list_all (\<lambda>c. c < 128 \<and> \<not> (65 \<le> c \<and> c \<le> 90)) (js t) \<Longrightarrow> toLowerCase h (js t) = js t"
  unfolding lower_law_def list_all_iff by blast

lemma encoding_names:
  assumes "lower_law h"
  shows "getEncodingOps h (js ''hex'') = Some Hex" "getEncodingOps h (js ''latin1'') = Some Latin1"
    and "getEncodingOps h (js ''utf16le'') = Some Utf16le"
    and "isEncoding h (AStr (js ''hex'') x)" "isEncoding h (AStr (js ''latin1'') x)"
    and "isEncoding h (AStr (js ''utf16le'') x)"
proof -
  have a: "list_all (\<lambda>c. c < 128 \<and> \<not> (65 \<le> c \<and> c \<le> 90)) (js ''hex'')" by code_simp
  have b: "list_all (\<lambda>c. c < 128 \<and> \<not> (65 \<le> c \<and> c \<le> 90)) (js ''latin1'')" by code_simp
  have c: "list_all (\<lambda>c. c < 128 \<and> \<not> (65 \<le> c \<and> c \<le> 90)) (js ''utf16le'')" by code_simp
  note l = lower_name [OF assms a] lower_name [OF assms b] lower_name [OF assms c]
  note s = Let_def js_eq_iff length_js js_Nil_iff
  show "getEncodingOps h (js ''hex'') = Some Hex" by (simp add: getEncodingOps_def l(1) s)
  show "getEncodingOps h (js ''latin1'') = Some Latin1" by (simp add: getEncodingOps_def l(2) s)
  show "getEncodingOps h (js ''utf16le'') = Some Utf16le" by (simp add: getEncodingOps_def l(3) s)
  show "isEncoding h (AStr (js ''hex'') x)"
    by (simp add: isEncoding_def normalizeEncoding_def slowCases_def s)
  show "isEncoding h (AStr (js ''latin1'') x)"
    by (simp add: isEncoding_def normalizeEncoding_def slowCases_def s)
  show "isEncoding h (AStr (js ''utf16le'') x)"
    by (simp add: isEncoding_def normalizeEncoding_def slowCases_def s)
qed

lemma text_back:
  assumes "getEncodingOps h e = Some ops" "isEncoding h (AStr e NaN)" "e \<noteq> []"
    and "length buf \<le> kMaxLength" "ops_slice h ops buf 0 (int (length buf)) = t"
    and "t = [] \<longleftrightarrow> buf = []" "ops_byteLength h ops t = length buf"
    and "ops_write h ops (replicate (length buf) 0) t 0 (int (length buf)) = Inr (buf, int (length buf))"
  shows "\<exists>t. buffer_toString h buf (Some e) AUndef AUndef = Inr t \<and> fromString h t (AStr e NaN) = Inr buf"
proof -
  have "buffer_toString h buf (Some e) AUndef AUndef = Inr t"
    using assms(6) toString_all [OF assms(1), of buf] toString_empty [of h e] assms(5)
    by (cases "buf = []") simp_all
  moreover have "fromString h t (AStr e NaN) = Inr buf"
    by (rule fromString_ops [OF assms(1-3) _ assms(7,4,8)]) (use assms(6) in simp)
  ultimately show ?thesis by blast
qed

lemma length_hex: "length (concat (map (\<lambda>b. hexSliceLookupTable ! unat b) (bs :: bytes))) = 2 * length bs"
  by (induction bs) (simp_all add: hexSliceLookupTable_nth unat8_lt)

text \<open>C11. Text written by \<^verbatim>\<open>toString\<close> in hexadecimal, in Latin-1, or (for an even number of
  bytes) in UTF-16 is read back by \<^verbatim>\<open>Buffer.from\<close> with the same encoding to the bytes it came
  from.\<close>

theorem text_round_trip:
  assumes "lower_law h" "length buf \<le> kMaxLength"
  shows "(\<exists>t. buffer_toString h buf (Some (js ''hex'')) AUndef AUndef = Inr t
        \<and> fromString h t (AStr (js ''hex'') NaN) = Inr buf)
    \<and> (\<exists>t. buffer_toString h buf (Some (js ''latin1'')) AUndef AUndef = Inr t
        \<and> fromString h t (AStr (js ''latin1'') NaN) = Inr buf)
    \<and> (even (length buf) \<longrightarrow> (\<exists>t. buffer_toString h buf (Some (js ''utf16le'')) AUndef AUndef = Inr t
        \<and> fromString h t (AStr (js ''utf16le'') NaN) = Inr buf))"
proof (intro conjI impI)
  note names = encoding_names [OF assms(1)]
  note blit = blitBuffer_all [of buf "replicate (length buf) 0", simplified]
  have ne: "js (c # s) \<noteq> []" for c s by (simp add: js_def)
  let ?hex = "concat (map (\<lambda>b. hexSliceLookupTable ! unat b) buf)"
  show "\<exists>t. buffer_toString h buf (Some (js ''hex'')) AUndef AUndef = Inr t
        \<and> fromString h t (AStr (js ''hex'') NaN) = Inr buf"
  proof (rule text_back [OF names(1,4) ne assms(2)])
    show "ops_slice h Hex buf 0 (int (length buf)) = ?hex" by (simp add: hexSlice_all)
    show "?hex = [] \<longleftrightarrow> buf = []" using length_hex [of buf] by (metis length_0_conv mult_eq_0_iff zero_neq_numeral)
    show "ops_byteLength h Hex ?hex = length buf" using length_hex [of buf] by simp
    show "ops_write h Hex (replicate (length buf) 0) ?hex 0 (int (length buf)) = Inr (buf, int (length buf))"
      by (simp add: hex_round_trip blit)
  qed
  show "\<exists>t. buffer_toString h buf (Some (js ''latin1'')) AUndef AUndef = Inr t
        \<and> fromString h t (AStr (js ''latin1'') NaN) = Inr buf"
    by (rule text_back [OF names(2,5) ne assms(2), of "map unat buf"])
      (simp_all add: latin1Slice_all asciiToBytes_unat blit)
  assume ev: "even (length buf)"
  let ?u = "bytesToUtf16le buf"
  have len: "length ?u * 2 = length buf" using ev by (simp add: length_bytesToUtf16le)
  have u: "utf16leToBytes ?u (Some (int (length buf))) = buf"
    using utf16le_length_even [of ?u] assms(2) utf16_units_bytes [OF ev]
    by (simp only: utf16leToBytes_def len)
  show "\<exists>t. buffer_toString h buf (Some (js ''utf16le'')) AUndef AUndef = Inr t
        \<and> fromString h t (AStr (js ''utf16le'') NaN) = Inr buf"
  proof (rule text_back [OF names(3,6) ne assms(2)])
    show "ops_slice h Utf16le buf 0 (int (length buf)) = ?u" by (simp add: ucs2Slice_def)
    show "?u = [] \<longleftrightarrow> buf = []" using len by (metis length_0_conv mult_is_0 zero_neq_numeral)
    show "ops_byteLength h Utf16le ?u = length buf" using len by simp
    show "ops_write h Utf16le (replicate (length buf) 0) ?u 0 (int (length buf)) = Inr (buf, int (length buf))"
      using u by (simp add: blit)
  qed
qed

text \<open>A host whose conversions treat ASCII only.\<close>

definition ascii_host :: host where
  "ascii_host = \<lparr>toLowerCase = map (\<lambda>c. if 65 \<le> c \<and> c \<le> 90 then c + 32 else c),
     utf8Encode = asciiToBytes, encodeInto = (\<lambda>s n. take n (asciiToBytes s)), utf8Decode = bytesToAscii,
     forgivingBase64Encode = bytesToAscii, forgivingBase64UrlEncode = bytesToAscii,
     forgivingBase64Decode = (\<lambda>s. Inr (asciiToBytes s)),
     forgivingBase64UrlDecode = (\<lambda>s. Inr (asciiToBytes s))\<rparr>"

lemma ascii_host_lower: "lower_law ascii_host"
  unfolding lower_law_def by (auto simp: ascii_host_def intro: map_idI)

theorem text_round_trip_witness:
  "lower_law ascii_host \<and> (\<exists>t. buffer_toString ascii_host [1, 254] (Some (js ''hex'')) AUndef AUndef = Inr t
    \<and> fromString ascii_host t (AStr (js ''hex'') NaN) = Inr [1, 254])"
  using text_round_trip [OF ascii_host_lower, of "[1, 254]"] ascii_host_lower
  by (simp add: kMaxLength_def)

text \<open>C35. \<^verbatim>\<open>buf.fill(value, start, end)\<close> with a number stores its low byte at every index from
  start to end and nowhere else; with a buffer it repeats the contents, and it refuses an empty
  one.\<close>

theorem fill_range:
  assumes "s < e" "e \<le> length this" "length this \<le> kMaxLength"
  shows "buffer_fill h this (FillArg (arg_int v)) (arg_nat s) (arg_nat e) AUndef
      = Inr (overwrite this s (replicate (e - s) (word_of_int v)))
    \<and> (bs \<noteq> [] \<longrightarrow> buffer_fill h this (FillBuffer bs) (arg_nat s) (arg_nat e) AUndef
      = Inr (overwrite this s (map (\<lambda>i. bs ! (i mod length bs)) [0..<e - s])))
    \<and> buffer_fill h this (FillBuffer []) (arg_nat s) (arg_nat e) AUndef
      = Inl (ERR_INVALID_ARG_VALUE ''value'')"
proof -
  have w: "(word_of_int (int_and v 255) :: 8 word) = word_of_int v"
  proof -
    have "to_int32 255 = mask 8" by (simp add: to_int32_id mask_eq_exp_minus_1)
    then have "int_and v 255 = take_bit 8 (signed_take_bit 31 v)"
      by (simp only: int_and_def to_int32_signed take_bit_eq_mask)
    then show ?thesis unfolding word8_eq_iff by (simp only:) (rule bit_eqI, auto simp: bit_simps)
  qed
  have b: "fill_bytes h this (FillArg (arg_int (int_and v 255))) AUndef = Inr [word_of_int v]"
  proof (cases "int_and v 255 = 0")
    case True
    then have "(word_of_int v :: 8 word) = 0" using w by simp
    then show ?thesis using True by (simp add: fill_bytes_def falsy_def Let_def)
  next
    case False
    then show ?thesis using w by (simp add: fill_bytes_def falsy_def Let_def)
  qed
  have r: "map (\<lambda>i. [x] ! (i mod length [x])) [0..<n] = replicate n x" for x :: "8 word" and n
    by (simp add: map_replicate_const)
  have u: "arg_uint32 (arg_nat s) = Inr (int s)" "arg_uint32 (arg_nat e) = Inr (int e)"
    using assms by (simp_all add: arg_uint32_nat)
  have run: "buffer_fill h this val (arg_nat s) (arg_nat e) AUndef
      = bindE (fill_bytes h this val' AUndef) (\<lambda>bs. Inr (overwrite this s
          (map (\<lambda>i. bs ! (i mod length bs)) [0..<e - s])))"
    if "fill_prepare h this val (arg_nat s) (arg_nat e) AUndef = Inr (val', arg_nat s, arg_nat e, AUndef)"
      "case val' of FillView _ _ \<Rightarrow> False | _ \<Rightarrow> True"
    for val val'
    using that assms(1,2)
    by (cases val') (simp_all add: buffer_fill_def num_le_nat u Let_def nat_int_diff del: bindE_eq_Inr)
  show ?thesis
    using run [of "FillArg (arg_int v)" "FillArg (arg_int (int_and v 255))"]
      run [of "FillBuffer bs" "FillBuffer bs"] run [of "FillBuffer []" "FillBuffer []"] b
    by (simp add: fill_prepare_def r [simplified] fill_bytes_def [of h this "FillBuffer bs"]
        fill_bytes_def [of h this "FillBuffer []"] Let_def del: num_trunc.simps)
qed

theorem fill_range_witness:
  "buffer_fill ascii_host [1, 1, 1, 1] (FillArg (arg_int 258)) (arg_nat 1) (arg_nat 3) AUndef
     = Inr [1, 2, 2, 1]"
proof -
  have w: "(word_of_int 258 :: 8 word) = 2" by code_simp
  have l: "overwrite [1, 1, 1, 1] 1 (replicate (3 - 1) (2 :: 8 word)) = [1, 2, 2, 1]" by code_simp
  have "length [1, 1, 1, 1 :: 8 word] \<le> kMaxLength" by (simp add: kMaxLength_def)
  from fill_range [of 1 3, OF _ _ this, of ascii_host 258 "[]", unfolded w l] show ?thesis by simp
qed

end
