(* ===== verification/Buffer_Search.thy ===== *)
theory Buffer_Search
  imports Buffer_Text
begin

unbundle bit_operations_syntax

text \<open>
  Searching in buffers: \<^verbatim>\<open>internal_binding/buffer.ts\<close> and the methods
  \<^verbatim>\<open>indexOf\<close>, \<^verbatim>\<open>lastIndexOf\<close> and \<^verbatim>\<open>includes\<close> of \<^verbatim>\<open>internal/buffer.mjs\<close>. Offsets are
  integers here. The backward search restarts its loop variable inside the loop; it is defined as a
  partial function, and that it returns is a theorem.
\<close>

subsection \<open>Forward search\<close>

text \<open>How many bytes of the needle match at \<open>pin\<close>, given that \<open>matched\<close> do.\<close>

function match_from :: "bytes \<Rightarrow> bytes \<Rightarrow> nat \<Rightarrow> nat \<Rightarrow> nat" where
  "match_from source needle pin matched =
     (if matched < length needle \<and> pin + matched < length source
         \<and> source ! (pin + matched) = needle ! matched
      then match_from source needle pin (matched + 1) else matched)"
  by auto
termination by (relation "measure (\<lambda>(_, needle, _, matched). length needle - matched)") auto

function needle_loop :: "bytes \<Rightarrow> bytes \<Rightarrow> nat \<Rightarrow> int" where
  "needle_loop source needle i =
     (if i < length source then
        if needle = [] \<or> source ! i \<noteq> needle ! 0 then needle_loop source needle (i + 1)
        else if match_from source needle i 1 = length needle then int i
        else needle_loop source needle (i + 1)
      else -1)"
  by auto
termination by (relation "measure (\<lambda>(source, _, i). length source - i)") auto

declare match_from.simps [simp del] needle_loop.simps [simp del]

definition indexOfNeedle :: "bytes \<Rightarrow> bytes \<Rightarrow> int \<Rightarrow> int" where
  "indexOfNeedle source needle start =
     (if start \<ge> int (length source) then -1
      else let start = (if start < 0 then max 0 (int (length source) + start) else start)
           in needle_loop source needle (nat start))"

function number_bytes :: "nat \<Rightarrow> bytes \<Rightarrow> bytes" where
  "number_bytes n bs =
     (if n \<ge> 256 then let n = drop_bit 8 n in number_bytes n (of_nat (n AND 255) # bs) else bs)"
  by auto
termination by (relation "measure fst") (auto simp: drop_bit_eq_div)

declare number_bytes.simps [simp del]

text \<open>The argument is an unsigned 32 bit number.\<close>

definition numberToBytes :: "nat \<Rightarrow> bytes" where
  "numberToBytes n = (if n = 0 then [0] else number_bytes n [of_nat (n AND 255)])"

subsection \<open>Backward search\<close>

partial_function (option) find_last_loop ::
  "bytes \<Rightarrow> bytes \<Rightarrow> nat \<Rightarrow> int \<Rightarrow> nat \<Rightarrow> int option" where
  "find_last_loop searchable buffer x lastMatchIndex matches =
     (if x < length searchable then
        if searchable ! (length searchable - 1 - x) = buffer ! (length buffer - 1 - matches) then
          let lastMatchIndex = (if lastMatchIndex = -1 then int x else lastMatchIndex)
          in if matches + 1 = length buffer then Some (int x)
             else find_last_loop searchable buffer (x + 1) lastMatchIndex (matches + 1)
        else if lastMatchIndex \<noteq> -1
        then find_last_loop searchable buffer (nat (lastMatchIndex + 1) + 1) (-1) 0
        else find_last_loop searchable buffer (x + 1) (-1) 0
      else Some (-1))"

definition findLastIndex :: "bytes \<Rightarrow> bytes \<Rightarrow> int \<Rightarrow> int option" where
  "findLastIndex targetBuffer buffer offset =
     (let offset = (if offset > int (length targetBuffer) then int (length targetBuffer) else offset);
          searchable = subarray targetBuffer 0 (offset + int (length buffer))
      in map_option (\<lambda>index. if index = -1 then index else int (length searchable) - 1 - index)
           (find_last_loop searchable buffer 0 (-1) 0))"

definition indexOfBuffer :: "bytes \<Rightarrow> bytes \<Rightarrow> int \<Rightarrow> bool \<Rightarrow> int option" where
  "indexOfBuffer targetBuffer buffer byteOffset forwardDirection =
     (let len = int (length targetBuffer) in
      if \<not> forwardDirection then
        let byteOffset = (if byteOffset < 0 then len + byteOffset else byteOffset)
        in if length buffer = 0 then Some (if byteOffset \<le> len then byteOffset else len)
           else findLastIndex targetBuffer buffer byteOffset
      else if length buffer = 0 then Some (if byteOffset \<le> len then byteOffset else len)
      else Some (indexOfNeedle targetBuffer buffer byteOffset))"

definition indexOfNumber :: "bytes \<Rightarrow> nat \<Rightarrow> int \<Rightarrow> bool \<Rightarrow> int option result" where
  "indexOfNumber targetBuffer number byteOffset forwardDirection =
     (if length (numberToBytes number) > 1
      then Inl (PlainError ''Multi byte number search is not supported'')
      else Inr (indexOfBuffer targetBuffer (numberToBytes number) byteOffset forwardDirection))"

subsection \<open>The methods\<close>

text \<open>What is searched for: a number, a string, an array of bytes or something else.\<close>

datatype search_value = SNum js_num | SStr js_string | SBytes bytes | SOther

fun ops_indexOf :: "host \<Rightarrow> encodingOps \<Rightarrow> bytes \<Rightarrow> js_string \<Rightarrow> int \<Rightarrow> bool \<Rightarrow> int option result" where
  "ops_indexOf h Ascii buf val byteOffset dir = Inr (indexOfBuffer buf (asciiToBytes val) byteOffset dir)"
| "ops_indexOf h Base64 buf val byteOffset dir =
     bindE (base64ToBytes h val) (\<lambda>bs. Inr (indexOfBuffer buf bs byteOffset dir))"
| "ops_indexOf h Base64url buf val byteOffset dir =
     bindE (base64UrlToBytes h val) (\<lambda>bs. Inr (indexOfBuffer buf bs byteOffset dir))"
| "ops_indexOf h Hex buf val byteOffset dir = Inr (indexOfBuffer buf (hexToBytes val) byteOffset dir)"
| "ops_indexOf h Latin1 buf val byteOffset dir = Inr (indexOfBuffer buf (asciiToBytes val) byteOffset dir)"
| "ops_indexOf h Ucs2 buf val byteOffset dir = Inr (indexOfBuffer buf (utf16leToBytes val None) byteOffset dir)"
| "ops_indexOf h Utf8 buf val byteOffset dir = Inr (indexOfBuffer buf (utf8Encode h val) byteOffset dir)"
| "ops_indexOf h Utf16le buf val byteOffset dir = Inr (indexOfBuffer buf (utf16leToBytes val None) byteOffset dir)"

text \<open>
  \<^verbatim>\<open>bidirectionalIndexOf(buffer, val, byteOffset, encoding, dir)\<close>, for a receiver that is a
  buffer; an offset that is missing or not a number is \<^const>\<open>None\<close>, an absent encoding too, and an
  encoding in the place of the offset is in the place of the encoding here.
\<close>

definition bidirectionalIndexOf ::
  "host \<Rightarrow> bytes \<Rightarrow> search_value \<Rightarrow> int option \<Rightarrow> js_string option \<Rightarrow> bool \<Rightarrow> int option result" where
  "bidirectionalIndexOf h buffer val byteOffset encoding dir =
     (let byteOffset =
        (case byteOffset of
           None \<Rightarrow> if dir then 0 else int (length buffer)
         | Some i \<Rightarrow> if i > 0x7fffffff then 0x7fffffff else if i < - 0x80000000 then - 0x80000000 else i);
        ops = (case encoding of None \<Rightarrow> Some Utf8 | Some e \<Rightarrow> getEncodingOps h e)
      in case val of
           SNum n \<Rightarrow> indexOfNumber buffer (nat (to_uint32 (num_trunc n))) byteOffset dir
         | SStr s \<Rightarrow>
             (case ops of
                None \<Rightarrow> Inl ERR_UNKNOWN_ENCODING
              | Some ops \<Rightarrow> ops_indexOf h ops buffer s byteOffset dir)
         | SBytes bs \<Rightarrow> Inr (indexOfBuffer buffer bs byteOffset dir)
         | SOther \<Rightarrow> Inl (ERR_INVALID_ARG_TYPE ''value''))"

definition buffer_indexOf ::
  "host \<Rightarrow> bytes \<Rightarrow> search_value \<Rightarrow> int option \<Rightarrow> js_string option \<Rightarrow> int option result" where
  "buffer_indexOf h this val byteOffset encoding = bidirectionalIndexOf h this val byteOffset encoding True"

definition buffer_lastIndexOf ::
  "host \<Rightarrow> bytes \<Rightarrow> search_value \<Rightarrow> int option \<Rightarrow> js_string option \<Rightarrow> int option result" where
  "buffer_lastIndexOf h this val byteOffset encoding = bidirectionalIndexOf h this val byteOffset encoding False"

definition buffer_includes ::
  "host \<Rightarrow> bytes \<Rightarrow> search_value \<Rightarrow> int option \<Rightarrow> js_string option \<Rightarrow> bool result" where
  "buffer_includes h this val byteOffset encoding =
     bindE (buffer_indexOf h this val byteOffset encoding) (\<lambda>r. Inr (r \<noteq> Some (-1)))"

subsection \<open>Occurrences\<close>

definition occurs_at :: "bytes \<Rightarrow> bytes \<Rightarrow> nat \<Rightarrow> bool" where
  "occurs_at source needle i \<longleftrightarrow> i + length needle \<le> length source \<and> take (length needle) (drop i source) = needle"

lemma occurs_at_nth:
  "occurs_at source needle i \<longleftrightarrow>
   i + length needle \<le> length source \<and> (\<forall>j<length needle. source ! (i + j) = needle ! j)"
  by (auto simp: occurs_at_def list_eq_iff_nth_eq)

lemma match_from_full:
  assumes "k \<le> length needle" "\<forall>j<k. pin + j < length source \<and> source ! (pin + j) = needle ! j"
  shows "match_from source needle pin k = length needle \<longleftrightarrow>
    (\<forall>j<length needle. pin + j < length source \<and> source ! (pin + j) = needle ! j)"
  using assms
proof (induction "length needle - k" arbitrary: k)
  case 0
  then show ?case by (subst match_from.simps) auto
next
  case (Suc d)
  show ?case
  proof (cases "pin + k < length source \<and> source ! (pin + k) = needle ! k")
    case True
    then have "match_from source needle pin k = match_from source needle pin (k + 1)"
      using Suc.hyps(2) by (subst match_from.simps) auto
    moreover have "\<forall>j<k + 1. pin + j < length source \<and> source ! (pin + j) = needle ! j"
      using True Suc.prems(2) by (auto simp: less_Suc_eq)
    ultimately show ?thesis using Suc.hyps(1) [of "k + 1"] Suc.hyps(2) by simp
  next
    case False
    then have "match_from source needle pin k = k" by (subst match_from.simps) auto
    then show ?thesis using False Suc.hyps(2) by auto
  qed
qed

lemma match_from_occurs:
  assumes "needle \<noteq> []" "i < length source" "source ! i = needle ! 0"
  shows "match_from source needle i 1 = length needle \<longleftrightarrow> occurs_at source needle i"
proof -
  have "match_from source needle i 1 = length needle \<longleftrightarrow>
    (\<forall>j<length needle. i + j < length source \<and> source ! (i + j) = needle ! j)"
    by (rule match_from_full) (use assms in \<open>auto simp: Suc_le_eq\<close>)
  also have "\<dots> \<longleftrightarrow> occurs_at source needle i"
  proof -
    have "i + length needle \<le> length source" if "\<forall>j<length needle. i + j < length source"
      using that [rule_format, of "length needle - 1"] assms(1) by (cases needle) auto
    then show ?thesis by (auto simp: occurs_at_nth)
  qed
  finally show ?thesis .
qed

lemma needle_loop_first:
  assumes "needle \<noteq> []"
  shows "needle_loop source needle i =
    (if \<exists>k\<ge>i. occurs_at source needle k then int (LEAST k. i \<le> k \<and> occurs_at source needle k) else -1)"
proof (induction "length source - i" arbitrary: i rule: less_induct)
  case less
  show ?case
  proof (cases "i < length source")
    case False
    then have "\<not> occurs_at source needle k" if "i \<le> k" for k
      using that assms by (auto simp: occurs_at_def)
    then show ?thesis using False by (subst needle_loop.simps) auto
  next
    case True
    have ih: "needle_loop source needle (i + 1) = (if \<exists>k\<ge>i + 1. occurs_at source needle k
        then int (LEAST k. i + 1 \<le> k \<and> occurs_at source needle k) else -1)"
      by (rule less) (use True in simp)
    show ?thesis
    proof (cases "occurs_at source needle i")
      case occ: True
      then have "source ! i = needle ! 0" using assms by (auto simp: occurs_at_nth)
      then have "needle_loop source needle i = int i"
        using True assms occ match_from_occurs [of needle i source] by (subst needle_loop.simps) simp
      moreover have "(LEAST k. i \<le> k \<and> occurs_at source needle k) = i"
        using occ by (intro Least_equality) auto
      ultimately show ?thesis using occ by auto
    next
      case noc: False
      have "needle_loop source needle i = needle_loop source needle (i + 1)"
        using True assms noc match_from_occurs [of needle i source] by (subst needle_loop.simps) auto
      moreover have "(i \<le> k \<and> occurs_at source needle k) \<longleftrightarrow> (i + 1 \<le> k \<and> occurs_at source needle k)" for k
        using noc by (cases "i = k") auto
      ultimately show ?thesis using ih by simp
    qed
  qed
qed

subsection \<open>The forward search finds the first occurrence\<close>

text \<open>Where a search from an offset begins: a negative offset counts from the end.\<close>

definition search_start :: "bytes \<Rightarrow> int \<Rightarrow> nat" where
  "search_start source i = nat (if i < 0 then max 0 (int (length source) + i) else i)"

lemma indexOfNeedle_first:
  assumes "needle \<noteq> []"
  shows "indexOfNeedle source needle i =
    (if \<exists>k\<ge>search_start source i. occurs_at source needle k
     then int (LEAST k. search_start source i \<le> k \<and> occurs_at source needle k) else -1)"
proof (cases "i \<ge> int (length source)")
  case True
  have "\<not> occurs_at source needle k" if "search_start source i \<le> k" for k
    using that True assms by (auto simp: occurs_at_def search_start_def split: if_splits)
  then show ?thesis using True by (auto simp: indexOfNeedle_def)
next
  case False
  then show ?thesis
    using needle_loop_first [OF assms(1), of source "search_start source i"]
    by (simp add: indexOfNeedle_def Let_def search_start_def)
qed

text \<open>C13. \<^verbatim>\<open>indexOf\<close> of a non-empty array of bytes returns the first index from the offset on
  (a negative offset counts from the end) at which it occurs, -1 when there is none, and
  \<^verbatim>\<open>includes\<close> tells whether there is one.\<close>

theorem indexOf_first:
  assumes "needle \<noteq> []" "- 0x80000000 \<le> i" "i \<le> 0x7fffffff"
  shows "buffer_indexOf h source (SBytes needle) (Some i) enc
      = Inr (Some (if \<exists>k\<ge>search_start source i. occurs_at source needle k
          then int (LEAST k. search_start source i \<le> k \<and> occurs_at source needle k) else -1))
    \<and> buffer_includes h source (SBytes needle) (Some i) enc = Inr (\<exists>k\<ge>search_start source i. occurs_at source needle k)"
proof -
  have "buffer_indexOf h source (SBytes needle) (Some i) enc = Inr (Some (indexOfNeedle source needle i))"
    using assms(1-3) by (simp add: buffer_indexOf_def bidirectionalIndexOf_def indexOfBuffer_def Let_def)
  then show ?thesis
    using indexOfNeedle_first [OF assms(1), of source i] unfolding buffer_includes_def by auto
qed

theorem indexOf_first_witness:
  "(\<exists>k\<ge>1. occurs_at [7, 8, 7, 8] [7, 8] k) \<and>
   buffer_includes ascii_host [7, 8, 7, 8] (SBytes [7, 8]) (Some (- 3)) None = Inr True"
proof -
  have "occurs_at [7, 8, 7, 8] [7, 8] 2" by (simp add: occurs_at_def)
  then have "\<exists>k\<ge>1. occurs_at [7, 8, 7, 8] [7, 8] k" by (intro exI [of _ 2]) simp
  then show ?thesis using indexOf_first [of "[7, 8]" "- 3" ascii_host "[7, 8, 7, 8]" None]
    by (simp add: search_start_def)
qed

subsection \<open>The backward search returns, and only at an occurrence\<close>

text \<open>While a match is being extended, it began at \<open>lm\<close> and covers the \<open>m\<close> positions from there.\<close>

definition last_inv :: "bytes \<Rightarrow> bytes \<Rightarrow> nat \<Rightarrow> int \<Rightarrow> nat \<Rightarrow> bool" where
  "last_inv s b x lm m \<longleftrightarrow> m < length b \<and>
     (if lm = -1 then m = 0
      else 0 \<le> lm \<and> int x = lm + int m \<and> 0 < m
        \<and> (\<forall>j<m. s ! (length s - 1 - (nat lm + j)) = b ! (length b - 1 - j)))"

definition last_rank :: "bytes \<Rightarrow> nat \<Rightarrow> int \<Rightarrow> nat" where
  "last_rank s x lm =
     (length s - (if lm = -1 then x else nat lm)) * (length s + 1) + (length s - x)"

lemma rank_less: "a' < a \<Longrightarrow> c' \<le> n \<Longrightarrow> a' * (n + 1) + c' < a * (n + 1) + (c :: nat)"
proof -
  assume "a' < a" "c' \<le> n"
  then have "a' * (n + 1) + c' < (a' + 1) * (n + 1)" by simp
  also have "\<dots> \<le> a * (n + 1)" using \<open>a' < a\<close> by (intro mult_le_mono1) simp
  finally show ?thesis by simp
qed

lemma last_found:
  assumes "last_inv s b x lm m" "x < length s" "m + 1 = length b"
    and "s ! (length s - 1 - x) = b ! (length b - 1 - m)"
  shows "occurs_at s b (length s - 1 - x)"
proof -
  define l where "l = (if lm = -1 then x else nat lm)"
  have x: "x = l + m" using assms(1) by (auto simp: last_inv_def l_def split: if_splits)
  have eq: "s ! (length s - 1 - (l + j)) = b ! (length b - 1 - j)" if "j \<le> m" for j
  proof (cases "j = m")
    case True
    then show ?thesis using assms(4) x by simp
  next
    case False
    then show ?thesis using that assms(1) by (auto simp: last_inv_def l_def split: if_splits)
  qed
  have "s ! (length s - 1 - x + j) = b ! j" if "j < length b" for j
  proof -
    have "length s - 1 - (l + (m - j)) = length s - 1 - x + j"
      using that assms(2,3) x by linarith
    moreover have "length b - 1 - (m - j) = j" using that assms(3) by simp
    ultimately show ?thesis using eq [of "m - j"] by simp
  qed
  moreover have "length s - 1 - x + length b \<le> length s" using assms(2,3) x by linarith
  ultimately show ?thesis by (simp add: occurs_at_nth)
qed

lemma last_more:
  assumes "last_inv s b x lm m" "x < length s" "m + 1 \<noteq> length b"
    and "s ! (length s - 1 - x) = b ! (length b - 1 - m)"
  shows "last_inv s b (x + 1) (if lm = -1 then int x else lm) (m + 1)"
proof (cases "lm = -1")
  case True
  then show ?thesis using assms by (auto simp: last_inv_def)
next
  case False
  then have "nat lm + m = x" using assms(1) by (auto simp: last_inv_def)
  then show ?thesis using assms False by (auto simp: last_inv_def less_Suc_eq)
qed

lemma last_rank_steps:
  assumes "last_inv s b x lm m" "x < length s"
  shows "last_rank s (x + 1) (if lm = -1 then int x else lm) < last_rank s x lm"
    and "lm \<noteq> -1 \<Longrightarrow> last_rank s (nat (lm + 1) + 1) (-1) < last_rank s x lm"
    and "lm = -1 \<Longrightarrow> last_rank s (x + 1) (-1) < last_rank s x lm"
proof -
  show "last_rank s (x + 1) (if lm = -1 then int x else lm) < last_rank s x lm"
    using assms by (auto simp: last_rank_def last_inv_def)
  show "last_rank s (nat (lm + 1) + 1) (-1) < last_rank s x lm" if "lm \<noteq> -1"
  proof -
    have "nat lm < x" "nat (lm + 1) + 1 = nat lm + 2" using assms(1) that by (auto simp: last_inv_def)
    then show ?thesis
      using assms(2) that rank_less [of "length s - (nat lm + 2)" "length s - nat lm"
          "length s - (nat lm + 2)" "length s" "length s - x"]
      by (simp add: last_rank_def)
  qed
  show "last_rank s (x + 1) (-1) < last_rank s x lm" if "lm = -1"
    using assms(2) that rank_less [of "length s - (x + 1)" "length s - x" "length s - (x + 1)" "length s" "length s - x"]
    by (simp add: last_rank_def)
qed

lemma find_last_returns:
  assumes "last_inv s b x lm m"
  shows "\<exists>r. find_last_loop s b x lm m = Some r \<and>
    (r = -1 \<or> 0 \<le> r \<and> r < int (length s) \<and> occurs_at s b (length s - 1 - nat r))"
  using assms
proof (induction "last_rank s x lm" arbitrary: x lm m rule: less_induct)
  case less
  let ?eq = "s ! (length s - 1 - x) = b ! (length b - 1 - m)"
  let ?l = "if lm = -1 then int x else lm"
  have restart: "last_inv s b y (-1) 0" for y using less.prems unfolding last_inv_def by auto
  show ?case
  proof (cases "x < length s")
    case True
    note steps = last_rank_steps [OF less.prems True]
    consider (found) ?eq "m + 1 = length b" | (more) ?eq "m + 1 \<noteq> length b"
      | (again) "\<not> ?eq" "lm \<noteq> -1" | (skip) "\<not> ?eq" "lm = -1" by blast
    then show ?thesis
    proof cases
      case found
      then have "find_last_loop s b x lm m = Some (int x)"
        using True by (subst find_last_loop.simps) (simp add: Let_def)
      then show ?thesis using True last_found [OF less.prems True found(2,1)] by simp
    next
      case more
      then have "find_last_loop s b x lm m = find_last_loop s b (x + 1) ?l (m + 1)"
        using True by (subst find_last_loop.simps) (simp add: Let_def)
      then show ?thesis using less.hyps [OF steps(1) last_more [OF less.prems True more(2,1)]] by simp
    next
      case again
      then have "find_last_loop s b x lm m = find_last_loop s b (nat (lm + 1) + 1) (-1) 0"
        using True by (subst find_last_loop.simps) simp
      then show ?thesis using less.hyps [OF steps(2) [OF again(2)] restart] by simp
    next
      case skip
      then have "find_last_loop s b x lm m = find_last_loop s b (x + 1) (-1) 0"
        using True by (subst find_last_loop.simps) simp
      then show ?thesis using less.hyps [OF steps(3) [OF skip(2)] restart] by simp
    qed
  qed (subst find_last_loop.simps, simp)
qed

text \<open>C39. The backward search always returns, although it moves its own loop variable back, and an
  index it returns other than -1 is an occurrence of the bytes searched for.\<close>

theorem findLastIndex_returns:
  assumes "needle \<noteq> []"
  shows "\<exists>r. findLastIndex target needle offset = Some r \<and> (r = -1 \<or> 0 \<le> r \<and> occurs_at target needle (nat r))"
proof -
  define t where "t = (if offset > int (length target) then int (length target) else offset) + int (length needle)"
  define n where "n = nat (rel_index (int (length target)) t)"
  have s: "subarray target 0 t = take n target"
    by (simp add: subarray_def n_def Let_def rel_index_def)
  obtain r where r: "find_last_loop (take n target) needle 0 (-1) 0 = Some r"
    "r = -1 \<or> 0 \<le> r \<and> r < int (length (take n target))
      \<and> occurs_at (take n target) needle (length (take n target) - 1 - nat r)"
    using find_last_returns [of "take n target" needle 0 "-1" 0] assms by (auto simp: last_inv_def)
  have up: "occurs_at target needle k" if "occurs_at (take n target) needle k" for k
    using that by (auto simp: occurs_at_nth)
  have f: "findLastIndex target needle offset
      = Some (if r = -1 then r else int (length (take n target)) - 1 - r)"
    using r(1) s unfolding findLastIndex_def Let_def t_def by simp
  show ?thesis
  proof (cases "r = -1")
    case False
    define q where "q = int (length (take n target)) - 1 - r"
    have "0 \<le> q" "nat q = length (take n target) - 1 - nat r"
      using r(2) False by (simp_all add: q_def nat_diff_distrib)
    moreover have "occurs_at target needle (length (take n target) - 1 - nat r)" using r(2) False up by blast
    ultimately show ?thesis using f False unfolding q_def by auto
  qed (simp add: f)
qed

theorem findLastIndex_returns_witness:
  "([97, 98] :: bytes) \<noteq> [] \<and> (\<exists>r. findLastIndex [97, 98, 98] [97, 98] 3 = Some r)"
  using findLastIndex_returns [of "[97, 98]" "[97, 98, 98]" 3] by blast

text \<open>After a partial match the search resumes two positions after the start of that match, one too
  far, and misses an occurrence that begins right there.\<close>

lemma findLastIndex_misses:
  "occurs_at [97, 98, 98] [97, 98] 0 \<and> findLastIndex [97, 98, 98] [97, 98] 3 = Some (-1)"
  by (simp add: occurs_at_def findLastIndex_def subarray_def rel_index_def Let_def find_last_loop.simps)

end
