(* ===== verification/String_Decoder.thy ===== *)
theory String_Decoder
  imports Buffer_Text
begin

unbundle bit_operations_syntax

text \<open>
  \<^verbatim>\<open>string_decoder.ts\<close>: the state of a decoder, \<^verbatim>\<open>write\<close>, \<^verbatim>\<open>end\<close>,
  \<^verbatim>\<open>text\<close> and the two getters. A decoder keeps the bytes of an unfinished character in
  \<^verbatim>\<open>lastChar\<close>; the characters themselves are made by \<^verbatim>\<open>buf.toString\<close> and
  \<^verbatim>\<open>buf.copy\<close>, which are the functions of the buffer theories. The state after an
  exception is not part of the result, and \<^verbatim>\<open>this\<close> is always a decoder.
\<close>

subsection \<open>Encodings\<close>

text \<open>\<^verbatim>\<open>normalizeEncoding\<close> of \<^verbatim>\<open>_utils.ts\<close>, which does not know
  \<^verbatim>\<open>base64url\<close>\<close>

definition cast_slowCases :: "host \<Rightarrow> js_string \<Rightarrow> js_string option" where
  "cast_slowCases h enc =
     (let low = toLowerCase h enc in
      if length enc = 4 then
        if enc = js ''UTF8'' then Some (js ''utf8'')
        else if enc = js ''ucs2'' \<or> enc = js ''UCS2'' then Some (js ''utf16le'')
        else if low = js ''utf8'' then Some (js ''utf8'')
        else if low = js ''ucs2'' then Some (js ''utf16le'')
        else None
      else if length enc = 3 then
        if enc = js ''hex'' \<or> enc = js ''HEX'' \<or> low = js ''hex'' then Some (js ''hex'') else None
      else if length enc = 5 then
        if enc = js ''ascii'' then Some (js ''ascii'')
        else if enc = js ''ucs-2'' then Some (js ''utf16le'')
        else if enc = js ''UTF-8'' then Some (js ''utf8'')
        else if enc = js ''ASCII'' then Some (js ''ascii'')
        else if enc = js ''UCS-2'' then Some (js ''utf16le'')
        else if low = js ''utf-8'' then Some (js ''utf8'')
        else if low = js ''ascii'' then Some (js ''ascii'')
        else if low = js ''ucs-2'' then Some (js ''utf16le'')
        else None
      else if length enc = 6 then
        if enc = js ''base64'' then Some (js ''base64'')
        else if enc = js ''latin1'' \<or> enc = js ''binary'' then Some (js ''latin1'')
        else if enc = js ''BASE64'' then Some (js ''base64'')
        else if enc = js ''LATIN1'' \<or> enc = js ''BINARY'' then Some (js ''latin1'')
        else if low = js ''base64'' then Some (js ''base64'')
        else if low = js ''latin1'' \<or> low = js ''binary'' then Some (js ''latin1'')
        else None
      else if length enc = 7 then
        if enc = js ''utf16le'' \<or> enc = js ''UTF16LE'' \<or> low = js ''utf16le''
        then Some (js ''utf16le'') else None
      else if length enc = 8 then
        if enc = js ''utf-16le'' \<or> enc = js ''UTF-16LE'' \<or> low = js ''utf-16le''
        then Some (js ''utf16le'') else None
      else if enc = [] then Some (js ''utf8'')
      else None)"

definition castEncoding :: "host \<Rightarrow> js_string option \<Rightarrow> js_string option" where
  "castEncoding h enc =
     (case enc of
        None \<Rightarrow> Some (js ''utf8'')
      | Some e \<Rightarrow> if e = js ''utf8'' \<or> e = js ''utf-8'' then Some (js ''utf8'') else cast_slowCases h e)"

text \<open>The encoding \<^verbatim>\<open>raw\<close> passes and becomes the text \<^verbatim>\<open>undefined\<close>.\<close>

definition decoder_normalizeEncoding :: "host \<Rightarrow> js_string option \<Rightarrow> js_string result" where
  "decoder_normalizeEncoding h enc =
     (case castEncoding h enc of
        Some e \<Rightarrow> Inr e
      | None \<Rightarrow>
          (case enc of
             Some e \<Rightarrow> if toLowerCase h e = js ''raw'' then Inr (js ''undefined'') else Inl ERR_UNKNOWN_ENCODING
           | None \<Rightarrow> Inl ERR_UNKNOWN_ENCODING))"

datatype Encoding = EUtf8 | EBase64 | EUtf16 | EAscii | ELatin1 | EHex

subsection \<open>State\<close>

record string_decoder =
  sd_encoding :: js_string
  sd_enc :: Encoding
  lastChar :: bytes
  bufferedBytes :: int
  missingBytes :: int

definition new_decoder :: "host \<Rightarrow> js_string option \<Rightarrow> string_decoder result" where
  "new_decoder h encoding =
     bindE (decoder_normalizeEncoding h encoding) (\<lambda>e.
       let (enc, bufLen) =
         (if e = js ''utf8'' then (EUtf8, 4)
          else if e = js ''base64'' then (EBase64, 3)
          else if e = js ''utf16le'' then (EUtf16, 4)
          else if e = js ''hex'' then (EHex, 0)
          else if e = js ''latin1'' then (ELatin1, 0)
          else if e = js ''ascii'' then (EAscii, 0)
          else (EUtf8, 0))
       in bindE (allocUnsafe (arg_nat bufLen)) (\<lambda>b.
            Inr \<lparr>sd_encoding = e, sd_enc = enc, lastChar = b, bufferedBytes = 0, missingBytes = 0\<rparr>))"

subsection \<open>Decoding\<close>

definition kStringMaxLength :: int where "kStringMaxLength = 536870888"

definition bufferToString :: "host \<Rightarrow> bytes \<Rightarrow> js_string \<Rightarrow> int \<Rightarrow> int \<Rightarrow> js_string result" where
  "bufferToString h buf encoding start end' =
     (if end' - start > kStringMaxLength then Inl ERR_STRING_TOO_LONG
      else buffer_toString h buf (Some encoding) (arg_int start) (arg_int end'))"

text \<open>The first byte among the expected continuation bytes that is none.\<close>

function utf8_break :: "bytes \<Rightarrow> int \<Rightarrow> nat \<Rightarrow> nat option" where
  "utf8_break buf missing i =
     (if i < length buf \<and> int i < missing then
        if buf ! i AND 0xC0 \<noteq> 0x80 then Some i else utf8_break buf missing (i + 1)
      else None)"
  by auto
termination by (relation "measure (\<lambda>(buf, _, i). length buf - i)") auto

declare utf8_break.simps [simp del]

text \<open>The block that completes a character of the previous chunk: the new state, the number of bytes
  used and the character.\<close>

definition decode_finish ::
  "host \<Rightarrow> string_decoder \<Rightarrow> bytes \<Rightarrow> (string_decoder \<times> int \<times> js_string) result" where
  "decode_finish h st buf =
     (if missingBytes st > 0 then
        bindE
          (case (if sd_enc st = EUtf8 then utf8_break buf (missingBytes st) 0 else None) of
             None \<Rightarrow> Inr (st, 0)
           | Some i \<Rightarrow>
               bindE (buffer_copy buf (U8 (lastChar st)) (arg_int (bufferedBytes st)) (arg_int 0) (arg_nat i)) (\<lambda>(b, _).
                 Inr (st\<lparr>lastChar := b, missingBytes := 0, bufferedBytes := bufferedBytes st + int i\<rparr>, int i)))
          (\<lambda>(st, bufIdx).
             let bytesToCopy = min (int (length buf) - bufIdx) (missingBytes st) in
             bindE (buffer_copy buf (U8 (lastChar st)) (arg_int (bufferedBytes st)) (arg_int bufIdx)
                 (arg_int (bufIdx + bytesToCopy))) (\<lambda>(b, _).
             let bufIdx = bufIdx + bytesToCopy;
                 st = st\<lparr>lastChar := b, bufferedBytes := bufferedBytes st + bytesToCopy,
                         missingBytes := missingBytes st - bytesToCopy\<rparr>
             in if missingBytes st = 0 then
                  bindE (bufferToString h (lastChar st) (sd_encoding st) 0 (bufferedBytes st)) (\<lambda>prepend.
                    Inr (st\<lparr>bufferedBytes := 0\<rparr>, bufIdx, prepend))
                else Inr (st, bufIdx, [])))
      else Inr (st, 0, []))"

text \<open>The search, from the last byte backwards, for the start of an unfinished UTF-8 character: the
  number of bytes to keep and the number of bytes it still needs.\<close>

definition utf8_need :: "8 word \<Rightarrow> int option" where
  "utf8_need b =
     (if b AND 0xE0 = 0xC0 then Some 2
      else if b AND 0xF0 = 0xE0 then Some 3
      else if b AND 0xF8 = 0xF0 then Some 4
      else None)"

function utf8_tail :: "bytes \<Rightarrow> nat \<Rightarrow> int \<Rightarrow> int \<Rightarrow> int \<times> int" where
  "utf8_tail buf i buffered missing =
     (let buffered = buffered + 1 in
      if buf ! i AND 0xC0 = 0x80 then
        if buffered \<ge> 4 \<or> i = 0 then (0, missing) else utf8_tail buf (i - 1) buffered missing
      else case utf8_need (buf ! i) of
             None \<Rightarrow> (0, missing)
           | Some m \<Rightarrow> if buffered \<ge> m then (0, 0) else (buffered, m - buffered))"
  by auto
termination by (relation "measure (\<lambda>(_, i, _, _). i)") auto

declare utf8_tail.simps [simp del]

definition decode_tail :: "string_decoder \<Rightarrow> bytes \<Rightarrow> int \<Rightarrow> string_decoder" where
  "decode_tail st buf bufIdx =
     (let l = buf ! (length buf - 1); n = int (length buf) - bufIdx in
      if sd_enc st = EUtf8 \<and> l AND 0x80 \<noteq> 0 then
        (case utf8_tail buf (length buf - 1) (bufferedBytes st) (missingBytes st) of
           (b, m) \<Rightarrow> st\<lparr>bufferedBytes := b, missingBytes := m\<rparr>)
      else if sd_enc st = EUtf16 then
        if n mod 2 = 1 then st\<lparr>bufferedBytes := 1, missingBytes := 1\<rparr>
        else if l AND 0xFC = 0xD8 then st\<lparr>bufferedBytes := 2, missingBytes := 2\<rparr>
        else st
      else if sd_enc st = EBase64 then
        let b = n mod 3 in
        if b > 0 then st\<lparr>bufferedBytes := b, missingBytes := 3 - b\<rparr> else st\<lparr>bufferedBytes := b\<rparr>
      else st)"

definition decode :: "host \<Rightarrow> string_decoder \<Rightarrow> bytes \<Rightarrow> (string_decoder \<times> js_string) result" where
  "decode h st buf =
     (if sd_enc st = EUtf8 \<or> sd_enc st = EUtf16 \<or> sd_enc st = EBase64 then
        bindE (decode_finish h st buf) (\<lambda>(st, bufIdx, prepend).
          if int (length buf) - bufIdx = 0 then Inr (st, prepend)
          else
            let st = decode_tail st buf bufIdx in
            bindE (if bufferedBytes st > 0 then
                     bindE (buffer_copy buf (U8 (lastChar st)) (arg_int 0)
                         (arg_int (int (length buf) - bufferedBytes st)) AUndef) (\<lambda>(b, _).
                       Inr (st\<lparr>lastChar := b\<rparr>, int (length buf) - bufferedBytes st))
                   else Inr (st, int (length buf))) (\<lambda>(st, bufEnd).
            bindE (bufferToString h buf (sd_encoding st) bufIdx bufEnd) (\<lambda>rest.
              Inr (st, prepend @ rest))))
      else
        bindE (bufferToString h buf (sd_encoding st) 0 (int (length buf))) (\<lambda>rest. Inr (st, rest)))"

definition flush :: "host \<Rightarrow> string_decoder \<Rightarrow> (string_decoder \<times> js_string) result" where
  "flush h st =
     (let st = (if sd_enc st = EUtf16 \<and> bufferedBytes st mod 2 = 1
                then st\<lparr>bufferedBytes := bufferedBytes st - 1, missingBytes := missingBytes st - 1\<rparr> else st)
      in if bufferedBytes st = 0 then Inr (st, [])
         else bindE (bufferToString h (lastChar st) (sd_encoding st) 0 (bufferedBytes st)) (\<lambda>ret.
                Inr (st\<lparr>bufferedBytes := 0, missingBytes := 0\<rparr>, ret)))"

subsection \<open>Methods\<close>

text \<open>
  An argument of \<^verbatim>\<open>write\<close>: a string, a buffer, another view given by its underlying array,
  offset and length, or something else.
\<close>

datatype decoder_arg = DStr js_string | DBuf bytes | DView bytes nat nat | DOther

definition normalizeBuffer :: "decoder_arg \<Rightarrow> bytes result" where
  "normalizeBuffer buf =
     (case buf of
        DBuf b \<Rightarrow> Inr b
      | DView underlying _ _ \<Rightarrow> Inr underlying
      | _ \<Rightarrow> Inl (ERR_INVALID_ARG_TYPE ''buf''))"

definition decoder_write :: "host \<Rightarrow> string_decoder \<Rightarrow> decoder_arg \<Rightarrow> (string_decoder \<times> js_string) result" where
  "decoder_write h st buf =
     (case buf of
        DStr s \<Rightarrow> Inr (st, s)
      | _ \<Rightarrow> bindE (normalizeBuffer buf) (\<lambda>b. decode h st b))"

definition decoder_end ::
  "host \<Rightarrow> string_decoder \<Rightarrow> decoder_arg option \<Rightarrow> (string_decoder \<times> js_string) result" where
  "decoder_end h st buf =
     bindE (case buf of None \<Rightarrow> Inr (st, []) | Some b \<Rightarrow> decoder_write h st b) (\<lambda>(st, ret).
       if bufferedBytes st > 0 then bindE (flush h st) (\<lambda>(st, s). Inr (st, ret @ s)) else Inr (st, ret))"

text \<open>\<^verbatim>\<open>text(buf, offset)\<close> for a buffer and an integer offset\<close>

definition decoder_text :: "host \<Rightarrow> string_decoder \<Rightarrow> bytes \<Rightarrow> int \<Rightarrow> (string_decoder \<times> js_string) result" where
  "decoder_text h st buf offset =
     decoder_write h (st\<lparr>bufferedBytes := 0, missingBytes := 0\<rparr>) (DBuf (subarray buf offset (int (length buf))))"

definition lastNeed :: "string_decoder \<Rightarrow> int" where "lastNeed st = missingBytes st"

definition lastTotal :: "string_decoder \<Rightarrow> int" where
  "lastTotal st = bufferedBytes st + missingBytes st"

end
