(* ===== verification/String_Decoder_Laws.thy ===== *)
theory String_Decoder_Laws
  imports String_Decoder "HOL-Library.Sublist"
begin

unbundle bit_operations_syntax

text \<open>
  What a decoder promises: the pieces it returns, with what \<^verbatim>\<open>end\<close> returns, are the text of
  all the bytes it was given, wherever the chunks are cut, as long as no byte order mark comes after
  the first byte. The proof follows the bytes: each write
  splits the bytes kept from before and the new ones into two decoded segments and the bytes kept,
  and every cut is at a place where decoding can restart.
\<close>

subsection \<open>Encodings of a decoder\<close>

fun enc_name :: "Encoding \<Rightarrow> js_string" where
  "enc_name EUtf8 = js ''utf8''"
| "enc_name EBase64 = js ''base64''"
| "enc_name EUtf16 = js ''utf16le''"
| "enc_name EAscii = js ''ascii''"
| "enc_name ELatin1 = js ''latin1''"
| "enc_name EHex = js ''hex''"

fun enc_room :: "Encoding \<Rightarrow> nat" where
  "enc_room EUtf8 = 4"
| "enc_room EBase64 = 3"
| "enc_room EUtf16 = 4"
| "enc_room _ = 0"

fun enc_ops :: "Encoding \<Rightarrow> encodingOps" where
  "enc_ops EUtf8 = Utf8"
| "enc_ops EBase64 = Base64"
| "enc_ops EUtf16 = Utf16le"
| "enc_ops EAscii = Ascii"
| "enc_ops ELatin1 = Latin1"
| "enc_ops EHex = Hex"

definition segment_text :: "host \<Rightarrow> Encoding \<Rightarrow> bytes \<Rightarrow> js_string" where
  "segment_text h enc bs = (if bs = [] then [] else ops_slice h (enc_ops enc) bs 0 (int (length bs)))"

lemma getEncodingOps_name:
  assumes "lower_law h"
  shows "getEncodingOps h (enc_name enc) = Some (enc_ops enc)"
proof -
  have "list_all (\<lambda>c. c < 128 \<and> \<not> (65 \<le> c \<and> c \<le> 90)) (enc_name enc)"
    by (cases enc; simp only: enc_name.simps) (code_simp+)
  then have "toLowerCase h (enc_name enc) = enc_name enc"
    using assms unfolding lower_law_def list_all_iff by blast
  then show ?thesis
    by (cases enc) (simp_all add: getEncodingOps_def Let_def js_eq_iff length_js)
qed

lemma segment_text_toString:
  "lower_law h \<Longrightarrow> buffer_toString h bs (Some (enc_name enc)) AUndef AUndef = Inr (segment_text h enc bs)"
  by (cases "bs = []")
    (simp_all add: segment_text_def toString_empty toString_all [OF getEncodingOps_name])

lemma subarray_all: "subarray bs 0 (int (length bs)) = bs"
  using subarray_nat [of 0 "length bs" bs] by simp

lemma hexSlice_part:
  assumes "s < t" "t \<le> length bs"
  shows "hexSlice bs (int s) (int t) = hexSlice (take (t - s) (drop s bs)) 0 (int (t - s))"
proof -
  have "map (\<lambda>i. f (bs ! nat i)) [int s..int t - 1] = map f (take (t - s) (drop s bs))" for f :: "8 word \<Rightarrow> 'a"
    by (rule nth_equalityI) (use assms in \<open>auto simp: nat_add_distrib nat_diff_distrib'\<close>)
  from this [of "\<lambda>b. hexSliceLookupTable ! unat b"]
  have "hexSlice bs (int s) (int t) = concat (map (\<lambda>b. hexSliceLookupTable ! unat b) (take (t - s) (drop s bs)))"
    using assms by (auto simp: hexSlice_def Let_def)
  moreover have "length (take (t - s) (drop s bs)) = t - s" using assms by simp
  ultimately show ?thesis using hexSlice_all [of "take (t - s) (drop s bs)"] by metis
qed

lemma latin1Slice_part:
  assumes "s < t" "t \<le> length bs"
  shows "latin1Slice bs (int s) (int t) = map unat (take (t - s) (drop s bs))"
  by (rule nth_equalityI)
    (use assms in \<open>auto simp: latin1Slice_def js_get_def nat_add_distrib of_nat_diff\<close>)

lemma ops_slice_part:
  assumes "s < t" "t \<le> length bs"
  shows "ops_slice h ops bs (int s) (int t) = ops_slice h ops (take (t - s) (drop s bs)) 0 (int (t - s))"
proof -
  let ?b = "take (t - s) (drop s bs)"
  have l: "length ?b = t - s" using assms by simp
  have sub: "subarray bs (int s) (int t) = ?b" using assms by (simp add: subarray_nat)
  have whole: "?b = bs" if "int s = 0 \<and> int t = int (length bs)" using that by simp
  have la: "latin1Slice ?b 0 (int (t - s)) = map unat ?b" using latin1Slice_all [of ?b] l by simp
  have al: "subarray ?b 0 (int (t - s)) = ?b" using subarray_all [of ?b] l by simp
  show ?thesis
    using sub whole l al assms
    by (cases ops) (auto simp: asciiSlice_def ucs2Slice_def base64Slice_def base64urlSlice_def utf8Slice_def
      hexSlice_part latin1Slice_part la simp del: of_nat_diff)
qed

lemma to_int32_nat: "n \<le> kMaxLength \<Longrightarrow> to_int32 (int n) = int n"
  by (rule to_int32_id) (simp_all add: kMaxLength_def)

lemma buffer_toString_nat:
  assumes "lower_law h" "s \<le> t" "t \<le> length bs" "length bs \<le> kMaxLength"
  shows "buffer_toString h bs (Some (enc_name enc)) (arg_nat s) (arg_nat t)
    = Inr (segment_text h enc (take (t - s) (drop s bs)))"
proof -
  have i: "to_int32 (int s) = int s" "to_int32 (int t) = int t" using assms by (simp_all add: to_int32_nat)
  have z: "num_le (num_nat s) (num_int 0) \<longleftrightarrow> s = 0" using num_le_nat [of s 0] by simp
  have n: "num_le (num_int (int (length bs))) (num_nat s) \<longleftrightarrow> length bs \<le> s" using num_le_nat [of "length bs" s] by simp
  have m: "\<not> num_less (num_int (int (length bs))) (num_nat t)" using assms(3) by simp
  show ?thesis
  proof (cases "s < t")
    case True
    then show ?thesis
      using assms i z n m ops_slice_part [OF True assms(3), of h "enc_ops enc"]
      by (auto simp: buffer_toString_def Let_def getEncodingOps_name segment_text_def simp del: of_int_of_nat_eq)
  next
    case False
    then show ?thesis
      using assms i z n m
      by (auto simp: buffer_toString_def Let_def getEncodingOps_name segment_text_def simp del: of_int_of_nat_eq)
  qed
qed

lemma bufferToString_nat:
  assumes "lower_law h" "s \<le> t" "t \<le> length bs" "length bs \<le> nat kStringMaxLength"
  shows "bufferToString h bs (enc_name enc) (int s) (int t) = Inr (segment_text h enc (take (t - s) (drop s bs)))"
proof -
  have "length bs \<le> kMaxLength" using assms(4) by (simp add: kStringMaxLength_def kMaxLength_def)
  then show ?thesis
    using assms buffer_toString_nat [of h s t bs enc] by (simp add: bufferToString_def kStringMaxLength_def)
qed

subsection \<open>Copies into the character buffer\<close>

lemma copy_part:
  assumes "s \<le> e" "e \<le> length this" "t + (e - s) \<le> length target" "length this \<le> kMaxLength"
    and "length target \<le> kMaxLength"
  shows "buffer_copy this (U8 target) (arg_nat t) (arg_nat s) (arg_nat e)
    = Inr (overwrite target t (take (e - s) (drop s this)), int (e - s))"
proof -
  have "min (min e (length this) - s) (length target - t) = e - s" using assms(1-3) by linarith
  then show ?thesis using buffer_copy_nat [of s e this t target] assms by simp
qed

lemma copy_rest:
  assumes "s \<le> length this" "t + (length this - s) \<le> length target" "length this \<le> kMaxLength"
    and "length target \<le> kMaxLength"
  shows "buffer_copy this (U8 target) (arg_nat t) (arg_nat s) AUndef
    = Inr (overwrite target t (drop s this), int (length this - s))"
proof -
  have "toInteger (arg_nat (length this)) 0 = Inr (int (length this))" by (rule toInteger_nat [OF assms(3)])
  moreover have "\<not> int (length this) \<ge> MAX_UINT32" using assms(3) by (simp add: MAX_UINT32_def kMaxLength_def)
  ultimately have "buffer_copy this (U8 target) a b AUndef = buffer_copy this (U8 target) a b (arg_nat (length this))" for a b
    by (simp add: buffer_copy_def)
  then show ?thesis using copy_part [of s "length this" this t target] assms by simp
qed

lemma length_overwrite_fits: "t + length src \<le> length target \<Longrightarrow> length (overwrite target t src) = length target"
  by (simp add: overwrite_def)

lemma take_overwrite:
  "t + length src \<le> length target \<Longrightarrow> take (t + length src) (overwrite target t src) = take t target @ src"
  by (simp add: overwrite_def)

subsection \<open>Places where decoding can restart\<close>

definition cont_byte :: "8 word \<Rightarrow> bool" where
  "cont_byte b \<longleftrightarrow> b AND 0xC0 = 0x80"

text \<open>The last character of the bytes has all the continuation bytes it can take.\<close>

definition utf8_complete :: "bytes \<Rightarrow> bool" where
  "utf8_complete bs \<longleftrightarrow>
     (let k = length (takeWhile cont_byte (rev bs)) in
      k = length bs \<or> (case utf8_need (rev bs ! k) of None \<Rightarrow> True | Some n \<Rightarrow> n \<le> int k + 1))"

fun char_closed :: "Encoding \<Rightarrow> bytes \<Rightarrow> bool" where
  "char_closed EUtf8 bs \<longleftrightarrow> utf8_complete bs"
| "char_closed EUtf16 bs \<longleftrightarrow> even (length bs)"
| "char_closed EBase64 bs \<longleftrightarrow> length bs mod 3 = 0"
| "char_closed _ bs \<longleftrightarrow> True"

definition splits :: "Encoding \<Rightarrow> bytes \<Rightarrow> bytes \<Rightarrow> bool" where
  "splits enc a b \<longleftrightarrow> char_closed enc a \<or> enc = EUtf8 \<and> b \<noteq> [] \<and> \<not> cont_byte (hd b)"

lemma utf8_need_masks:
  assumes "utf8_need b = Some n"
  shows "\<not> cont_byte b" "b AND 0x80 \<noteq> 0" "2 \<le> n" "n \<le> 4"
proof -
  have c: "b AND 0xC0 = 0xC0"
  proof -
    have "(b AND 0xE0) AND 0xC0 = b AND 0xC0" "(b AND 0xF0) AND 0xC0 = b AND 0xC0" "(b AND 0xF8) AND 0xC0 = b AND 0xC0"
      by (simp_all add: and.assoc)
    then show ?thesis using assms by (auto simp: utf8_need_def split: if_splits)
  qed
  then show "\<not> cont_byte b" by (simp add: cont_byte_def)
  have "(b AND 0xC0) AND 0x80 = b AND 0x80" by (simp add: and.assoc)
  with c show "b AND 0x80 \<noteq> 0" by auto
  show "2 \<le> n" "n \<le> 4" using assms by (auto simp: utf8_need_def split: if_splits)
qed

lemma cont_byte_high: "cont_byte b \<Longrightarrow> b AND 0x80 \<noteq> 0"
proof -
  have "(b AND 0xC0) AND 0x80 = b AND 0x80" by (simp add: and.assoc)
  then show "cont_byte b \<Longrightarrow> b AND 0x80 \<noteq> 0" by (auto simp: cont_byte_def)
qed

lemma takeWhile_rev_lead:
  "list_all P ys \<Longrightarrow> \<not> P x \<Longrightarrow> takeWhile P (rev (xs @ x # ys)) = rev ys"
  by (simp add: takeWhile_append list_all_iff)

lemma utf8_complete_lead:
  assumes "list_all cont_byte ys" "\<not> cont_byte x"
  shows "utf8_complete (xs @ x # ys) \<longleftrightarrow> (case utf8_need x of None \<Rightarrow> True | Some n \<Rightarrow> n \<le> int (length ys) + 1)"
proof -
  have "rev (xs @ x # ys) ! length ys = x" by (simp add: nth_append)
  then show ?thesis unfolding utf8_complete_def Let_def takeWhile_rev_lead [OF assms] length_rev by simp
qed

lemma utf8_complete_conts: "list_all cont_byte bs \<Longrightarrow> utf8_complete bs"
proof -
  assume "list_all cont_byte bs"
  then have "takeWhile cont_byte (rev bs) = rev bs" by (simp add: list_all_iff takeWhile_eq_all_conv)
  then show ?thesis unfolding utf8_complete_def Let_def by (simp only: length_rev simp_thms)
qed

text \<open>Any bytes are all continuation bytes or have a last byte that is none.\<close>

lemma last_lead_cases:
  obtains (conts) "list_all cont_byte bs"
  | (lead) xs x ys where "bs = xs @ x # ys" "\<not> cont_byte x" "list_all cont_byte ys"
proof (cases "\<exists>x\<in>set bs. \<not> cont_byte x")
  case True
  then obtain xs x ys where "bs = xs @ x # ys" "\<not> cont_byte x" "\<forall>y\<in>set ys. \<not> \<not> cont_byte y"
    using split_list_last_prop [OF True] by blast
  then show ?thesis using lead by (simp add: list_all_iff)
qed (use conts in \<open>auto simp: list_all_iff\<close>)

lemma utf8_complete_suffix:
  assumes "utf8_complete (zs @ r)" "list_all cont_byte zs"
  shows "utf8_complete r"
proof (cases r rule: last_lead_cases)
  case conts
  then show ?thesis by (rule utf8_complete_conts)
next
  case (lead xs x ys)
  then show ?thesis
    using assms(1) utf8_complete_lead [OF lead(3,2), of "zs @ xs"] utf8_complete_lead [OF lead(3,2), of xs] by simp
qed

subsection \<open>The two scans\<close>

lemma utf8_break_spec:
  "case utf8_break buf m i of
     None \<Rightarrow> \<forall>j. i \<le> j \<and> j < length buf \<and> int j < m \<longrightarrow> cont_byte (buf ! j)
   | Some k \<Rightarrow> i \<le> k \<and> k < length buf \<and> int k < m \<and> \<not> cont_byte (buf ! k)
       \<and> (\<forall>j. i \<le> j \<and> j < k \<longrightarrow> cont_byte (buf ! j))"
proof (induction buf m i rule: utf8_break.induct)
  case (1 buf m i)
  show ?case
  proof (cases "i < length buf \<and> int i < m \<and> cont_byte (buf ! i)")
    case True
    then have e: "utf8_break buf m i = utf8_break buf m (i + 1)"
      by (subst utf8_break.simps) (simp add: cont_byte_def)
    have "i \<le> j \<longleftrightarrow> j = i \<or> i + 1 \<le> j" for j by auto
    then show ?thesis using 1 True unfolding e by (auto simp: cont_byte_def split: option.splits)
  next
    case False
    then show ?thesis by (subst utf8_break.simps) (auto simp: cont_byte_def)
  qed
qed

lemma utf8_break_None:
  "utf8_break buf (int m) 0 = None \<Longrightarrow> list_all cont_byte (take m buf)"
  using utf8_break_spec [where buf = buf and m = "int m" and i = 0] by (auto simp: list_all_length)

lemma utf8_break_Some:
  assumes "utf8_break buf (int m) 0 = Some k"
  shows "k < length buf" "k < m" "\<not> cont_byte (buf ! k)" "list_all cont_byte (take k buf)"
  using utf8_break_spec [where buf = buf and m = "int m" and i = 0] assms by (auto simp: list_all_length)

text \<open>The backward scan: it keeps nothing of complete bytes, or keeps an unfinished character.\<close>

definition tail_kept :: "bytes \<Rightarrow> int \<Rightarrow> int \<Rightarrow> bool" where
  "tail_kept buf b m \<longleftrightarrow>
     (b = 0 \<and> m = 0 \<and> utf8_complete buf)
     \<or> (\<exists>xs x ys. buf = xs @ x # ys \<and> list_all cont_byte ys \<and> b = int (length ys) + 1 \<and> 0 < m
          \<and> utf8_need x = Some (b + m))"

lemma utf8_tail_step:
  "cont_byte (buf ! i) \<Longrightarrow> 3 \<le> q \<or> i = 0 \<Longrightarrow> utf8_tail buf i q m = (0, m)"
  "cont_byte (buf ! i) \<Longrightarrow> q < 3 \<Longrightarrow> 0 < i \<Longrightarrow> utf8_tail buf i q m = utf8_tail buf (i - 1) (q + 1) m"
  "\<not> cont_byte (buf ! i) \<Longrightarrow> utf8_tail buf i q m =
     (case utf8_need (buf ! i) of
        None \<Rightarrow> (0, m)
      | Some n \<Rightarrow> if q + 1 \<ge> n then (0, 0) else (q + 1, n - (q + 1)))"
  by (subst utf8_tail.simps, auto simp: cont_byte_def Let_def split: option.splits)+

lemma utf8_tail_lead:
  assumes "buf = xs @ x # ys" "list_all cont_byte ys" "\<not> cont_byte x"
    and "utf8_tail buf (length xs) (int (length ys)) 0 = (b, m)"
  shows "tail_kept buf b m"
proof -
  have at: "buf ! length xs = x" unfolding assms(1) by (rule nth_append_length)
  note tail = assms(4) [unfolded utf8_tail_step(3) [of buf "length xs", unfolded at, OF assms(3)]]
  show ?thesis
  proof (cases "utf8_need x")
    case None
    then show ?thesis using tail utf8_complete_lead [OF assms(2,3), of xs] assms(1) by (simp add: tail_kept_def)
  next
    case (Some n)
    show ?thesis
    proof (cases "int (length ys) + 1 \<ge> n")
      case True
      then show ?thesis using Some tail utf8_complete_lead [OF assms(2,3), of xs] assms(1) by (simp add: tail_kept_def)
    next
      case False
      then have "b = int (length ys) + 1" "m = n - b" using Some tail by auto
      then show ?thesis using Some False assms(1,2) unfolding tail_kept_def by auto
    qed
  qed
qed

lemma utf8_complete_four:
  assumes "list_all cont_byte ys" "3 \<le> length ys"
  shows "utf8_complete (xs @ ys)"
proof (cases xs rule: last_lead_cases)
  case conts
  then show ?thesis using assms(1) by (intro utf8_complete_conts) simp
next
  case (lead us u vs)
  have "list_all cont_byte (vs @ ys)" using lead(3) assms(1) by simp
  from utf8_complete_lead [OF this lead(2), of us] show ?thesis
    using lead(1) assms(2) utf8_need_masks(4) [of u] by (force split: option.splits)
qed

lemma utf8_tail_kept:
  assumes "buf = xs @ x # ys" "list_all cont_byte ys" "length ys < 4"
    and "utf8_tail buf (length xs) (int (length ys)) 0 = (b, m)"
  shows "tail_kept buf b m"
  using assms
proof (induction xs arbitrary: x ys rule: rev_induct)
  case Nil
  show ?case
  proof (cases "cont_byte x")
    case True
    then have "utf8_complete buf" using Nil by (auto intro: utf8_complete_conts)
    moreover have "(b, m) = (0, 0)" using Nil(4) True utf8_tail_step(1) [of buf 0] by (simp add: Nil(1))
    ultimately show ?thesis by (simp add: tail_kept_def)
  qed (rule utf8_tail_lead [OF Nil(1,2) _ Nil(4)])
next
  case (snoc z zs)
  have at: "buf ! length (zs @ [z]) = x" unfolding snoc(2) by (rule nth_append_length)
  show ?case
  proof (cases "cont_byte x")
    case True
    show ?thesis
    proof (cases "length ys = 3")
      case three: True
      have "utf8_complete buf"
        using utf8_complete_four [of "x # ys" "zs @ [z]"] snoc(2,3) True three by simp
      moreover have "(b, m) = (0, 0)"
        using snoc(5) utf8_tail_step(1) [of buf "length (zs @ [z])", unfolded at, OF True] three by simp
      ultimately show ?thesis by (simp add: tail_kept_def)
    next
      case False
      have "utf8_tail buf (length zs) (int (length (x # ys))) 0 = (b, m)"
        using snoc(4,5) False utf8_tail_step(2) [of buf "length (zs @ [z])", unfolded at, OF True]
        by (simp add: add.commute)
      then show ?thesis using snoc(1) [of z "x # ys"] snoc(2-4) True False by simp
    qed
  qed (rule utf8_tail_lead [OF snoc(2,3) _ snoc(5)])
qed

subsection \<open>The state of a decoder\<close>

definition pending :: "string_decoder \<Rightarrow> bytes" where
  "pending st = take (nat (bufferedBytes st)) (lastChar st)"

fun unfinished :: "Encoding \<Rightarrow> bytes \<Rightarrow> nat \<Rightarrow> bool" where
  "unfinished EUtf8 bs m \<longleftrightarrow>
     bs \<noteq> [] \<and> utf8_need (hd bs) = Some (int (length bs + m)) \<and> list_all cont_byte (tl bs)"
| "unfinished EUtf16 bs m \<longleftrightarrow> even (length bs + m) \<and> m \<le> 2"
| "unfinished EBase64 bs m \<longleftrightarrow> length bs + m = 3"
| "unfinished _ bs m \<longleftrightarrow> False"

text \<open>
  The type of a decoder's state: the buffer has the room its encoding needs, and the bytes kept are
  the start of one character, with the number of bytes that character still needs.
\<close>

definition decoder_ok :: "string_decoder \<Rightarrow> bool" where
  "decoder_ok st \<longleftrightarrow>
     sd_encoding st = enc_name (sd_enc st) \<and> length (lastChar st) = enc_room (sd_enc st)
     \<and> 0 \<le> bufferedBytes st \<and> 0 \<le> missingBytes st
     \<and> (if missingBytes st = 0 then bufferedBytes st = 0
        else 0 < bufferedBytes st \<and> bufferedBytes st + missingBytes st \<le> int (enc_room (sd_enc st))
          \<and> unfinished (sd_enc st) (pending st) (nat (missingBytes st)))"

lemma enc_room_small: "enc_room enc \<le> 4"
  by (cases enc) simp_all

lemma kString_small: "n \<le> nat kStringMaxLength \<Longrightarrow> n \<le> kMaxLength"
  "n \<le> 4 \<Longrightarrow> n \<le> kMaxLength" "n \<le> 4 \<Longrightarrow> n \<le> nat kStringMaxLength"
  by (simp_all add: kStringMaxLength_def kMaxLength_def)

lemma unfinished_length: "unfinished enc bs m \<Longrightarrow> 0 < length bs \<or> enc \<noteq> EUtf8"
  by (cases enc) simp_all

text \<open>When the missing bytes come, the character is whole; when one of them is no continuation byte,
  decoding restarts there.\<close>

lemma unfinished_char_closed:
  assumes "unfinished enc bs (length cs)" "enc = EUtf8 \<Longrightarrow> list_all cont_byte cs"
  shows "char_closed enc (bs @ cs)"
proof (cases enc)
  case EUtf8
  then obtain x ys where bs: "bs = x # ys" using assms(1) by (cases bs) simp_all
  have need: "utf8_need x = Some (int (length (ys @ cs)) + 1)" using assms(1) EUtf8 bs by (simp add: add.commute)
  have "list_all cont_byte (ys @ cs)" using assms EUtf8 bs by simp
  from utf8_complete_lead [OF this utf8_need_masks(1) [OF need], of "[]"] show ?thesis using need EUtf8 bs by simp
qed (use assms in simp_all)

lemma unfinished_more:
  assumes "unfinished enc bs (length cs + m)" "enc = EUtf8 \<Longrightarrow> list_all cont_byte cs"
  shows "unfinished enc (bs @ cs) m"
  using assms by (cases enc) (simp_all add: add.assoc)

lemma decode_finish_cases:
  assumes h: "lower_law h" and ok: "decoder_ok st" and m: "0 < missingBytes st"
    and c: "length c \<le> nat kStringMaxLength"
  obtains (whole) L i where
    "decode_finish h st c = Inr (st\<lparr>lastChar := L, bufferedBytes := 0, missingBytes := 0\<rparr>, int i,
       segment_text h (sd_enc st) (pending st @ take i c))"
    "length L = length (lastChar st)" "i \<le> length c" "sd_enc st = EUtf8 \<Longrightarrow> list_all cont_byte (take i c)"
    "\<And>x. splits (sd_enc st) (pending st @ take i c) (drop i c @ x)"
  | (part) L where
    "decode_finish h st c = Inr (st\<lparr>lastChar := L, bufferedBytes := bufferedBytes st + int (length c),
       missingBytes := missingBytes st - int (length c)\<rparr>, int (length c), [])"
    "length L = length (lastChar st)" "int (length c) < missingBytes st"
    "take (nat (bufferedBytes st) + length c) L = pending st @ c"
    "sd_enc st = EUtf8 \<Longrightarrow> list_all cont_byte c"
proof -
  define b where "b = nat (bufferedBytes st)"
  define k where "k = nat (missingBytes st)"
  define enc where "enc = sd_enc st"
  let ?l = "lastChar st"
  have st: "bufferedBytes st = int b" "missingBytes st = int k" "sd_encoding st = enc_name enc" "sd_enc st = enc"
    using ok m by (auto simp: decoder_ok_def b_def k_def enc_def)
  have room: "b + k \<le> length ?l" "0 < k" "unfinished enc (take b ?l) k" "length ?l \<le> 4"
    using ok m enc_room_small [of enc] by (auto simp: decoder_ok_def st pending_def split: if_splits)
  note small = kString_small(1) [OF c] kString_small(2,3) [OF room(4)]
  have copy: "buffer_copy c (U8 ?l) (arg_nat b) (arg_nat 0) (arg_nat i) = Inr (overwrite ?l b (take i c), int i)"
    if "i \<le> length c" "i \<le> k" for i
    using copy_part [of 0 i c b ?l] that room small by simp
  have seg: "bufferToString h (overwrite ?l b (take i c)) (enc_name enc) 0 (int (b + i))
      = Inr (segment_text h enc (take b ?l @ take i c))" if "i \<le> length c" "i \<le> k" for i
    using bufferToString_nat [OF h, of 0 "b + i" "overwrite ?l b (take i c)" enc] that room small
      take_overwrite [of b "take i c" ?l] by (simp add: length_overwrite_fits)
  show ?thesis
  proof (cases "if enc = EUtf8 then utf8_break c (int k) 0 else None")
    case (Some i)
    then have utf8: "enc = EUtf8" and br: "utf8_break c (int k) 0 = Some i" by (auto split: if_splits)
    note i = utf8_break_Some [OF br]
    let ?L = "overwrite ?l b (take i c)"
    have L: "length ?L = length ?l" using i room by (intro length_overwrite_fits) simp
    have again: "buffer_copy c (U8 ?L) (arg_nat (b + i)) (arg_nat i) (arg_nat i) = Inr (?L, 0)"
      using copy_part [of i i c "b + i" ?L] i room small L by (simp add: overwrite_def)
    have "decode_finish h st c = Inr (st\<lparr>lastChar := ?L, bufferedBytes := 0, missingBytes := 0\<rparr>, int i,
       segment_text h (sd_enc st) (pending st @ take i c))"
      using copy [of i] seg [of i] again i room(2) br utf8
      by (simp add: decode_finish_def st pending_def Let_def)
    moreover have "splits enc (pending st @ take i c) (drop i c @ x)" for x
      using i utf8 by (simp add: splits_def hd_append hd_drop_conv_nth)
    ultimately show ?thesis using whole [of ?L i] L i st by simp
  next
    case None
    then have conts: "list_all cont_byte (take k c)" if "enc = EUtf8"
      using that utf8_break_None by simp
    have br: "(if sd_enc st = EUtf8 then utf8_break c (missingBytes st) 0 else None) = None"
      unfolding st by (rule None)
    define n where "n = min (length c) k"
    let ?L = "overwrite ?l b (take n c)"
    have L: "length ?L = length ?l" using room by (intro length_overwrite_fits) (simp add: n_def)
    have n: "min (int (length c)) (int k) = int n" "n \<le> length c" "n \<le> k" by (auto simp: n_def)
    show ?thesis
    proof (cases "k \<le> length c")
      case True
      then have nk: "n = k" by (simp add: n_def)
      have "decode_finish h st c = Inr (st\<lparr>lastChar := ?L, bufferedBytes := 0, missingBytes := 0\<rparr>, int n,
         segment_text h (sd_enc st) (pending st @ take n c))"
        using copy [of n] seg [of n] n nk room(2)
        unfolding decode_finish_def br by (simp add: st pending_def Let_def)
      moreover have "splits enc (pending st @ take n c) (drop n c @ x)" for x
        using unfinished_char_closed [of enc "pending st" "take k c"] room(3) conts True
        by (simp add: splits_def nk pending_def st)
      ultimately show ?thesis using whole [of ?L n] L n(2) st conts nk by simp
    next
      case False
      then have nl: "n = length c" by (simp add: n_def)
      have "decode_finish h st c = Inr (st\<lparr>lastChar := ?L, bufferedBytes := bufferedBytes st + int (length c),
         missingBytes := missingBytes st - int (length c)\<rparr>, int (length c), [])"
        using copy [of n] n nl room(2) False
        unfolding decode_finish_def br by (simp add: st Let_def)
      then show ?thesis using part [of ?L] L st conts False nl room take_overwrite [of b c ?l]
        by (simp add: pending_def)
    qed
  qed
qed

text \<open>The bytes kept at the end of a chunk: an unfinished character, after a place where decoding can
  restart.\<close>

definition kept :: "Encoding \<Rightarrow> bytes \<Rightarrow> nat \<Rightarrow> nat \<Rightarrow> nat \<Rightarrow> bool" where
  "kept enc c i b m \<longleftrightarrow>
     i + b \<le> length c \<and> (if b = 0 then m = 0 \<and> char_closed enc (drop i c)
       else 0 < m \<and> b + m \<le> enc_room enc \<and> unfinished enc (drop (length c - b) c) m
         \<and> splits enc (drop i (take (length c - b) c)) (drop (length c - b) c))"

lemma tail_kept_kept:
  assumes "tail_kept c b m" "i < length c" "list_all cont_byte (take i c)"
  shows "0 \<le> b \<and> 0 \<le> m \<and> kept EUtf8 c i (nat b) (nat m)"
proof (cases "b = 0")
  case True
  then have "m = 0" "utf8_complete (take i c @ drop i c)" using assms(1) by (auto simp: tail_kept_def)
  then show ?thesis using True assms utf8_complete_suffix [of "take i c" "drop i c"] by (simp add: kept_def)
next
  case False
  then obtain xs x ys where c: "c = xs @ x # ys" "list_all cont_byte ys" "b = int (length ys) + 1" "0 < m"
    "utf8_need x = Some (b + m)" using assms(1) by (auto simp: tail_kept_def)
  note x = utf8_need_masks [OF c(5)]
  have "i \<le> length xs"
  proof (rule ccontr)
    assume "\<not> i \<le> length xs"
    then have "x \<in> set (take i c)" using assms(2) unfolding c(1) by (simp add: take_Cons')
    then show False using assms(3) x(1) by (auto simp: list_all_iff)
  qed
  moreover have "length c - nat b = length xs" using c by (simp add: nat_add_distrib)
  moreover have "drop (length xs) c = x # ys" unfolding c(1) by simp
  ultimately show ?thesis using c(2-5) x unfolding kept_def
    by (auto simp: splits_def c(1) nat_add_distrib)
qed

definition tail_result :: "string_decoder \<Rightarrow> bytes \<Rightarrow> nat \<Rightarrow> bool" where
  "tail_result st c i \<longleftrightarrow> (\<exists>b m. decode_tail st c (int i) = st\<lparr>bufferedBytes := int b, missingBytes := int m\<rparr>
     \<and> kept (sd_enc st) c i b m)"

lemma tail_resultI:
  "decode_tail st c (int i) = st\<lparr>bufferedBytes := int b, missingBytes := int m\<rparr> \<Longrightarrow> kept (sd_enc st) c i b m
    \<Longrightarrow> tail_result st c i"
  unfolding tail_result_def by blast

lemma tail_result_none:
  "decode_tail st c (int i) = st \<Longrightarrow> bufferedBytes st = 0 \<Longrightarrow> missingBytes st = 0 \<Longrightarrow> kept (sd_enc st) c i 0 0
    \<Longrightarrow> tail_result st c i"
  by (rule tail_resultI [where b = 0 and m = 0]) simp_all

lemma decode_tail_utf8:
  assumes "sd_enc st = EUtf8" "bufferedBytes st = 0" "missingBytes st = 0" "i < length c"
    and "list_all cont_byte (take i c)"
  shows "tail_result st c i"
proof -
  have ne: "c \<noteq> []" using assms(4) by auto
  have c: "c = butlast c @ last c # []" using ne by simp
  have l: "c ! (length c - Suc 0) = last c" using ne by (simp add: last_conv_nth)
  show ?thesis
  proof (cases "last c AND 0x80 = 0")
    case True
    then have "\<not> cont_byte (last c)" "utf8_need (last c) = None"
      using cont_byte_high utf8_need_masks(2) by (blast, metis not_None_eq)
    then have "tail_kept c 0 0"
      using utf8_complete_lead [of "[]" "last c" "butlast c"] c by (simp add: tail_kept_def)
    from tail_kept_kept [OF this assms(4,5)] show ?thesis
      using True assms l by (intro tail_result_none) (simp_all add: decode_tail_def)
  next
    case False
    obtain b m where t: "utf8_tail c (length c - 1) 0 0 = (b, m)" by fastforce
    have "tail_kept c b m" by (rule utf8_tail_kept [OF c]) (use t in simp_all)
    from tail_kept_kept [OF this assms(4,5)] show ?thesis
      using False t assms l by (intro tail_resultI [where b = "nat b" and m = "nat m"])
        (simp_all add: decode_tail_def)
  qed
qed

lemma decode_tail_utf16:
  assumes "sd_enc st = EUtf16" "bufferedBytes st = 0" "missingBytes st = 0" "i < length c"
  shows "tail_result st c i"
proof -
  define n where "n = length c - i"
  have n: "int (length c) - int i = int n" "0 < n" using assms(4) by (auto simp: n_def)
  have e: "(int n mod 2 = 1) = odd n" by presburger
  consider (odd) "odd n" | (high) "even n" "c ! (length c - 1) AND 0xFC = 0xD8"
    | (low) "even n" "c ! (length c - 1) AND 0xFC \<noteq> 0xD8" by blast
  then show ?thesis
  proof cases
    case odd
    then have "kept EUtf16 c i 1 1" using n by (auto simp: kept_def splits_def n_def)
    then show ?thesis using odd assms(1) n e
      by (intro tail_resultI [where b = 1 and m = 1]) (simp_all add: decode_tail_def)
  next
    case high
    then have "2 \<le> n" using n(2) by presburger
    then have "kept EUtf16 c i 2 2" using high n by (auto simp: kept_def splits_def n_def)
    then show ?thesis using high assms(1) n e
      by (intro tail_resultI [where b = 2 and m = 2]) (simp_all add: decode_tail_def)
  next
    case low
    then have "kept EUtf16 c i 0 0" using n by (auto simp: kept_def n_def)
    then show ?thesis using low assms n e by (intro tail_result_none) (simp_all add: decode_tail_def)
  qed
qed

lemma decode_tail_base64:
  assumes "sd_enc st = EBase64" "bufferedBytes st = 0" "missingBytes st = 0" "i < length c"
  shows "tail_result st c i"
proof -
  define n where "n = length c - i"
  define b where "b = n mod 3"
  have n: "int (length c) - int i = int n" "0 < n" using assms(4) by (auto simp: n_def)
  have e: "int n mod 3 = int b" by (simp add: zmod_int b_def)
  have le: "b \<le> n" "b < 3" "(n - b) mod 3 = 0" by (auto simp: b_def minus_mod_eq_mult_div)
  show ?thesis
  proof (cases "b = 0")
    case True
    then have "kept EBase64 c i 0 0" using n le by (simp add: kept_def n_def)
    then show ?thesis using assms n e True by (intro tail_result_none) (simp_all add: decode_tail_def Let_def)
  next
    case False
    then have "kept EBase64 c i b (3 - b)" using le n
      by (auto simp: kept_def splits_def n_def dvd_eq_mod_eq_0 add.commute [of b])
    then show ?thesis using assms(1) n e False le
      by (intro tail_resultI [where b = b and m = "3 - b"]) (simp_all add: decode_tail_def Let_def of_nat_diff)
  qed
qed

subsection \<open>A chunk\<close>

text \<open>One write: the bytes kept and the new ones are two decoded segments and the bytes kept now.\<close>

definition chunk_step :: "host \<Rightarrow> string_decoder \<Rightarrow> bytes \<Rightarrow> string_decoder \<Rightarrow> bytes \<Rightarrow> bytes \<Rightarrow> bool" where
  "chunk_step h st c st' p r \<longleftrightarrow>
     decode h st c = Inr (st', segment_text h (sd_enc st) p @ segment_text h (sd_enc st) r)
     \<and> decoder_ok st' \<and> sd_enc st' = sd_enc st \<and> pending st @ c = p @ r @ pending st'
     \<and> (\<forall>x. splits (sd_enc st) p (r @ pending st' @ x)) \<and> (\<forall>x. splits (sd_enc st) r (pending st' @ x))"

lemma char_closed_Nil: "char_closed enc []"
  by (cases enc) (simp_all add: utf8_complete_def)

lemma splits_Nil: "splits enc [] b"
  by (simp add: splits_def char_closed_Nil)

lemma splits_append: "splits enc a b \<Longrightarrow> splits enc a (b @ x)"
  by (cases b) (auto simp: splits_def)

lemma segment_text_Nil [simp]: "segment_text h enc [] = []"
  by (simp add: segment_text_def)

text \<open>The rest of a chunk after the first \<open>i\<close> bytes, with nothing kept.\<close>

lemma decode_rest:
  assumes h: "lower_law h" and z: "bufferedBytes st = 0" "missingBytes st = 0"
    and ok: "sd_encoding st = enc_name (sd_enc st)" "length (lastChar st) = enc_room (sd_enc st)"
    and c: "length c \<le> nat kStringMaxLength" "i < length c" and tail: "tail_result st c i"
  obtains st' r where
    "(let st = decode_tail st c (int i) in
      bindE (if bufferedBytes st > 0 then
               bindE (buffer_copy c (U8 (lastChar st)) (arg_int 0)
                   (arg_int (int (length c) - bufferedBytes st)) AUndef) (\<lambda>(b, _).
                 Inr (st\<lparr>lastChar := b\<rparr>, int (length c) - bufferedBytes st))
             else Inr (st, int (length c))) (\<lambda>(st, bufEnd).
      bindE (bufferToString h c (sd_encoding st) (int i) bufEnd) (\<lambda>rest. Inr (st, prepend @ rest))))
     = Inr (st', prepend @ segment_text h (sd_enc st) r)"
    "decoder_ok st'" "sd_enc st' = sd_enc st" "drop i c = r @ pending st'"
    "\<And>x. splits (sd_enc st) r (pending st' @ x)"
proof -
  obtain b m where t: "decode_tail st c (int i) = st\<lparr>bufferedBytes := int b, missingBytes := int m\<rparr>"
    and k: "kept (sd_enc st) c i b m" using tail unfolding tail_result_def by blast
  define e where "e = length c - b"
  have e: "int (length c) - int b = int e" "i \<le> e" "e \<le> length c" "length c - e = b"
    using k by (auto simp: kept_def e_def)
  have seg: "bufferToString h c (enc_name (sd_enc st)) (int i) (int e)
      = Inr (segment_text h (sd_enc st) (drop i (take e c)))"
    using bufferToString_nat [OF h e(2,3) c(1)] by (simp add: drop_take)
  show ?thesis
  proof (cases "b = 0")
    case True
    then have m: "m = 0" "char_closed (sd_enc st) (drop i c)" "e = length c" using k e by (auto simp: kept_def)
    show ?thesis
      by (rule that [of st "drop i c"])
        (use True m t z ok seg in \<open>auto simp: decoder_ok_def pending_def splits_def\<close>)
  next
    case False
    then have room: "b + m \<le> enc_room (sd_enc st)" "0 < m" "unfinished (sd_enc st) (drop e c) m"
      "splits (sd_enc st) (drop i (take e c)) (drop e c)" using k by (auto simp: kept_def e_def)
    let ?L = "overwrite (lastChar st) 0 (drop e c)"
    let ?st = "st\<lparr>bufferedBytes := int b, missingBytes := int m, lastChar := ?L\<rparr>"
    have fits: "0 + length (drop e c) \<le> length (lastChar st)" using room(1) ok(2) e(4) by simp
    have copy: "buffer_copy c (U8 (lastChar st)) (arg_nat 0) (arg_nat e) AUndef = Inr (?L, int b)"
      using copy_rest [of e c 0 "lastChar st"] e fits ok(2) enc_room_small [of "sd_enc st"] kString_small(1) [OF c(1)]
        kString_small(2) [of "length (lastChar st)"] by simp
    have p: "pending ?st = drop e c" using take_overwrite [OF fits] e(4) by (simp add: pending_def)
    have L: "length ?L = enc_room (sd_enc st)" using length_overwrite_fits [OF fits] ok(2) by simp
    show ?thesis
    proof (rule that [of ?st "drop i (take e c)"])
      show "drop i c = drop i (take e c) @ pending ?st"
        unfolding p using e(2,3) by (metis append_take_drop_id drop_append diff_is_0_eq drop0 length_take min.absorb2)
      show "decoder_ok ?st" using room(1,2,3) False ok L p by (simp add: decoder_ok_def)
      show "splits (sd_enc st) (drop i (take e c)) (pending ?st @ x)" for x
        unfolding p by (rule splits_append [OF room(4)])
    qed (use False t e(1) copy seg ok(1) in \<open>simp_all add: Let_def\<close>)
  qed
qed

lemma chunk_step_finished:
  assumes h: "lower_law h" and ok: "decoder_ok st" and c: "length c \<le> nat kStringMaxLength"
    and multi: "sd_enc st = EUtf8 \<or> sd_enc st = EUtf16 \<or> sd_enc st = EBase64"
    and fin: "decode_finish h st c = Inr (st\<lparr>lastChar := L, bufferedBytes := 0, missingBytes := 0\<rparr>, int i,
        segment_text h (sd_enc st) p)" "length L = length (lastChar st)" "i \<le> length c"
      "sd_enc st = EUtf8 \<Longrightarrow> list_all cont_byte (take i c)" "pending st @ take i c = p"
      "\<And>x. splits (sd_enc st) p (drop i c @ x)"
  obtains st' p r where "chunk_step h st c st' p r"
proof (cases "i = length c")
  let ?st = "st\<lparr>lastChar := L, bufferedBytes := 0, missingBytes := 0\<rparr>"
  have name: "sd_encoding st = enc_name (sd_enc st)" "length (lastChar st) = enc_room (sd_enc st)"
    using ok by (simp_all add: decoder_ok_def)
  have eq: "pending st @ c = p @ drop i c" using fin(5) by (metis append.assoc append_take_drop_id)
  {
    case True
    have "chunk_step h st c ?st p []"
      using multi fin(1,2,6) eq True name
      by (auto simp: chunk_step_def decode_def decoder_ok_def pending_def splits_Nil)
    then show ?thesis by (rule that)
  next
    case False
    then have i: "i < length c" using fin(3) by simp
    have "tail_result ?st c i" using multi fin(4) i decode_tail_utf8 [of ?st] decode_tail_utf16 [of ?st]
      decode_tail_base64 [of ?st] by auto
    from decode_rest [of h ?st c i "segment_text h (sd_enc st) p", OF h _ _ _ _ c i this] obtain st' r where
      r: "decode h st c = Inr (st', segment_text h (sd_enc st) p @ segment_text h (sd_enc st) r)"
        "decoder_ok st'" "sd_enc st' = sd_enc st" "drop i c = r @ pending st'"
        "\<And>x. splits (sd_enc st) r (pending st' @ x)"
      using multi fin(1,2) i name by (auto simp: decode_def)
    have "chunk_step h st c st' p r" using r eq fin(6) unfolding chunk_step_def by simp
    then show ?thesis by (rule that)
  }
qed

lemma chunk_step_ex:
  assumes h: "lower_law h" and ok: "decoder_ok st" and c: "length c \<le> nat kStringMaxLength"
  obtains st' p r where "chunk_step h st c st' p r"
proof (cases "sd_enc st = EUtf8 \<or> sd_enc st = EUtf16 \<or> sd_enc st = EBase64")
  case False
  then have z: "missingBytes st = 0" "bufferedBytes st = 0" "char_closed (sd_enc st) c"
    using ok by (cases "sd_enc st"; auto simp: decoder_ok_def split: if_splits)+
  have "chunk_step h st c st [] c"
    using False z ok bufferToString_nat [OF h, of 0 "length c" c "sd_enc st"] c
    by (auto simp: chunk_step_def decode_def decoder_ok_def pending_def char_closed_Nil splits_def)
  then show ?thesis by (rule that)
next
  case multi: True
  note rest = chunk_step_finished [OF h ok c multi]
  show ?thesis
  proof (cases "missingBytes st = 0")
    case True
    then have "bufferedBytes st = 0" using ok by (simp add: decoder_ok_def)
    then show ?thesis using True rest [of "lastChar st" 0 "[]"] that
      by (simp add: decode_finish_def pending_def splits_Nil) blast
  next
    case False
    then have m: "0 < missingBytes st" using ok by (simp add: decoder_ok_def)
    show ?thesis
      using h ok m c
    proof (cases rule: decode_finish_cases)
      case (whole L i)
      then show ?thesis using rest [of L i "pending st @ take i c"] that by blast
    next
      case (part L)
      let ?st = "st\<lparr>lastChar := L, bufferedBytes := bufferedBytes st + int (length c),
        missingBytes := missingBytes st - int (length c)\<rparr>"
      have p: "pending ?st = pending st @ c" using part(4) ok by (simp add: pending_def decoder_ok_def nat_add_distrib)
      have "decoder_ok ?st" using ok part(2,3) False unfinished_more [of "sd_enc st" "pending st" c "nat (missingBytes st - int (length c))"]
          part(5) p
        by (auto simp: decoder_ok_def nat_diff_distrib)
      then have "chunk_step h st c ?st [] []"
        using part(1) multi p by (auto simp: chunk_step_def decode_def splits_Nil)
      then show ?thesis by (rule that)
    qed
  qed
qed

subsection \<open>All chunks\<close>

text \<open>A client of a decoder: it writes the chunks in order, ends, and joins what it got.\<close>

fun decoder_run :: "host \<Rightarrow> string_decoder \<Rightarrow> bytes list \<Rightarrow> js_string result" where
  "decoder_run h st [] = bindE (decoder_end h st None) (\<lambda>(_, s). Inr s)"
| "decoder_run h st (c # cs) =
     bindE (decoder_write h st (DBuf c)) (\<lambda>(st, s). bindE (decoder_run h st cs) (\<lambda>t. Inr (s @ t)))"

text \<open>
  What is relied on of the host's converters: \<^verbatim>\<open>TextDecoder\<close> gives the text of two pieces when
  they are cut between characters, unless the second begins with a byte order mark, which it drops;
  \<^verbatim>\<open>forgivingBase64Encode\<close> turns every three bytes into four characters.
\<close>

definition utf8_BOM :: bytes where "utf8_BOM = [0xEF, 0xBB, 0xBF]"

definition converter_law :: "host \<Rightarrow> bool" where
  "converter_law h \<longleftrightarrow>
     (\<forall>a b. splits EUtf8 a b \<and> \<not> prefix utf8_BOM b \<longrightarrow> utf8Decode h (a @ b) = utf8Decode h a @ utf8Decode h b)
     \<and> (\<forall>a b. length a mod 3 = 0 \<longrightarrow>
          forgivingBase64Encode h (a @ b) = forgivingBase64Encode h a @ forgivingBase64Encode h b)"

lemma bytesToUtf16le_append: "even (length a) \<Longrightarrow> bytesToUtf16le (a @ b) = bytesToUtf16le a @ bytesToUtf16le b"
  by (induction a rule: bytesToUtf16le.induct) simp_all

lemma bytesToUtf16le_odd: "odd (length a) \<Longrightarrow> bytesToUtf16le (take (length a - 1) a) = bytesToUtf16le a"
proof (induction a rule: bytesToUtf16le.induct)
  case (1 x y bs)
  then have "bs \<noteq> []" by auto
  then show ?case using 1 by (simp add: take_Cons')
qed simp_all

lemma segment_text_nonempty:
  "bs \<noteq> [] \<Longrightarrow> segment_text h EUtf8 bs = utf8Decode h bs"
  "bs \<noteq> [] \<Longrightarrow> segment_text h EBase64 bs = forgivingBase64Encode h bs"
  "segment_text h EUtf16 bs = bytesToUtf16le bs"
  "segment_text h EAscii bs = bytesToAscii bs"
  "segment_text h ELatin1 bs = map unat bs"
  "segment_text h EHex bs = concat (map (\<lambda>b. hexSliceLookupTable ! unat b) bs)"
  by (simp_all add: segment_text_def utf8Slice_def subarray_all base64Slice_def ucs2Slice_def asciiSlice_def
    latin1Slice_all hexSlice_all bytesToAscii_def)

lemma segment_text_append:
  assumes "converter_law h" "splits enc a b" "enc = EUtf8 \<Longrightarrow> a \<noteq> [] \<Longrightarrow> \<not> prefix utf8_BOM b"
  shows "segment_text h enc (a @ b) = segment_text h enc a @ segment_text h enc b"
proof (cases "a = [] \<or> b = []")
  case False
  then show ?thesis
    using assms by (cases enc)
      (auto simp: segment_text_nonempty converter_law_def splits_def bytesToUtf16le_append bytesToAscii_def)
qed auto

lemma prefix_sublist: "prefix z b \<Longrightarrow> a \<noteq> [] \<Longrightarrow> sublist z (tl (a @ b))"
  by (cases a) (auto simp: prefix_def sublist_def)

lemma decoder_end_flush:
  assumes h: "lower_law h" and ok: "decoder_ok st"
  shows "decoder_end h st None
    = Inr (st\<lparr>bufferedBytes := 0, missingBytes := 0\<rparr>, segment_text h (sd_enc st) (pending st))"
proof (cases "missingBytes st = 0")
  case True
  then show ?thesis using ok by (simp add: decoder_ok_def decoder_end_def pending_def)
next
  case False
  define b where "b = nat (bufferedBytes st)"
  have st: "bufferedBytes st = int b" "0 < b" "b \<le> length (lastChar st)" "sd_encoding st = enc_name (sd_enc st)"
    "length (pending st) = b" "length (lastChar st) \<le> nat kStringMaxLength"
    using ok False kString_small(3) [OF enc_room_small, of "sd_enc st"]
    by (auto simp: decoder_ok_def b_def pending_def)
  have seg: "bufferToString h (lastChar st) (enc_name (sd_enc st)) 0 (int k)
      = Inr (segment_text h (sd_enc st) (take k (pending st)))" if "k \<le> b" for k
    using bufferToString_nat [OF h, of 0 k "lastChar st" "sd_enc st"] that st by (simp add: pending_def min_def)
  have e: "(int b mod 2 = 1) = odd b" by presburger
  show ?thesis
  proof (cases "sd_enc st = EUtf16 \<and> odd b")
    case True
    obtain k where k: "b = Suc k" using st(2) gr0_implies_Suc by blast
    have "unfinished EUtf16 (pending st) (nat (missingBytes st))" "0 < missingBytes st"
      using ok False True by (auto simp: decoder_ok_def)
    then have m: "odd (nat (missingBytes st))" "nat (missingBytes st) \<le> 2" using True st(5) by auto
    have "k = 1" if "odd k" "k \<le> 2" for k :: nat using that by presburger
    from this [OF m] have "missingBytes st = 1" by linarith
    moreover have "segment_text h EUtf16 (take (b - 1) (pending st)) = segment_text h EUtf16 (pending st)"
      using bytesToUtf16le_odd [of "pending st"] True st(5) by (simp add: segment_text_nonempty)
    ultimately show ?thesis using True st(1,4) seg [of k] e k
      by (cases "k = 0") (simp_all add: decoder_end_def flush_def)
  next
    case False
    then show ?thesis using st seg [of b] e by (auto simp: decoder_end_def flush_def Let_def)
  qed
qed

lemma decoder_run_text:
  assumes h: "lower_law h" "converter_law h" and ok: "decoder_ok st"
    and cs: "list_all (\<lambda>c. length c \<le> nat kStringMaxLength) cs"
    and bom: "sd_enc st = EUtf8 \<Longrightarrow> \<not> sublist utf8_BOM (tl (pending st @ concat cs))"
  shows "decoder_run h st cs = Inr (segment_text h (sd_enc st) (pending st @ concat cs))"
  using ok cs bom
proof (induction cs arbitrary: st)
  case Nil
  then show ?case by (simp add: decoder_end_flush [OF h(1)])
next
  case (Cons c cs)
  from Cons.prems(2) have c: "length c \<le> nat kStringMaxLength" by simp
  obtain st' p r where step: "chunk_step h st c st' p r" by (rule chunk_step_ex [OF h(1) Cons.prems(1) c])
  let ?q = "pending st' @ concat cs"
  have eq: "pending st @ concat (c # cs) = p @ r @ ?q"
    using step by (simp add: chunk_step_def flip: append_assoc)
  have no: "\<not> prefix utf8_BOM y" if "sd_enc st = EUtf8" "p @ r @ ?q = x @ y" "x \<noteq> []" for x y
    using Cons.prems(3) [OF that(1)] prefix_sublist [OF _ that(3)] unfolding eq that(2) by blast
  have bom: "\<not> sublist utf8_BOM (tl ?q)" if "sd_enc st = EUtf8"
  proof
    assume a: "sublist utf8_BOM (tl ?q)"
    have "suffix (tl ?q) (tl ((p @ r) @ ?q))"
      by (cases "p @ r") (auto intro: suffix_order.trans [OF suffix_tl] suffixI)
    then show False using Cons.prems(3) [OF that] a unfolding eq append_assoc by (meson sublist_order.order.trans suffix_imp_sublist)
  qed
  have "decoder_run h st' cs = Inr (segment_text h (sd_enc st) ?q)"
    using Cons.IH [of st'] Cons.prems(2) step bom by (simp add: chunk_step_def)
  moreover have "segment_text h (sd_enc st) (r @ ?q) = segment_text h (sd_enc st) r @ segment_text h (sd_enc st) ?q"
    using step no [of "p @ r" ?q] by (intro segment_text_append [OF h(2)]) (auto simp: chunk_step_def)
  moreover have "segment_text h (sd_enc st) (p @ r @ ?q) = segment_text h (sd_enc st) p @ segment_text h (sd_enc st) (r @ ?q)"
    using step no [of p "r @ ?q"] by (intro segment_text_append [OF h(2)]) (auto simp: chunk_step_def)
  ultimately show ?case
    using step unfolding eq by (simp add: chunk_step_def decoder_write_def normalizeBuffer_def)
qed

lemma castEncoding_name: "castEncoding h e = Some n \<Longrightarrow> \<exists>enc. n = enc_name enc"
proof -
  assume "castEncoding h e = Some n"
  then have "n \<in> {js ''utf8'', js ''base64'', js ''utf16le'', js ''ascii'', js ''latin1'', js ''hex''}"
    by (auto simp: castEncoding_def cast_slowCases_def Let_def split: option.splits if_splits)
  then show ?thesis by (metis enc_name.simps insert_iff singletonD)
qed

lemma new_decoder_ok:
  assumes "castEncoding h e = Some n"
  obtains enc where "n = enc_name enc" "new_decoder h e = Inr \<lparr>sd_encoding = n, sd_enc = enc,
    lastChar = replicate (enc_room enc) 0, bufferedBytes = 0, missingBytes = 0\<rparr>"
proof -
  obtain enc where n: "n = enc_name enc" using castEncoding_name [OF assms] by blast
  have room: "allocUnsafe (arg_nat (enc_room enc)) = Inr (replicate (enc_room enc) 0)"
    using enc_room_small [of enc] by (intro allocUnsafe_nat) (simp add: kMaxLength_def)
  have "(if n = js ''utf8'' then (EUtf8, 4) else if n = js ''base64'' then (EBase64, 3)
      else if n = js ''utf16le'' then (EUtf16, 4) else if n = js ''hex'' then (EHex, 0)
      else if n = js ''latin1'' then (ELatin1, 0) else if n = js ''ascii'' then (EAscii, 0)
      else (EUtf8, 0)) = (enc, enc_room enc)"
    unfolding n by (cases enc) (simp_all add: js_eq_iff)
  then have "new_decoder h e = Inr \<lparr>sd_encoding = n, sd_enc = enc,
    lastChar = replicate (enc_room enc) 0, bufferedBytes = 0, missingBytes = 0\<rparr>"
    unfolding new_decoder_def decoder_normalizeEncoding_def assms option.case bindE.simps Let_def
    by (simp only: prod.case room bindE.simps)
  then show ?thesis using that n by blast
qed

text \<open>C14. A decoder made for a known encoding has a well-formed state. Every write of a chunk that
  fits a string gives text and keeps the state well-formed for the same encoding, with at most as many
  bytes kept and needed as a character of the encoding has; and \<^verbatim>\<open>end\<close> leaves a decoder with
  nothing kept.\<close>

theorem decoder_state:
  assumes "lower_law h" "length c \<le> nat kStringMaxLength"
  shows "(castEncoding h e \<noteq> None \<longrightarrow> (\<exists>st. new_decoder h e = Inr st \<and> decoder_ok st))
    \<and> (decoder_ok st \<longrightarrow> (\<exists>st' s. decoder_write h st (DBuf c) = Inr (st', s) \<and> decoder_ok st'
        \<and> sd_enc st' = sd_enc st \<and> lastTotal st' \<le> int (enc_room (sd_enc st))))
    \<and> (decoder_ok st \<longrightarrow> (\<exists>st' s. decoder_end h st (Some (DBuf c)) = Inr (st', s) \<and> decoder_ok st'
        \<and> sd_enc st' = sd_enc st \<and> lastTotal st' = 0))"
proof (intro conjI impI)
  assume "castEncoding h e \<noteq> None"
  then obtain n where "castEncoding h e = Some n" by blast
  then show "\<exists>st. new_decoder h e = Inr st \<and> decoder_ok st"
    by (rule new_decoder_ok) (simp add: decoder_ok_def)
next
  assume ok: "decoder_ok st"
  obtain st' p r where "chunk_step h st c st' p r" by (rule chunk_step_ex [OF assms(1) ok assms(2)])
  then have w: "decoder_write h st (DBuf c) = Inr (st', segment_text h (sd_enc st) p @ segment_text h (sd_enc st) r)"
    "decoder_ok st'" "sd_enc st' = sd_enc st"
    by (simp_all add: chunk_step_def decoder_write_def normalizeBuffer_def)
  then have "lastTotal st' \<le> int (enc_room (sd_enc st))" by (auto simp: decoder_ok_def lastTotal_def split: if_splits)
  then show "\<exists>st' s. decoder_write h st (DBuf c) = Inr (st', s) \<and> decoder_ok st'
      \<and> sd_enc st' = sd_enc st \<and> lastTotal st' \<le> int (enc_room (sd_enc st))" using w by blast
  have "decoder_end h st (Some (DBuf c)) = bindE (decoder_end h st' None) (\<lambda>(st, s).
      Inr (st, (segment_text h (sd_enc st') p @ segment_text h (sd_enc st') r) @ s))"
    unfolding decoder_end_def option.case w(1) bindE.simps prod.case w(3)
    by (cases "flush h st'") (auto simp: flush_def)
  then show "\<exists>st' s. decoder_end h st (Some (DBuf c)) = Inr (st', s) \<and> decoder_ok st'
      \<and> sd_enc st' = sd_enc st \<and> lastTotal st' = 0"
    using w(2,3) decoder_end_flush [OF assms(1) w(2)] by (auto simp: decoder_ok_def lastTotal_def)
qed

text \<open>C1. Chunk boundaries do not matter: the text a decoder returns for the chunks, followed by the
  text of \<^verbatim>\<open>end\<close>, is what \<^verbatim>\<open>toString\<close> gives for all the bytes at once, for every encoding a
  decoder knows, for chunks of at most \<^verbatim>\<open>kStringMaxLength\<close> bytes; in UTF-8, when no byte order mark
  comes after the first byte.\<close>

theorem decoder_chunks:
  assumes "lower_law h" "converter_law h" "castEncoding h e \<noteq> None" "new_decoder h e = Inr st"
    and "list_all (\<lambda>c. length c \<le> nat kStringMaxLength) cs"
    and "sd_enc st = EUtf8 \<Longrightarrow> \<not> sublist utf8_BOM (tl (concat cs))"
  shows "decoder_run h st cs = buffer_toString h (concat cs) (Some (sd_encoding st)) AUndef AUndef"
proof -
  obtain n where "castEncoding h e = Some n" using assms(3) by blast
  then have st: "decoder_ok st" "pending st = []" "sd_encoding st = enc_name (sd_enc st)"
    using assms(4) by (auto elim!: new_decoder_ok simp: decoder_ok_def pending_def)
  show ?thesis
    using decoder_run_text [OF assms(1,2) st(1) assms(5)] assms(6) st
    by (simp add: segment_text_toString [OF assms(1)])
qed

lemma ascii_host_converters: "converter_law ascii_host"
  by (simp add: converter_law_def ascii_host_def bytesToAscii_def)

theorem decoder_chunks_witness:
  "\<exists>st. new_decoder ascii_host (Some (js ''UTF-8'')) = Inr st
    \<and> decoder_run ascii_host st [[0x41, 0xE2], [0x82], [0xAC, 0xC3]] = Inr [65, 98, 2, 44, 67]"
proof -
  have c: "castEncoding ascii_host (Some (js ''UTF-8'')) = Some (js ''utf8'')" by code_simp
  then obtain st where st: "new_decoder ascii_host (Some (js ''UTF-8'')) = Inr st" "sd_encoding st = js ''utf8''"
    by (rule new_decoder_ok) simp
  have t: "buffer_toString ascii_host [0x41, 0xE2, 0x82, 0xAC, 0xC3] (Some (js ''utf8'')) AUndef AUndef
    = Inr [65, 98, 2, 44, 67]" by code_simp
  have b: "\<not> sublist utf8_BOM (tl [0x41, 0xE2, 0x82, 0xAC, 0xC3])" by code_simp
  show ?thesis
    using decoder_chunks [OF ascii_host_lower ascii_host_converters _ st(1), of "[[0x41, 0xE2], [0x82], [0xAC, 0xC3]]"]
      c t b st by (simp add: kStringMaxLength_def)
qed

theorem decoder_state_witness:
  "\<exists>st st' s. new_decoder ascii_host (Some (js ''ucs2'')) = Inr st
    \<and> decoder_write ascii_host st (DBuf [0x41, 0, 0x3D]) = Inr (st', s) \<and> decoder_ok st' \<and> lastTotal st' \<le> 4"
proof -
  have l: "length [0x41, 0, 0x3D :: 8 word] \<le> nat kStringMaxLength" by (simp add: kStringMaxLength_def)
  note state = decoder_state [OF ascii_host_lower l]
  have "castEncoding ascii_host (Some (js ''ucs2'')) \<noteq> None" by code_simp
  then obtain st where st: "new_decoder ascii_host (Some (js ''ucs2'')) = Inr st" "decoder_ok st" using state by blast
  then obtain st' s where "decoder_write ascii_host st (DBuf [0x41, 0, 0x3D]) = Inr (st', s)" "decoder_ok st'"
    "lastTotal st' \<le> int (enc_room (sd_enc st))" using state by blast
  then show ?thesis using st enc_room_small [of "sd_enc st"] by fastforce
qed

end
