(* ===== verification/Querystring.thy ===== *)
theory Querystring
  imports Buffer_Text "HOL-Library.AList"
begin

unbundle bit_operations_syntax

text \<open>
  \<^verbatim>\<open>querystring.js\<close> and \<^verbatim>\<open>internal/querystring.ts\<close>: percent-encoding, \<^verbatim>\<open>stringify\<close>,
  \<^verbatim>\<open>parse\<close> and the two decoders. An object is the list of its properties in the order of
  insertion. \<^verbatim>\<open>escape\<close> and \<^verbatim>\<open>unescape\<close> are called with strings, as
  \<^verbatim>\<open>stringify\<close> and \<^verbatim>\<open>parse\<close> do; the text of a number is an argument.
\<close>

subsection \<open>Percent-encoding\<close>

fun toString16 :: "nat \<Rightarrow> js_string" where
  "toString16 n =
     (if n < 16 then [js ''0123456789abcdef'' ! n]
      else toString16 (n div 16) @ [js ''0123456789abcdef'' ! (n mod 16)])"

declare toString16.simps [simp del]

definition ascii_upper :: "js_string \<Rightarrow> js_string" where
  "ascii_upper s = map (\<lambda>c. if 97 \<le> c \<and> c \<le> 122 then c - 32 else c) s"

definition hexTable :: "js_string list" where
  "hexTable = map (\<lambda>i. js ''%'' @ ascii_upper ((if i < 16 then js ''0'' else []) @ toString16 i)) [0..<256]"

definition isHexTable :: "int list" where
  "isHexTable = map (\<lambda>i. if 48 \<le> i \<and> i \<le> 57 \<or> 65 \<le> i \<and> i \<le> 70 \<or> 97 \<le> i \<and> i \<le> 102 then 1 else 0) [0..<256]"

definition noEscape :: "int list" where
  "noEscape = map (\<lambda>i. if i = 33 \<or> 39 \<le> i \<and> i \<le> 42 \<or> i = 45 \<or> i = 46 \<or> 48 \<le> i \<and> i \<le> 57
     \<or> 65 \<le> i \<and> i \<le> 90 \<or> i = 95 \<or> 97 \<le> i \<and> i \<le> 122 \<or> i = 126 then 1 else 0) [0..<128]"

text \<open>The loop of \<^verbatim>\<open>encodeStr\<close> with its variables \<^verbatim>\<open>i\<close>, \<^verbatim>\<open>lastPos\<close> and \<^verbatim>\<open>out\<close>.\<close>

function encode_loop ::
  "js_string \<Rightarrow> int list \<Rightarrow> js_string list \<Rightarrow> nat \<Rightarrow> nat \<Rightarrow> js_string \<Rightarrow> (nat \<times> js_string) result" where
  "encode_loop str plain hexes i lastPos out =
     (if i < length str then
        let c = str ! i in
        if c < 0x80 then
          if plain ! c = 1 then encode_loop str plain hexes (i + 1) lastPos out
          else
            let out = (if lastPos < i then out @ js_slice str (int lastPos) (int i) else out)
            in encode_loop str plain hexes (i + 1) (i + 1) (out @ hexes ! c)
        else
          let out = (if lastPos < i then out @ js_slice str (int lastPos) (int i) else out) in
          if c < 0x800 then
            encode_loop str plain hexes (i + 1) (i + 1)
              (out @ hexes ! (0xC0 OR drop_bit 6 c) @ hexes ! (0x80 OR (c AND 0x3F)))
          else if c < 0xD800 \<or> c \<ge> 0xE000 then
            encode_loop str plain hexes (i + 1) (i + 1)
              (out @ hexes ! (0xE0 OR drop_bit 12 c) @ hexes ! (0x80 OR (drop_bit 6 c AND 0x3F))
                @ hexes ! (0x80 OR (c AND 0x3F)))
          else if i + 1 \<ge> length str then Inl ERR_INVALID_URI
          else
            let c2 = str ! (i + 1) AND 0x3FF;
                c = 0x10000 + (push_bit 10 (c AND 0x3FF) OR c2)
            in encode_loop str plain hexes (i + 2) (i + 2)
                 (out @ hexes ! (0xF0 OR drop_bit 18 c) @ hexes ! (0x80 OR (drop_bit 12 c AND 0x3F))
                   @ hexes ! (0x80 OR (drop_bit 6 c AND 0x3F)) @ hexes ! (0x80 OR (c AND 0x3F)))
      else Inr (lastPos, out))"
  by auto
termination by (relation "measure (\<lambda>(str, _, _, i, _). length str - i)") auto

declare encode_loop.simps [simp del]

definition encodeStr :: "js_string \<Rightarrow> int list \<Rightarrow> js_string list \<Rightarrow> js_string result" where
  "encodeStr str plain hexes =
     (if length str = 0 then Inr []
      else bindE (encode_loop str plain hexes 0 0 []) (\<lambda>(lastPos, out).
        if lastPos = 0 then Inr str
        else if lastPos < length str then Inr (out @ js_slice_from str (int lastPos))
        else Inr out))"

definition qsEscape :: "js_string \<Rightarrow> js_string result" where
  "qsEscape str = encodeStr str noEscape hexTable"

subsection \<open>stringify\<close>

datatype qs_prim = PStr js_string | PNum js_num | PBig int | PBool bool | POther

datatype qs_prop = Prim qs_prim | PArr "qs_prim list"

type_synonym qs_encode = "js_string \<Rightarrow> js_string result"

definition stringifyPrimitive :: "(js_num \<Rightarrow> js_string) \<Rightarrow> qs_prim \<Rightarrow> js_string" where
  "stringifyPrimitive numStr v =
     (case v of
        PStr s \<Rightarrow> s
      | PNum (Fin r) \<Rightarrow> numStr (Fin r)
      | PBig i \<Rightarrow> show_int i
      | PBool b \<Rightarrow> (if b then js ''true'' else js ''false'')
      | _ \<Rightarrow> [])"

definition encodeStringifiedCustom ::
  "(js_num \<Rightarrow> js_string) \<Rightarrow> qs_prim \<Rightarrow> qs_encode \<Rightarrow> js_string result" where
  "encodeStringifiedCustom numStr v encode = encode (stringifyPrimitive numStr v)"

definition encodeStringified :: "(js_num \<Rightarrow> js_string) \<Rightarrow> qs_prim \<Rightarrow> qs_encode \<Rightarrow> js_string result" where
  "encodeStringified numStr v encode =
     (case v of
        PStr s \<Rightarrow> (if length s \<noteq> 0 then encode s else Inr [])
      | PNum (Fin r) \<Rightarrow> (if \<bar>r\<bar> < 10 ^ 21 then Inr (numStr (Fin r)) else encode (numStr (Fin r)))
      | PBig i \<Rightarrow> Inr (show_int i)
      | PBool b \<Rightarrow> Inr (if b then js ''true'' else js ''false'')
      | _ \<Rightarrow> Inr [])"

text \<open>The inner loop over an array from index \<open>j\<close> on.\<close>

fun stringify_array ::
  "(qs_prim \<Rightarrow> js_string result) \<Rightarrow> js_string \<Rightarrow> js_string \<Rightarrow> nat \<Rightarrow> qs_prim list \<Rightarrow> js_string \<Rightarrow> js_string result" where
  "stringify_array conv sep ks j [] out = Inr out"
| "stringify_array conv sep ks j (v # vs) out =
     (let out = (if j \<noteq> 0 then out @ sep else out) @ ks
      in bindE (conv v) (\<lambda>s. stringify_array conv sep ks (j + 1) vs (out @ s)))"

fun stringify_loop ::
  "(qs_prim \<Rightarrow> js_string result) \<Rightarrow> js_string \<Rightarrow> js_string \<Rightarrow> (js_string \<times> qs_prop) list \<Rightarrow> js_string \<Rightarrow> js_string result" where
  "stringify_loop conv sep eq [] out = Inr out"
| "stringify_loop conv sep eq ((k, p) # ps) out =
     bindE (conv (PStr k)) (\<lambda>ks.
       let ks = ks @ eq in
       case p of
         PArr vs \<Rightarrow>
           if length vs = 0 then stringify_loop conv sep eq ps out
           else
             let out = (if out \<noteq> [] then out @ sep else out)
             in bindE (stringify_array conv sep ks 0 vs out) (\<lambda>out. stringify_loop conv sep eq ps out)
       | Prim v \<Rightarrow>
           let out = (if out \<noteq> [] then out @ sep else out) @ ks
           in bindE (conv v) (\<lambda>s. stringify_loop conv sep eq ps (out @ s)))"

text \<open>
  Absent strings are empty. The options are absent, or an object with or without an encoder. A value
  that is no object is \<^const>\<open>None\<close>.
\<close>

definition qs_stringify ::
  "(js_num \<Rightarrow> js_string) \<Rightarrow> (js_string \<times> qs_prop) list option \<Rightarrow> js_string \<Rightarrow> js_string \<Rightarrow> qs_encode option option
     \<Rightarrow> js_string result" where
  "qs_stringify numStr obj sep eq options =
     (let sep = (if sep = [] then js ''&'' else sep);
          eq = (if eq = [] then js ''='' else eq);
          encode = (case options of Some (Some f) \<Rightarrow> f | _ \<Rightarrow> qsEscape);
          conv = (\<lambda>v. if \<not> Option.is_none options then encodeStringifiedCustom numStr v encode
                      else encodeStringified numStr v encode)
      in case obj of
           None \<Rightarrow> Inr []
         | Some ps \<Rightarrow> stringify_loop conv sep eq ps [])"

subsection \<open>Decoding\<close>

definition unhexTable :: "int list" where
  "unhexTable = map (\<lambda>i. if 48 \<le> i \<and> i \<le> 57 then int i - 48
     else if 65 \<le> i \<and> i \<le> 70 then int i - 55
     else if 97 \<le> i \<and> i \<le> 102 then int i - 87 else -1) [0..<256]"

text \<open>An index beyond the table gives undefined, which is not \<open>\<ge> 0\<close>.\<close>

definition unhex :: "code_unit \<Rightarrow> nat option" where
  "unhex c = (if c < length unhexTable \<and> unhexTable ! c \<ge> 0 then Some (nat (unhexTable ! c)) else None)"

function unescape_loop :: "js_string \<Rightarrow> bool \<Rightarrow> nat \<Rightarrow> bytes \<Rightarrow> nat \<Rightarrow> bool \<Rightarrow> bytes \<times> nat \<times> bool" where
  "unescape_loop s decodeSpaces index out outIndex hasHex =
     (if index < length s then
        let c = s ! index in
        if c = 43 \<and> decodeSpaces then
          unescape_loop s decodeSpaces (index + 1) (out[outIndex := 32]) (outIndex + 1) hasHex
        else if c = 37 \<and> int index < int (length s) - 2 then
          case unhex (s ! (index + 1)) of
            None \<Rightarrow> unescape_loop s decodeSpaces (index + 1) (out[outIndex := 37]) (outIndex + 1) hasHex
          | Some hexHigh \<Rightarrow>
              (case unhex (s ! (index + 2)) of
                 None \<Rightarrow> unescape_loop s decodeSpaces (index + 2)
                   (out[outIndex := 37, outIndex + 1 := of_nat (s ! (index + 1))]) (outIndex + 2) hasHex
               | Some hexLow \<Rightarrow> unescape_loop s decodeSpaces (index + 3)
                   (out[outIndex := of_nat (hexHigh * 16 + hexLow)]) (outIndex + 1) True)
        else unescape_loop s decodeSpaces (index + 1) (out[outIndex := of_nat c]) (outIndex + 1) hasHex
      else (out, outIndex, hasHex))"
  by auto
termination by (relation "measure (\<lambda>(s, _, index, _). length s - index)") auto

declare unescape_loop.simps [simp del]

definition unescapeBuffer :: "host \<Rightarrow> js_string \<Rightarrow> bool \<Rightarrow> bytes result" where
  "unescapeBuffer h s decodeSpaces =
     bindE (buffer_alloc h (arg_nat (length s)) (FillArg AUndef) AUndef) (\<lambda>out.
       case unescape_loop s decodeSpaces 0 out 0 False of
         (out, outIndex, hasHex) \<Rightarrow> Inr (if hasHex then subarray out 0 (int outIndex) else out))"

text \<open>
  \<^verbatim>\<open>decodeURIComponent\<close> of the language: an escape sequence stands for a byte, bytes from 128 on
  must form a valid UTF-8 sequence. \<^const>\<open>None\<close> is the \<^verbatim>\<open>URIError\<close>.
\<close>

fun read_escape :: "js_string \<Rightarrow> (nat \<times> js_string) option" where
  "read_escape (c # a # b # s) =
     (if c = 37 then case (parseHexDigit a, parseHexDigit b) of
        (Some x, Some y) \<Rightarrow> Some (x * 16 + y, s) | _ \<Rightarrow> None
      else None)"
| "read_escape _ = None"

fun read_escapes :: "nat \<Rightarrow> js_string \<Rightarrow> (nat list \<times> js_string) option" where
  "read_escapes 0 s = Some ([], s)"
| "read_escapes (Suc n) s =
     (case read_escape s of None \<Rightarrow> None
      | Some (b, s) \<Rightarrow> (case read_escapes n s of None \<Rightarrow> None | Some (bs, s) \<Rightarrow> Some (b # bs, s)))"

text \<open>The code point of a valid UTF-8 sequence of two to four bytes.\<close>

definition utf8_point :: "nat list \<Rightarrow> nat option" where
  "utf8_point bs =
     (if list_all (\<lambda>b. 128 \<le> b \<and> b < 192) (tl bs) then
        case bs of
          [a, b] \<Rightarrow> let v = (a - 192) * 64 + (b - 128) in if 128 \<le> v then Some v else None
        | [a, b, c] \<Rightarrow> let v = (a - 224) * 4096 + (b - 128) * 64 + (c - 128)
            in if 2048 \<le> v \<and> \<not> (55296 \<le> v \<and> v < 57344) then Some v else None
        | [a, b, c, d] \<Rightarrow> let v = (a - 240) * 262144 + (b - 128) * 4096 + (c - 128) * 64 + (d - 128)
            in if 65536 \<le> v \<and> v < 1114112 then Some v else None
        | _ \<Rightarrow> None
      else None)"

definition utf16_point :: "nat \<Rightarrow> js_string" where
  "utf16_point v =
     (if v < 65536 then [v]
      else [55296 + (v - 65536) div 1024, 56320 + (v - 65536) mod 1024])"

definition utf8_lead :: "nat \<Rightarrow> nat" where
  "utf8_lead b = (if b < 128 then 0 else if b < 192 then 1 else if b < 224 then 2 else if b < 240 then 3
     else if b < 248 then 4 else 5)"

lemma read_escape_length: "read_escape s = Some (b, r) \<Longrightarrow> length r < length s"
  by (induction s rule: read_escape.induct) (auto split: if_splits option.splits)

lemma read_escapes_length: "read_escapes n s = Some (bs, r) \<Longrightarrow> length r \<le> length s"
  by (induction n arbitrary: s bs) (force split: option.splits prod.splits dest: read_escape_length)+

function decodeURIComponent :: "js_string \<Rightarrow> js_string option" where
  "decodeURIComponent [] = Some []"
| "decodeURIComponent (c # s) =
     (if c \<noteq> 37 then map_option (Cons c) (decodeURIComponent s)
      else case read_escape (c # s) of
        None \<Rightarrow> None
      | Some (b, r) \<Rightarrow>
          if utf8_lead b = 0 then map_option (Cons b) (decodeURIComponent r)
          else if utf8_lead b = 1 \<or> utf8_lead b > 4 then None
          else (case read_escapes (utf8_lead b - 1) r of
                  None \<Rightarrow> None
                | Some (bs, r') \<Rightarrow>
                    (case utf8_point (b # bs) of
                       None \<Rightarrow> None
                     | Some v \<Rightarrow> map_option (\<lambda>t. utf16_point v @ t) (decodeURIComponent r'))))"
  by pat_completeness auto
termination
  by (relation "measure length") (force dest: read_escape_length read_escapes_length)+

declare decodeURIComponent.simps(2) [simp del]

definition qsUnescape :: "host \<Rightarrow> js_string \<Rightarrow> js_string result" where
  "qsUnescape h s =
     (case decodeURIComponent s of
        Some t \<Rightarrow> Inr t
      | None \<Rightarrow> bindE (unescapeBuffer h s False) (\<lambda>b. Inr (utf8Slice h b 0 (int (length b)))))"

subsection \<open>parse\<close>

datatype qs_value = QStr js_string | QArr "js_string list"

type_synonym qs_obj = "(js_string \<times> qs_value) list"

definition addKeyVal ::
  "qs_obj \<Rightarrow> js_string \<Rightarrow> js_string \<Rightarrow> bool \<Rightarrow> bool \<Rightarrow> (js_string \<Rightarrow> js_string result) \<Rightarrow> qs_obj result" where
  "addKeyVal obj key val keyEncoded valEncoded decode =
     bindE (if length key > 0 \<and> keyEncoded then decode key else Inr key) (\<lambda>key.
     bindE (if length val > 0 \<and> valEncoded then decode val else Inr val) (\<lambda>val.
       case map_of obj key of
         None \<Rightarrow> Inr (AList.update key (QStr val) obj)
       | Some (QArr vs) \<Rightarrow> Inr (AList.update key (QArr (vs @ [val])) obj)
       | Some (QStr v) \<Rightarrow> Inr (AList.update key (QArr [v, val]) obj)))"

record parse_state =
  qobj :: qs_obj
  pairs :: js_num
  lastPos :: nat
  sepIdx :: nat
  eqIdx :: nat
  qkey :: js_string
  qval :: js_string
  keyEncoded :: bool
  valEncoded :: bool
  encodeCheck :: nat

text \<open>What does not change in the loop.\<close>

record parse_env =
  qstr :: js_string
  sepCodes :: js_string
  eqCodes :: js_string
  qdecode :: "js_string \<Rightarrow> js_string result"
  plusChar :: js_string

text \<open>A pass of the loop goes on (with \<^const>\<open>False\<close>) or returns from \<^verbatim>\<open>parse\<close>.\<close>

definition count_pair :: "parse_state \<Rightarrow> parse_state \<Rightarrow> bool \<times> parse_state" where
  "count_pair st st' =
     (let n = num_add (pairs st) (- 1)
      in if n = num_int 0 then (True, st\<lparr>pairs := n\<rparr>) else (False, st'\<lparr>pairs := n\<rparr>))"

text \<open>The whole separator of pairs has been matched at index \<open>i\<close>; \<open>sepIdx\<close> counts it.\<close>

definition parse_separator :: "parse_env \<Rightarrow> nat \<Rightarrow> parse_state \<Rightarrow> (bool \<times> parse_state) result" where
  "parse_separator env i st =
     (let end' = i + 1 - sepIdx st in
      if eqIdx st < length (eqCodes env) \<and> \<not> lastPos st < end' \<and> length (qkey st) = 0 then
        Inr (count_pair st (st\<lparr>lastPos := i + 1, sepIdx := 0, eqIdx := 0\<rparr>))
      else
        let st = (if eqIdx st < length (eqCodes env) then
                    if lastPos st < end'
                    then st\<lparr>qkey := qkey st @ js_slice (qstr env) (int (lastPos st)) (int end')\<rparr> else st
                  else if lastPos st < end'
                  then st\<lparr>qval := qval st @ js_slice (qstr env) (int (lastPos st)) (int end')\<rparr> else st)
        in bindE (addKeyVal (qobj st) (qkey st) (qval st) (keyEncoded st) (valEncoded st) (qdecode env)) (\<lambda>obj.
             let st = st\<lparr>qobj := obj\<rparr>
             in Inr (count_pair st (st\<lparr>qkey := [], qval := [], encodeCheck := 0, lastPos := i + 1,
                      sepIdx := 0, eqIdx := 0\<rparr>))))"

text \<open>The test for an encoded byte: whether the code was consumed by it, the new value of
  \<^verbatim>\<open>encodeCheck\<close> and whether three codes make an escape.\<close>

definition encode_check :: "nat \<Rightarrow> code_unit \<Rightarrow> bool \<times> nat \<times> bool" where
  "encode_check check c =
     (if c = 37 then (True, 1, False)
      else if check > 0 then
        if c < length isHexTable \<and> isHexTable ! c = 1 then (True, check + 1, check + 1 = 3)
        else (False, 0, False)
      else (False, check, False))"

text \<open>The code is part of the value, or of the key when no branch for the key has taken it.\<close>

definition parse_value :: "parse_env \<Rightarrow> nat \<Rightarrow> code_unit \<Rightarrow> parse_state \<Rightarrow> parse_state" where
  "parse_value env i c st =
     (if c = 43 then
        st\<lparr>qval := (if lastPos st < i then qval st @ js_slice (qstr env) (int (lastPos st)) (int i) else qval st)
             @ plusChar env, lastPos := i + 1\<rparr>
      else if \<not> valEncoded st then
        (case encode_check (encodeCheck st) c of
           (_, k, enc) \<Rightarrow> st\<lparr>encodeCheck := k, valEncoded := enc\<rparr>)
      else st)"

definition parse_plain :: "parse_env \<Rightarrow> nat \<Rightarrow> code_unit \<Rightarrow> parse_state \<Rightarrow> parse_state" where
  "parse_plain env i c st =
     (if eqIdx st < length (eqCodes env) then
        if c = eqCodes env ! eqIdx st then
          let st = st\<lparr>eqIdx := eqIdx st + 1\<rparr> in
          if eqIdx st = length (eqCodes env) then
            let end' = i + 1 - eqIdx st in
            st\<lparr>qkey := (if lastPos st < end' then qkey st @ js_slice (qstr env) (int (lastPos st)) (int end') else qkey st),
               encodeCheck := 0, lastPos := i + 1\<rparr>
          else st
        else
          let st = st\<lparr>eqIdx := 0\<rparr>;
              (consumed, st) =
                (if \<not> keyEncoded st then
                   case encode_check (encodeCheck st) c of
                     (consumed, k, enc) \<Rightarrow> (consumed, st\<lparr>encodeCheck := k, keyEncoded := enc\<rparr>)
                 else (False, st))
          in if consumed then st
             else if c = 43 then
               st\<lparr>qkey := (if lastPos st < i then qkey st @ js_slice (qstr env) (int (lastPos st)) (int i) else qkey st)
                    @ plusChar env, lastPos := i + 1\<rparr>
             else parse_value env i c st
      else parse_value env i c st)"

definition parse_step :: "parse_env \<Rightarrow> nat \<Rightarrow> parse_state \<Rightarrow> (bool \<times> parse_state) result" where
  "parse_step env i st =
     (let c = qstr env ! i in
      if sepIdx st < length (sepCodes env) \<and> c = sepCodes env ! sepIdx st then
        let st = st\<lparr>sepIdx := sepIdx st + 1\<rparr> in
        if sepIdx st = length (sepCodes env) then parse_separator env i st else Inr (False, st)
      else Inr (False, parse_plain env i c (st\<lparr>sepIdx := 0\<rparr>)))"

function parse_loop :: "parse_env \<Rightarrow> nat \<Rightarrow> parse_state \<Rightarrow> (bool \<times> parse_state) result" where
  "parse_loop env i st =
     (if i < length (qstr env) then
        bindE (parse_step env i st) (\<lambda>(returned, st).
          if returned then Inr (True, st) else parse_loop env (i + 1) st)
      else Inr (False, st))"
  by auto
termination by (relation "measure (\<lambda>(env, i, _). length (qstr env) - i)") auto

declare parse_loop.simps [simp del]

definition parse_leftover :: "parse_env \<Rightarrow> parse_state \<Rightarrow> qs_obj result" where
  "parse_leftover env st =
     (let rest = js_slice_from (qstr env) (int (lastPos st)) in
      if \<not> lastPos st < length (qstr env) \<and> eqIdx st = 0 \<and> length (qkey st) = 0 then Inr (qobj st)
      else
        let st = (if lastPos st < length (qstr env) then
                    if eqIdx st < length (eqCodes env) then st\<lparr>qkey := qkey st @ rest\<rparr>
                    else if sepIdx st < length (sepCodes env) then st\<lparr>qval := qval st @ rest\<rparr> else st
                  else st)
        in addKeyVal (qobj st) (qkey st) (qval st) (keyEncoded st) (valEncoded st) (qdecode env))"

text \<open>
  A value that is no string is \<^const>\<open>None\<close>, absent strings are empty, and \<^verbatim>\<open>maxKeys\<close> is
  \<^const>\<open>None\<close> when it is no number. The decoder is absent or a function other than
  \<^verbatim>\<open>unescape\<close>.
\<close>

definition qs_parse ::
  "host \<Rightarrow> js_string option \<Rightarrow> js_string \<Rightarrow> js_string \<Rightarrow> (js_string \<Rightarrow> js_string result) option \<Rightarrow> js_num option
     \<Rightarrow> qs_obj result" where
  "qs_parse h str sep eq decodeURI maxKeys =
     (case str of
        None \<Rightarrow> Inr []
      | Some s \<Rightarrow>
          if length s = 0 then Inr []
          else
            let custom = \<not> Option.is_none decodeURI;
                env = \<lparr>qstr = s, sepCodes = (if sep = [] then [38] else sep), eqCodes = (if eq = [] then [61] else eq),
                       qdecode = (case decodeURI of Some f \<Rightarrow> f | None \<Rightarrow> qsUnescape h),
                       plusChar = (if custom then js ''%20'' else js '' '')\<rparr>;
                pairs = (case maxKeys of
                           None \<Rightarrow> num_int 1000
                         | Some n \<Rightarrow> if num_less (num_int 0) n then n else num_int (- 1))
            in bindE (parse_loop env 0 \<lparr>qobj = [], pairs = pairs, lastPos = 0, sepIdx = 0, eqIdx = 0, qkey = [], qval = [],
                   keyEncoded = custom, valEncoded = custom, encodeCheck = 0\<rparr>) (\<lambda>(returned, st).
                 if returned then Inr (qobj st) else parse_leftover env st))"

end
