(* ===== verification/Querystring_Laws.thy ===== *)
theory Querystring_Laws
  imports Querystring
begin

unbundle bit_operations_syntax

text \<open>
  Percent-encoding is inverted by \<^verbatim>\<open>unescape\<close> on well-formed strings, and
  \<^verbatim>\<open>parse\<close> inverts \<^verbatim>\<open>stringify\<close>. The encoder is compared with a recursion over the
  string; the scanner of \<^verbatim>\<open>parse\<close> is followed token by token over an encoded text.
\<close>

subsection \<open>Bit operations on small numbers\<close>

lemma list_all_upto: "list_all P [0..<n] \<Longrightarrow> i < n \<Longrightarrow> P i"
  by (simp add: list_all_iff)

lemma or_lead:
  "(x :: nat) < 32 \<Longrightarrow> 0xC0 OR x = 192 + x" "x < 64 \<Longrightarrow> 0x80 OR x = 128 + x"
  "x < 16 \<Longrightarrow> 0xE0 OR x = 224 + x" "x < 8 \<Longrightarrow> 0xF0 OR x = 240 + x"
proof -
  have a: "list_all (\<lambda>x :: nat. 0xC0 OR x = 192 + x) [0..<32]" by code_simp
  have b: "list_all (\<lambda>x :: nat. 0x80 OR x = 128 + x) [0..<64]" by code_simp
  have c: "list_all (\<lambda>x :: nat. 0xE0 OR x = 224 + x) [0..<16]" by code_simp
  have d: "list_all (\<lambda>x :: nat. 0xF0 OR x = 240 + x) [0..<8]" by code_simp
  show "x < 32 \<Longrightarrow> 0xC0 OR x = 192 + x" "x < 64 \<Longrightarrow> 0x80 OR x = 128 + x"
    "x < 16 \<Longrightarrow> 0xE0 OR x = 224 + x" "x < 8 \<Longrightarrow> 0xF0 OR x = 240 + x"
    by (fact list_all_upto [OF a] list_all_upto [OF b] list_all_upto [OF c] list_all_upto [OF d])+
qed

lemma and_low: "(c :: nat) AND 0x3F = c mod 64" "c AND 0x3FF = c mod 1024"
proof -
  have "(63 :: nat) = mask 6" "(1023 :: nat) = mask 10" by (simp_all add: mask_eq_exp_minus_1)
  then show "c AND 0x3F = c mod 64" "c AND 0x3FF = c mod 1024"
    by (simp_all only: flip: take_bit_eq_mask) (simp_all add: take_bit_eq_mod)
qed

lemma or_high: "(y :: nat) < 1024 \<Longrightarrow> push_bit 10 x OR y = x * 1024 + y"
proof -
  assume "y < 1024"
  then have y: "take_bit 10 y = y" by (simp add: take_bit_nat_eq_self)
  have "\<not> bit (push_bit 10 x) n \<or> \<not> bit y n" for n
    by (subst y [symmetric]) (auto simp: bit_push_bit_iff bit_take_bit_iff)
  from disjunctive_add [OF this] show ?thesis by (simp add: push_bit_eq_mult)
qed

subsection \<open>Escape sequences\<close>

definition hex_upper :: "nat \<Rightarrow> code_unit" where
  "hex_upper d = (if d < 10 then 48 + d else 55 + d)"

lemma hexTable_nth:
  assumes "b < 256"
  shows "hexTable ! b = [37, hex_upper (b div 16), hex_upper (b mod 16)]"
proof -
  have dig: "list_all (\<lambda>d. ascii_upper [js ''0123456789abcdef'' ! d] = [hex_upper d]) [0..<16]"
    "js ''%'' = [37]" "js ''0'' = [48]" by code_simp+
  note d = list_all_upto [OF dig(1)]
  have up: "ascii_upper [x, y] = ascii_upper [x] @ ascii_upper [y]" for x y by (simp add: ascii_upper_def)
  have z: "ascii_upper [48] = [48]" by (simp add: ascii_upper_def)
  have "b div 16 < 16" using assms by simp
  then have "js ''%'' @ ascii_upper ((if b < 16 then js ''0'' else []) @ toString16 b)
      = [37, hex_upper (b div 16), hex_upper (b mod 16)]"
    using d [of b] d [of "b div 16"] d [of "b mod 16"] hex_upper_def [of 0]
    by (cases "b < 16") (simp_all add: toString16.simps [of b] toString16.simps [of "b div 16"] dig(2,3) up z)
  then show ?thesis using assms by (simp add: hexTable_def)
qed

lemma parse_hex_upper: "d < 16 \<Longrightarrow> parseHexDigit (hex_upper d) = Some d"
  by (auto simp: parseHexDigit_def hex_upper_def)

lemma read_escape_hex: "b < 256 \<Longrightarrow> read_escape (hexTable ! b @ s) = Some (b, s)"
  by (simp add: hexTable_nth parse_hex_upper)

lemma decode_plain: "c \<noteq> 37 \<Longrightarrow> decodeURIComponent (c # s) = map_option (Cons c) (decodeURIComponent s)"
  by (subst decodeURIComponent.simps) simp

lemma decode_escape:
  assumes "b < 256"
  shows "decodeURIComponent (hexTable ! b @ s) =
    (if utf8_lead b = 0 then map_option (Cons b) (decodeURIComponent s)
     else if utf8_lead b = 1 \<or> utf8_lead b > 4 then None
     else (case read_escapes (utf8_lead b - 1) s of
             None \<Rightarrow> None
           | Some (bs, r) \<Rightarrow> (case utf8_point (b # bs) of
               None \<Rightarrow> None | Some v \<Rightarrow> map_option (\<lambda>t. utf16_point v @ t) (decodeURIComponent r))))"
proof -
  have h: "hexTable ! b @ s = 37 # hex_upper (b div 16) # hex_upper (b mod 16) # s" using assms by (simp add: hexTable_nth)
  have r: "read_escape (37 # hex_upper (b div 16) # hex_upper (b mod 16) # s) = Some (b, s)"
    using read_escape_hex [OF assms, of s] h by simp
  show ?thesis unfolding h decodeURIComponent.simps(2) [of 37] r option.case prod.case by simp
qed

subsection \<open>The encoder as a recursion\<close>

definition unreserved :: "code_unit \<Rightarrow> bool" where
  "unreserved c \<longleftrightarrow> c < 128 \<and> noEscape ! c = 1"

fun wf16 :: "js_string \<Rightarrow> bool" where
  "wf16 [] = True"
| "wf16 (c # s) =
     (if c < 0xD800 \<or> 0xE000 \<le> c \<and> c < 0x10000 then wf16 s
      else case s of d # t \<Rightarrow> c < 0xDC00 \<and> 0xDC00 \<le> d \<and> d < 0xE000 \<and> wf16 t | [] \<Rightarrow> False)"

fun percent :: "nat list \<Rightarrow> js_string" where
  "percent [] = []"
| "percent (b # bs) = hexTable ! b @ percent bs"

text \<open>The UTF-8 bytes of a code point.\<close>

definition utf8_bytes :: "nat \<Rightarrow> nat list" where
  "utf8_bytes v =
     (if v < 128 then [v]
      else if v < 2048 then [192 + v div 64, 128 + v mod 64]
      else if v < 65536 then [224 + v div 4096, 128 + v div 64 mod 64, 128 + v mod 64]
      else [240 + v div 262144, 128 + v div 4096 mod 64, 128 + v div 64 mod 64, 128 + v mod 64])"

fun pct :: "js_string \<Rightarrow> js_string" where
  "pct [] = []"
| "pct (c # s) =
     (if unreserved c then c # pct s
      else if c < 0xD800 \<or> 0xE000 \<le> c then percent (utf8_bytes c) @ pct s
      else case s of [] \<Rightarrow> []
        | d # t \<Rightarrow> percent (utf8_bytes (0x10000 + (c mod 1024 * 1024 + d mod 1024))) @ pct t)"

lemma unit_bytes:
  "128 \<le> c \<Longrightarrow> c < 2048 \<Longrightarrow> hexTable ! (0xC0 OR drop_bit 6 c) @ hexTable ! (0x80 OR (c AND 0x3F)) = percent (utf8_bytes c)"
  "2048 \<le> c \<Longrightarrow> c < 65536 \<Longrightarrow> hexTable ! (0xE0 OR drop_bit 12 c) @ hexTable ! (0x80 OR (drop_bit 6 c AND 0x3F))
     @ hexTable ! (0x80 OR (c AND 0x3F)) = percent (utf8_bytes c)"
  "65536 \<le> c \<Longrightarrow> c < 2097152 \<Longrightarrow> hexTable ! (0xF0 OR drop_bit 18 c) @ hexTable ! (0x80 OR (drop_bit 12 c AND 0x3F))
     @ hexTable ! (0x80 OR (drop_bit 6 c AND 0x3F)) @ hexTable ! (0x80 OR (c AND 0x3F)) = percent (utf8_bytes c)"
  by (simp_all add: utf8_bytes_def or_lead and_low drop_bit_eq_div)

lemma encode_loop_step:
  fixes str i lp out
  defines "o' \<equiv> (if lp < i then out @ js_slice str (int lp) (int i) else out)"
  assumes "i < length str" "str ! i = c"
  shows "unreserved c \<Longrightarrow> encode_loop str noEscape hexTable i lp out = encode_loop str noEscape hexTable (i + 1) lp out"
    and "\<not> unreserved c \<Longrightarrow> c < 0xD800 \<or> 0xE000 \<le> c \<and> c < 0x10000 \<Longrightarrow> encode_loop str noEscape hexTable i lp out
      = encode_loop str noEscape hexTable (i + 1) (i + 1) (o' @ percent (utf8_bytes c))"
    and "0xD800 \<le> c \<Longrightarrow> c < 0xE000 \<Longrightarrow> i + 1 < length str \<Longrightarrow> encode_loop str noEscape hexTable i lp out
      = encode_loop str noEscape hexTable (i + 2) (i + 2)
          (o' @ percent (utf8_bytes (0x10000 + (c mod 1024 * 1024 + str ! (i + 1) mod 1024))))"
    and "0xD800 \<le> c \<Longrightarrow> c < 0xE000 \<Longrightarrow> i + 1 = length str \<Longrightarrow> encode_loop str noEscape hexTable i lp out = Inl ERR_INVALID_URI"
proof -
  note unfold = encode_loop.simps [where str = str and i = i and lastPos = lp and out = out]
  show "encode_loop str noEscape hexTable i lp out = encode_loop str noEscape hexTable (i + 1) lp out" if "unreserved c"
    by (subst unfold) (use that assms(2,3) in \<open>simp add: unreserved_def Let_def\<close>)
  show "encode_loop str noEscape hexTable i lp out
      = encode_loop str noEscape hexTable (i + 1) (i + 1) (o' @ percent (utf8_bytes c))"
    if "\<not> unreserved c" "c < 0xD800 \<or> 0xE000 \<le> c \<and> c < 0x10000"
  proof -
    have cc: "c < 65536" "c < 0xD800 \<or> 0xE000 \<le> c" using that(2) by auto
    consider "c < 128" | "128 \<le> c" "c < 2048" | "2048 \<le> c" by linarith
    then show ?thesis
      by cases (subst unfold, use that(1) cc assms(2,3) unit_bytes [of c] in
        \<open>simp add: unreserved_def Let_def o'_def utf8_bytes_def [of c]\<close>)+
  qed
  let ?v = "0x10000 + (c mod 1024 * 1024 + str ! (i + 1) mod 1024)"
  have v: "65536 \<le> ?v" "?v < 2097152"
  proof -
    have "c mod 1024 < 1024" "str ! (i + 1) mod 1024 < 1024" by simp_all
    then show "65536 \<le> ?v" "?v < 2097152" by linarith+
  qed
  show "encode_loop str noEscape hexTable i lp out
      = encode_loop str noEscape hexTable (i + 2) (i + 2) (o' @ percent (utf8_bytes ?v))"
    if "0xD800 \<le> c" "c < 0xE000" "i + 1 < length str"
    unfolding unit_bytes(3) [OF v, symmetric]
    by (subst unfold) (use that assms(2,3) in \<open>simp add: Let_def o'_def and_low or_high\<close>)
  show "encode_loop str noEscape hexTable i lp out = Inl ERR_INVALID_URI"
    if "0xD800 \<le> c" "c < 0xE000" "i + 1 = length str"
    by (subst unfold) (use that assms(2,3) in \<open>simp add: Let_def\<close>)
qed

lemma wf16_unit: "wf16 (c # s) \<Longrightarrow> c < 0xD800 \<or> 0xE000 \<le> c \<and> c < 0x10000 \<or> 0xD800 \<le> c \<and> c < 0xE000"
  by (auto split: if_splits list.splits)

lemma wf16_pair:
  assumes "wf16 (c # s)" "0xD800 \<le> c" "c < 0xE000"
  obtains d t where "s = d # t" "c < 0xDC00" "0xDC00 \<le> d" "d < 0xE000" "wf16 t"
  using assms by (cases s) simp_all

lemma wf16_single: "wf16 (c # s) \<Longrightarrow> c < 0xD800 \<or> 0xE000 \<le> c \<and> c < 0x10000 \<Longrightarrow> wf16 s"
  by auto

lemma unreserved_small: "unreserved c \<Longrightarrow> c < 0xD800"
  by (simp add: unreserved_def)

text \<open>\<open>pre\<close> has been put out, \<open>mid\<close> is pending from \<^verbatim>\<open>lastPos\<close> on.\<close>

definition encode_result :: "js_string \<Rightarrow> (nat \<times> js_string) result \<Rightarrow> js_string \<Rightarrow> bool \<Rightarrow> bool" where
  "encode_result str r txt first \<longleftrightarrow>
     (\<exists>lp out. r = Inr (lp, out) \<and> out @ drop lp str = txt \<and> lp \<le> length str \<and> (lp = 0 \<longrightarrow> out = [] \<and> first))"

lemma encode_loop_pct:
  assumes "wf16 rest" "list_all unreserved mid" "pre = [] \<longrightarrow> out = []"
  shows "encode_result (pre @ mid @ rest)
    (encode_loop (pre @ mid @ rest) noEscape hexTable (length pre + length mid) (length pre) out) (out @ mid @ pct rest) (pre = [])"
  using assms
proof (induction rest arbitrary: pre mid out rule: length_induct)
  case (1 rest)
  show ?case
  proof (cases rest)
    case Nil
    then show ?thesis using 1(4) by (subst encode_loop.simps) (auto simp: encode_result_def)
  next
    case (Cons c s)
    let ?str = "pre @ mid @ c # s" and ?i = "length pre + length mid"
    have at: "?i < length ?str" "?str ! ?i = c" by (simp_all add: nth_append)
    have mid: "js_slice ?str (int (length pre)) (int ?i) = mid" by (subst js_slice_nat) simp_all
    then have o: "(if length pre < ?i then out @ js_slice ?str (int (length pre)) (int ?i) else out) = out @ mid" by auto
    note step = encode_loop_step [OF at, of "length pre" out, unfolded o]
    have IH: "encode_result (pre' @ mid' @ t)
        (encode_loop (pre' @ mid' @ t) noEscape hexTable (length pre' + length mid') (length pre') out') (out' @ mid' @ pct t) (pre' = [])"
      if "length t < length rest" "wf16 t" "list_all unreserved mid'" "pre' = [] \<longrightarrow> out' = []" for t pre' mid' out'
      using 1(1) that by blast
    consider (plain) "unreserved c" | (unit) "\<not> unreserved c" "c < 0xD800 \<or> 0xE000 \<le> c \<and> c < 0x10000"
      | (pair) "0xD800 \<le> c" "c < 0xE000" using wf16_unit [of c s] 1(2) Cons by blast
    then show ?thesis
    proof cases
      case plain
      then have "wf16 s" using wf16_single 1(2) Cons unreserved_small by blast
      then show ?thesis
        using IH [of s "mid @ [c]" pre out] plain 1(3,4) Cons step(1) by (simp add: add.assoc)
    next
      case unit
      then have "wf16 s" using wf16_single 1(2) Cons by blast
      then show ?thesis
        using IH [of s "[]" "pre @ mid @ [c]" "out @ mid @ percent (utf8_bytes c)"] unit Cons step(2)
        by (auto simp: encode_result_def add.assoc)
    next
      case pair
      then obtain d t where s: "s = d # t" "wf16 t" using wf16_pair 1(2) Cons by metis
      have d: "?str ! (?i + 1) = d" using s by (simp add: nth_append)
      show ?thesis
        using IH [of t "[]" "pre @ mid @ [c, d]"
            "out @ mid @ percent (utf8_bytes (0x10000 + (c mod 1024 * 1024 + d mod 1024)))"]
          pair s Cons step(3) [OF pair, unfolded d] unreserved_small [of c]
        by (auto simp: encode_result_def add.assoc)
    qed
  qed
qed

lemma qsEscape_pct: "wf16 s \<Longrightarrow> qsEscape s = Inr (pct s)"
proof (cases "s = []")
  case True
  then show ?thesis by (simp add: qsEscape_def encodeStr_def)
next
  case False
  assume "wf16 s"
  from encode_loop_pct [OF this, of "[]" "[]" "[]"] obtain lp out where
    "encode_loop s noEscape hexTable 0 0 [] = Inr (lp, out)" "out @ drop lp s = pct s" "lp \<le> length s" "lp = 0 \<longrightarrow> out = []"
    by (auto simp: encode_result_def)
  then show ?thesis using False by (cases "lp = 0") (auto simp: qsEscape_def encodeStr_def js_slice_from_nat)
qed

subsection \<open>Decoding what was encoded\<close>

lemma read_escapes_percent: "list_all (\<lambda>b. b < 256) bs \<Longrightarrow> read_escapes (length bs) (percent bs @ s) = Some (bs, s)"
  by (induction bs) (simp_all add: read_escape_hex)

lemma utf8_bytes_point:
  assumes "128 \<le> v" "v < 1114112" "\<not> (0xD800 \<le> v \<and> v < 0xE000)"
  shows "\<exists>b bs. utf8_bytes v = b # bs \<and> b < 256 \<and> list_all (\<lambda>b. b < 256) bs \<and> 1 < utf8_lead b \<and> utf8_lead b \<le> 4
    \<and> utf8_lead b - 1 = length bs \<and> utf8_point (b # bs) = Some v"
proof -
  have m: "v mod 64 < 64" "v div 64 mod 64 < 64" "v div 4096 mod 64 < 64" by simp_all
  have e: "v = v div 64 * 64 + v mod 64" "v div 64 = v div 4096 * 64 + v div 64 mod 64"
    "v div 4096 = v div 262144 * 64 + v div 4096 mod 64"
    using div_mult_mod_eq [of v 64] div_mult_mod_eq [of "v div 64" 64] div_mult_mod_eq [of "v div 4096" 64]
    by (simp_all add: div_mult2_eq [symmetric])
  consider "v < 2048" | "2048 \<le> v" "v < 65536" | "65536 \<le> v" by linarith
  then show ?thesis
  proof cases
    case 1
    have "v div 64 < 32" using 1 by simp
    then show ?thesis using 1 assms(1) m e(1) by (auto simp: utf8_bytes_def utf8_lead_def utf8_point_def)
  next
    case 2
    have "v div 4096 < 16" using 2 by simp
    moreover have "v = v div 4096 * 4096 + v div 64 mod 64 * 64 + v mod 64" using e by linarith
    ultimately show ?thesis using 2 assms m by (auto simp: utf8_bytes_def utf8_lead_def utf8_point_def)
  next
    case 3
    have "v div 262144 < 5" using assms(2) by simp
    moreover have "v = v div 262144 * 262144 + v div 4096 mod 64 * 4096 + v div 64 mod 64 * 64 + v mod 64" using e by linarith
    ultimately show ?thesis using 3 assms m by (auto simp: utf8_bytes_def utf8_lead_def utf8_point_def)
  qed
qed

lemma decode_percent:
  assumes "v < 1114112" "\<not> (0xD800 \<le> v \<and> v < 0xE000)"
  shows "decodeURIComponent (percent (utf8_bytes v) @ s) = map_option (\<lambda>t. utf16_point v @ t) (decodeURIComponent s)"
proof (cases "v < 128")
  case True
  then have "decodeURIComponent (hexTable ! v @ s) = map_option (Cons v) (decodeURIComponent s)"
    by (subst decode_escape) (simp_all add: utf8_lead_def)
  then show ?thesis using True by (simp add: utf8_bytes_def utf16_point_def)
next
  case False
  then obtain b bs where b: "utf8_bytes v = b # bs" "b < 256" "list_all (\<lambda>b. b < 256) bs" "1 < utf8_lead b" "utf8_lead b \<le> 4"
    "utf8_lead b - 1 = length bs" "utf8_point (b # bs) = Some v" using utf8_bytes_point [of v] assms by auto
  have "decodeURIComponent (hexTable ! b @ percent bs @ s) = map_option (\<lambda>t. utf16_point v @ t) (decodeURIComponent s)"
    unfolding decode_escape [OF b(2)] b(6) read_escapes_percent [OF b(3)] option.case prod.case b(7)
    using b(4,5) by simp
  then show ?thesis using b(1) by simp
qed

lemma decode_pct: "wf16 s \<Longrightarrow> decodeURIComponent (pct s) = Some s"
proof (induction s rule: length_induct)
  case (1 s)
  show ?case
  proof (cases s)
    case (Cons c t)
    consider (plain) "unreserved c" | (unit) "\<not> unreserved c" "c < 0xD800 \<or> 0xE000 \<le> c \<and> c < 0x10000"
      | (pair) "0xD800 \<le> c" "c < 0xE000" using wf16_unit [of c t] 1(2) Cons by blast
    then show ?thesis
    proof cases
      case plain
      moreover have "noEscape ! 37 = 0" by code_simp
      ultimately have "c \<noteq> 37" by (auto simp: unreserved_def)
      moreover have "wf16 t" using wf16_single 1(2) Cons unreserved_small [OF plain] by blast
      ultimately show ?thesis using 1(1) Cons plain by (simp add: decode_plain)
    next
      case unit
      then have "wf16 t" "utf16_point c = [c]" using wf16_single 1(2) Cons by (auto simp: utf16_point_def)
      then show ?thesis using 1(1) Cons unit decode_percent [of c] by auto
    next
      case pair
      then obtain d u where t: "t = d # u" "c < 0xDC00" "0xDC00 \<le> d" "d < 0xE000" "wf16 u" using wf16_pair 1(2) Cons by metis
      define x where "x = c - 0xD800"
      define y where "y = d - 0xDC00"
      have xy: "c = 55296 + x" "d = 56320 + y" "x < 1024" "y < 1024" using pair t by (auto simp: x_def y_def)
      have m: "c mod 1024 = x" "d mod 1024 = y" using xy by (simp_all add: mod_add_eq [of 55296 1024 x, symmetric] mod_add_eq [of 56320 1024 y, symmetric])
      have "utf16_point (0x10000 + (x * 1024 + y)) = [c, d]" using xy by (simp add: utf16_point_def)
      moreover have "0x10000 + (x * 1024 + y) < 1114112" using xy by linarith
      ultimately show ?thesis
        using 1(1) Cons t(1,5) pair unreserved_small [of c] decode_percent [of "0x10000 + (x * 1024 + y)" "pct u"] m
        by auto
    qed
  qed simp
qed

lemma decode_identity: "37 \<notin> set s \<Longrightarrow> decodeURIComponent s = Some s"
  by (induction s) (simp_all add: decode_plain)

subsection \<open>Encoded text\<close>

definition is_hex :: "code_unit \<Rightarrow> bool" where
  "is_hex c \<longleftrightarrow> c < 256 \<and> isHexTable ! c = 1"

text \<open>Sequences of unreserved characters and escapes.\<close>

fun escaped_text :: "js_string \<Rightarrow> bool" where
  "escaped_text [] = True"
| "escaped_text (c # s) =
     (if c = 37 then case s of x # y # t \<Rightarrow> is_hex x \<and> is_hex y \<and> escaped_text t | _ \<Rightarrow> False
      else unreserved c \<and> escaped_text s)"

lemma unreserved_not_special: "unreserved c \<Longrightarrow> c \<noteq> 37 \<and> c \<noteq> 38 \<and> c \<noteq> 61 \<and> c \<noteq> 43"
proof -
  have "noEscape ! 37 = 0" "noEscape ! 38 = 0" "noEscape ! 61 = 0" "noEscape ! 43 = 0" by code_simp+
  then show "unreserved c \<Longrightarrow> c \<noteq> 37 \<and> c \<noteq> 38 \<and> c \<noteq> 61 \<and> c \<noteq> 43" by (auto simp: unreserved_def)
qed

lemma is_hex_not_special: "is_hex c \<Longrightarrow> c \<noteq> 37 \<and> c \<noteq> 38 \<and> c \<noteq> 61 \<and> c \<noteq> 43"
  by (auto simp: is_hex_def isHexTable_def split: if_splits)

lemma is_hex_upper: "d < 16 \<Longrightarrow> is_hex (hex_upper d)"
  by (auto simp: is_hex_def isHexTable_def hex_upper_def)

lemma escaped_percent: "list_all (\<lambda>b. b < 256) bs \<Longrightarrow> escaped_text (percent bs @ s) \<longleftrightarrow> escaped_text s"
proof (induction bs)
  case (Cons b bs)
  have "b < 256" using Cons.prems by simp
  then have "b div 16 < 16" "b mod 16 < 16" by simp_all
  then show ?case using Cons by (simp add: hexTable_nth is_hex_upper)
qed simp

lemma utf8_bytes_small: "v < 2097152 \<Longrightarrow> list_all (\<lambda>b. b < 256) (utf8_bytes v)"
proof -
  have "v div 262144 < 8" if "v < 2097152" using that by simp
  moreover have "v div 64 < 32" if "v < 2048" using that by simp
  moreover have "v div 4096 < 16" if "v < 65536" using that by simp
  moreover have "x mod 64 < 64" for x :: nat by simp
  ultimately show "v < 2097152 \<Longrightarrow> list_all (\<lambda>b. b < 256) (utf8_bytes v)"
    by (fastforce simp: utf8_bytes_def intro: order_less_trans [of _ 64])
qed

lemma pct_escaped: "wf16 s \<Longrightarrow> escaped_text (pct s)"
proof (induction s rule: length_induct)
  case (1 s)
  show ?case
  proof (cases s)
    case (Cons c t)
    consider (plain) "unreserved c" | (unit) "\<not> unreserved c" "c < 0xD800 \<or> 0xE000 \<le> c \<and> c < 0x10000"
      | (pair) "0xD800 \<le> c" "c < 0xE000" using wf16_unit [of c t] 1(2) Cons by blast
    then show ?thesis
    proof cases
      case plain
      moreover have "wf16 t" using wf16_single 1(2) Cons unreserved_small [OF plain] by blast
      ultimately show ?thesis using 1(1) Cons unreserved_not_special [of c] by simp
    next
      case unit
      then have "wf16 t" "c < 2097152" using wf16_single 1(2) Cons by auto
      then show ?thesis using 1(1) Cons unit by (auto simp: escaped_percent [OF utf8_bytes_small])
    next
      case pair
      then obtain d u where t: "t = d # u" "wf16 u" using wf16_pair 1(2) Cons by metis
      have "c mod 1024 < 1024" "d mod 1024 < 1024" by simp_all
      then have "0x10000 + (c mod 1024 * 1024 + d mod 1024) < 2097152" by linarith
      then show ?thesis using 1(1) Cons t pair unreserved_small [of c] by (auto simp: escaped_percent [OF utf8_bytes_small])
    qed
  qed simp
qed

subsection \<open>The scanner\<close>

text \<open>The environment of a call with the default separators and decoder.\<close>

definition default_env :: "host \<Rightarrow> js_string \<Rightarrow> parse_env" where
  "default_env h s = \<lparr>qstr = s, sepCodes = [38], eqCodes = [61], qdecode = qsUnescape h, plusChar = js '' ''\<rparr>"

text \<open>The flags only go up, and go up when the text has an escape.\<close>

definition flags_up :: "parse_state \<Rightarrow> parse_state \<Rightarrow> bool" where
  "flags_up st st' \<longleftrightarrow>
     st' = st\<lparr>keyEncoded := keyEncoded st', valEncoded := valEncoded st', encodeCheck := encodeCheck st'\<rparr>
     \<and> (keyEncoded st \<longrightarrow> keyEncoded st') \<and> (valEncoded st \<longrightarrow> valEncoded st')"

lemma flags_up_refl: "flags_up st st"
  by (simp add: flags_up_def)

lemma flags_up_check:
  "\<not> keyEncoded st \<Longrightarrow> flags_up st (st\<lparr>encodeCheck := n, keyEncoded := k\<rparr>)"
  "\<not> valEncoded st \<Longrightarrow> flags_up st (st\<lparr>encodeCheck := n, valEncoded := k\<rparr>)"
  by (cases st; simp add: flags_up_def)+

lemma flags_up_trans: "flags_up a b \<Longrightarrow> flags_up b c \<Longrightarrow> flags_up a c"
  by (cases a; cases b; cases c) (simp add: flags_up_def)

lemma flags_up_fields:
  "flags_up st st' \<Longrightarrow> sepIdx st' = sepIdx st \<and> eqIdx st' = eqIdx st \<and> lastPos st' = lastPos st \<and> qkey st' = qkey st
     \<and> qval st' = qval st \<and> qobj st' = qobj st \<and> pairs st' = pairs st
     \<and> (keyEncoded st \<longrightarrow> keyEncoded st') \<and> (valEncoded st \<longrightarrow> valEncoded st')"
  by (cases st; cases st') (simp add: flags_up_def)

lemma step_plain:
  assumes "i < length s" "s ! i = c" "c \<noteq> 38" "c \<noteq> 61" "c \<noteq> 43" "sepIdx st = 0" "eqIdx st \<le> 1"
  shows "\<exists>st'. parse_step (default_env h s) i st = Inr (False, st') \<and> flags_up st st'"
proof -
  have val: "flags_up st (parse_value (default_env h s) i c st)" for st
    using assms(5) by (simp add: parse_value_def flags_up_check flags_up_refl split: prod.splits)
  have "flags_up st (parse_plain (default_env h s) i c st)"
  proof (cases "eqIdx st = 1 \<or> keyEncoded st")
    case True
    show ?thesis
    proof (cases "eqIdx st = 0")
      case z: True
      show ?thesis using True z val [of st] assms(4,5)
        by (cases st) (simp add: parse_plain_def default_env_def)
    next
      case False
      then show ?thesis using val [of st] by (simp add: parse_plain_def default_env_def)
    qed
  next
    case False
    then have z: "eqIdx st = 0" using assms(7) by auto
    obtain a k e where chk: "encode_check (encodeCheck st) c = (a, k, e)" by (cases "encode_check (encodeCheck st) c")
    let ?st = "st\<lparr>encodeCheck := k, keyEncoded := e\<rparr>"
    have up: "flags_up st ?st" using False by (intro flags_up_check) simp
    show ?thesis using up flags_up_trans [OF up val] False z chk assms(4,5)
      by (cases st) (simp add: parse_plain_def default_env_def)
  qed
  then show ?thesis using assms(1-3,6) by (cases st) (simp add: parse_step_def default_env_def)
qed

text \<open>An escape in the key, and in the value, sets the flag.\<close>

lemma key_escape_steps:
  assumes "sepIdx st = 0" "eqIdx st = 0" "\<not> keyEncoded st"
  shows "i < length s \<Longrightarrow> s ! i = 37 \<Longrightarrow> parse_step (default_env h s) i st = Inr (False, st\<lparr>encodeCheck := 1\<rparr>)"
    and "i < length s \<Longrightarrow> is_hex (s ! i) \<Longrightarrow> encodeCheck st = 1 \<Longrightarrow>
      parse_step (default_env h s) i st = Inr (False, st\<lparr>encodeCheck := 2\<rparr>)"
    and "i < length s \<Longrightarrow> is_hex (s ! i) \<Longrightarrow> encodeCheck st = 2 \<Longrightarrow>
      parse_step (default_env h s) i st = Inr (False, st\<lparr>encodeCheck := 3, keyEncoded := True\<rparr>)"
proof -
  have l: "length isHexTable = 256" by (simp add: isHexTable_def)
  show "i < length s \<Longrightarrow> s ! i = 37 \<Longrightarrow> parse_step (default_env h s) i st = Inr (False, st\<lparr>encodeCheck := 1\<rparr>)"
    using assms by (cases st) (simp add: parse_step_def parse_plain_def default_env_def encode_check_def)
  show "i < length s \<Longrightarrow> is_hex (s ! i) \<Longrightarrow> encodeCheck st = 1 \<Longrightarrow>
      parse_step (default_env h s) i st = Inr (False, st\<lparr>encodeCheck := 2\<rparr>)"
    "i < length s \<Longrightarrow> is_hex (s ! i) \<Longrightarrow> encodeCheck st = 2 \<Longrightarrow>
      parse_step (default_env h s) i st = Inr (False, st\<lparr>encodeCheck := 3, keyEncoded := True\<rparr>)"
    using assms is_hex_not_special [of "s ! i"] l
    by (cases st; simp add: parse_step_def parse_plain_def default_env_def encode_check_def is_hex_def)+
qed

lemma val_escape_steps:
  assumes "sepIdx st = 0" "eqIdx st = 1" "\<not> valEncoded st"
  shows "i < length s \<Longrightarrow> s ! i = 37 \<Longrightarrow> parse_step (default_env h s) i st = Inr (False, st\<lparr>encodeCheck := 1\<rparr>)"
    and "i < length s \<Longrightarrow> is_hex (s ! i) \<Longrightarrow> encodeCheck st = 1 \<Longrightarrow>
      parse_step (default_env h s) i st = Inr (False, st\<lparr>encodeCheck := 2\<rparr>)"
    and "i < length s \<Longrightarrow> is_hex (s ! i) \<Longrightarrow> encodeCheck st = 2 \<Longrightarrow>
      parse_step (default_env h s) i st = Inr (False, st\<lparr>encodeCheck := 3, valEncoded := True\<rparr>)"
proof -
  have l: "length isHexTable = 256" by (simp add: isHexTable_def)
  show "i < length s \<Longrightarrow> s ! i = 37 \<Longrightarrow> parse_step (default_env h s) i st = Inr (False, st\<lparr>encodeCheck := 1\<rparr>)"
    using assms by (cases st) (simp add: parse_step_def parse_plain_def parse_value_def default_env_def encode_check_def)
  show "i < length s \<Longrightarrow> is_hex (s ! i) \<Longrightarrow> encodeCheck st = 1 \<Longrightarrow>
      parse_step (default_env h s) i st = Inr (False, st\<lparr>encodeCheck := 2\<rparr>)"
    "i < length s \<Longrightarrow> is_hex (s ! i) \<Longrightarrow> encodeCheck st = 2 \<Longrightarrow>
      parse_step (default_env h s) i st = Inr (False, st\<lparr>encodeCheck := 3, valEncoded := True\<rparr>)"
    using assms is_hex_not_special [of "s ! i"] l
    by (cases st; simp add: parse_step_def parse_plain_def parse_value_def default_env_def encode_check_def is_hex_def)+
qed

lemma parse_loop_go:
  "i < length s \<Longrightarrow> parse_step (default_env h s) i st = Inr (False, st') \<Longrightarrow>
     parse_loop (default_env h s) i st = parse_loop (default_env h s) (i + 1) st'"
  by (subst parse_loop.simps) (simp add: default_env_def)

text \<open>A stretch of the string without separators and plus signs.\<close>

lemma scan_plain:
  assumes "list_all (\<lambda>c. c \<noteq> 38 \<and> c \<noteq> 61 \<and> c \<noteq> 43) t" "sepIdx st = 0" "eqIdx st \<le> 1"
  shows "\<exists>st'. parse_loop (default_env h (a @ t @ b)) (length a) st = parse_loop (default_env h (a @ t @ b)) (length (a @ t)) st'
    \<and> flags_up st st'"
  using assms
proof (induction t arbitrary: a st)
  case Nil
  then show ?case using flags_up_refl by auto
next
  case (Cons c t)
  have c: "length a < length (a @ (c # t) @ b)" "(a @ (c # t) @ b) ! length a = c" by simp_all
  obtain st1 where s1: "parse_step (default_env h (a @ (c # t) @ b)) (length a) st = Inr (False, st1)" "flags_up st st1"
    using step_plain [OF c, of st h] Cons.prems by auto
  have f: "sepIdx st1 = 0" "eqIdx st1 \<le> 1" using flags_up_fields [OF s1(2)] Cons.prems by auto
  obtain st2 where "parse_loop (default_env h ((a @ [c]) @ t @ b)) (length (a @ [c])) st1
      = parse_loop (default_env h ((a @ [c]) @ t @ b)) (length ((a @ [c]) @ t)) st2" "flags_up st1 st2"
    using Cons.IH [of st1 "a @ [c]"] Cons.prems(1) f by auto
  then show ?case using parse_loop_go [OF c(1) s1(1)] flags_up_trans [OF s1(2)] by auto
qed

text \<open>Three steps over an escape.\<close>

lemma scan_escape:
  fixes a b x y
  defines "s \<equiv> a @ [37, x, y] @ b"
  assumes "is_hex x" "is_hex y" "sepIdx st = 0" "eqIdx st \<le> 1"
  shows "\<exists>st'. parse_loop (default_env h s) (length a) st = parse_loop (default_env h s) (length a + 3) st'
    \<and> flags_up st st' \<and> (eqIdx st = 0 \<longrightarrow> keyEncoded st') \<and> (eqIdx st = 1 \<longrightarrow> valEncoded st')"
proof -
  have at: "length a < length s" "s ! length a = 37" "length a + 1 < length s" "s ! (length a + 1) = x"
    "length a + 1 + 1 < length s" "s ! (length a + 1 + 1) = y" by (simp_all add: s_def nth_append)
  show ?thesis
  proof (cases "eqIdx st = 0 \<and> keyEncoded st \<or> eqIdx st = 1 \<and> valEncoded st")
    case True
    have "list_all (\<lambda>c. c \<noteq> 38 \<and> c \<noteq> 61 \<and> c \<noteq> 43) [37, x, y]"
      using is_hex_not_special [OF assms(2)] is_hex_not_special [OF assms(3)] by simp
    from scan_plain [OF this assms(4,5), of h a b] show ?thesis
      using True flags_up_fields unfolding s_def by (auto simp: eval_nat_numeral)
  next
    case key: False
    let ?s1 = "st\<lparr>encodeCheck := 1\<rparr>" and ?s2 = "st\<lparr>encodeCheck := 1, encodeCheck := 2\<rparr>"
    show ?thesis
    proof (cases "eqIdx st = 0")
      case True
      then have k: "\<not> keyEncoded st" using key by simp
      let ?s3 = "?s2\<lparr>encodeCheck := 3, keyEncoded := True\<rparr>"
      have "parse_loop (default_env h s) (length a) st = parse_loop (default_env h s) (length a + 1 + 1 + 1) ?s3"
        using parse_loop_go [OF at(1) key_escape_steps(1) [OF assms(4) True k at(1,2)], of h]
          parse_loop_go [OF at(3) key_escape_steps(2) [of ?s1, OF _ _ _ at(3)], of h]
          parse_loop_go [OF at(5) key_escape_steps(3) [of ?s2, OF _ _ _ at(5)], of h] assms(2-4) True k at(4,6) by simp
      moreover have "flags_up st ?s3" using k by (cases st) (simp add: flags_up_def)
      ultimately show ?thesis using True by (intro exI [of _ ?s3]) (simp add: eval_nat_numeral)
    next
      case False
      then have v: "eqIdx st = 1" "\<not> valEncoded st" using key assms(5) by auto
      let ?s3 = "?s2\<lparr>encodeCheck := 3, valEncoded := True\<rparr>"
      have "parse_loop (default_env h s) (length a) st = parse_loop (default_env h s) (length a + 1 + 1 + 1) ?s3"
        using parse_loop_go [OF at(1) val_escape_steps(1) [OF assms(4) v at(1,2)], of h]
          parse_loop_go [OF at(3) val_escape_steps(2) [of ?s1, OF _ _ _ at(3)], of h]
          parse_loop_go [OF at(5) val_escape_steps(3) [of ?s2, OF _ _ _ at(5)], of h] assms(2-4) v at(4,6) by simp
      moreover have "flags_up st ?s3" using v by (cases st) (simp add: flags_up_def)
      ultimately show ?thesis using v by (intro exI [of _ ?s3]) (simp add: eval_nat_numeral)
    qed
  qed
qed

text \<open>A key or a value in encoded form: only the flags change, and an escape sets the right one.\<close>

lemma scan_text:
  assumes "escaped_text t" "sepIdx st = 0" "eqIdx st \<le> 1"
  shows "\<exists>st'. parse_loop (default_env h (a @ t @ b)) (length a) st = parse_loop (default_env h (a @ t @ b)) (length (a @ t)) st'
    \<and> flags_up st st' \<and> (37 \<in> set t \<longrightarrow> (eqIdx st = 0 \<longrightarrow> keyEncoded st') \<and> (eqIdx st = 1 \<longrightarrow> valEncoded st'))"
  using assms
proof (induction t arbitrary: a st rule: length_induct)
  case (1 t)
  have IH: "\<exists>st'. parse_loop (default_env h (a' @ u @ b)) (length a') st1 = parse_loop (default_env h (a' @ u @ b)) (length (a' @ u)) st'
    \<and> flags_up st1 st' \<and> (37 \<in> set u \<longrightarrow> (eqIdx st1 = 0 \<longrightarrow> keyEncoded st') \<and> (eqIdx st1 = 1 \<longrightarrow> valEncoded st'))"
    if "length u < length t" "escaped_text u" "sepIdx st1 = 0" "eqIdx st1 \<le> 1" for u a' st1
    using 1(1) that by blast
  show ?case
  proof (cases t)
    case Nil
    then show ?thesis using flags_up_refl by auto
  next
    case (Cons c u)
    show ?thesis
    proof (cases "c = 37")
      case True
      then obtain x y v where u: "u = x # y # v" "is_hex x" "is_hex y" "escaped_text v"
        using 1(2) Cons by (auto split: list.splits)
      obtain st1 where s1: "parse_loop (default_env h (a @ t @ b)) (length a) st = parse_loop (default_env h (a @ t @ b)) (length a + 3) st1"
        "flags_up st st1" "eqIdx st = 0 \<longrightarrow> keyEncoded st1" "eqIdx st = 1 \<longrightarrow> valEncoded st1"
        using scan_escape [OF u(2,3) 1(3,4), of h a "v @ b"] Cons True u(1) by auto
      note f = flags_up_fields [OF s1(2)]
      obtain st2 where "parse_loop (default_env h ((a @ [37, x, y]) @ v @ b)) (length (a @ [37, x, y])) st1
          = parse_loop (default_env h ((a @ [37, x, y]) @ v @ b)) (length ((a @ [37, x, y]) @ v)) st2" "flags_up st1 st2"
        using IH [of v st1 "a @ [37, x, y]"] Cons u f 1(3,4) by auto
      then show ?thesis using s1 flags_up_trans [OF s1(2)] flags_up_fields [of st1 st2] Cons True u(1)
        by (intro exI [of _ st2]) (simp add: eval_nat_numeral)
    next
      case False
      then have c: "list_all (\<lambda>c. c \<noteq> 38 \<and> c \<noteq> 61 \<and> c \<noteq> 43) [c]" "escaped_text u"
        using 1(2) Cons unreserved_not_special [of c] by auto
      obtain st1 where s1: "parse_loop (default_env h (a @ t @ b)) (length a) st = parse_loop (default_env h (a @ t @ b)) (length (a @ [c])) st1"
        "flags_up st st1" using scan_plain [OF c(1) 1(3,4), of h a "u @ b"] Cons by auto
      note f = flags_up_fields [OF s1(2)]
      obtain st2 where "parse_loop (default_env h ((a @ [c]) @ u @ b)) (length (a @ [c])) st1
          = parse_loop (default_env h ((a @ [c]) @ u @ b)) (length ((a @ [c]) @ u)) st2" "flags_up st1 st2"
          "37 \<in> set u \<longrightarrow> (eqIdx st1 = 0 \<longrightarrow> keyEncoded st2) \<and> (eqIdx st1 = 1 \<longrightarrow> valEncoded st2)"
        using IH [of u st1 "a @ [c]"] Cons c f 1(3,4) by auto
      then show ?thesis using s1(1) flags_up_trans [OF s1(2)] f Cons False by (intro exI [of _ st2]) auto
    qed
  qed
qed

subsection \<open>Pairs\<close>

text \<open>Adding a decoded pair to the object.\<close>

definition put :: "js_string \<times> js_string \<Rightarrow> qs_obj \<Rightarrow> qs_obj" where
  "put p obj = (case p of (k, v) \<Rightarrow>
     AList.update k (case map_of obj k of None \<Rightarrow> QStr v | Some (QArr vs) \<Rightarrow> QArr (vs @ [v]) | Some (QStr u) \<Rightarrow> QArr [u, v]) obj)"

lemma addKeyVal_put:
  assumes "wf16 k" "wf16 v" "37 \<in> set (pct k) \<longrightarrow> ke" "37 \<in> set (pct v) \<longrightarrow> ve"
  shows "addKeyVal obj (pct k) (pct v) ke ve (qsUnescape h) = Inr (put (k, v) obj)"
proof -
  have dec: "(if length (pct t) > 0 \<and> e then qsUnescape h (pct t) else Inr (pct t)) = Inr t"
    if "wf16 t" "37 \<in> set (pct t) \<longrightarrow> e" for t e
  proof (cases "length (pct t) > 0 \<and> e")
    case True
    then show ?thesis using decode_pct [OF that(1)] by (simp add: qsUnescape_def)
  next
    case False
    then have "37 \<notin> set (pct t)" using that(2) by auto
    then have "pct t = t" using decode_pct [OF that(1)] decode_identity [of "pct t"] by simp
    then show ?thesis using False by auto
  qed
  show ?thesis unfolding addKeyVal_def dec [OF assms(1,3)] dec [OF assms(2,4)] bindE.simps
    by (auto simp: put_def split: option.splits qs_value.splits)
qed

definition pair_text :: "js_string \<times> js_string \<Rightarrow> js_string" where
  "pair_text p = (case p of (k, v) \<Rightarrow> pct k @ [61] @ pct v)"

text \<open>The state at the start of a pair at index \<open>i\<close>, and before its end.\<close>

definition at_pair :: "parse_state \<Rightarrow> nat \<Rightarrow> bool" where
  "at_pair st i \<longleftrightarrow> lastPos st = i \<and> sepIdx st = 0 \<and> eqIdx st = 0 \<and> qkey st = [] \<and> qval st = []"

definition in_value :: "parse_state \<Rightarrow> parse_state \<Rightarrow> js_string \<Rightarrow> js_string \<Rightarrow> nat \<Rightarrow> bool" where
  "in_value st st' k v i \<longleftrightarrow> qobj st' = qobj st \<and> pairs st' = pairs st \<and> lastPos st' = i \<and> sepIdx st' = 0
     \<and> eqIdx st' = 1 \<and> qkey st' = k \<and> qval st' = [] \<and> (37 \<in> set k \<longrightarrow> keyEncoded st') \<and> (37 \<in> set v \<longrightarrow> valEncoded st')"

lemma scan_pair:
  assumes "escaped_text k" "escaped_text v" "at_pair st (length a)"
  shows "\<exists>st'. parse_loop (default_env h (a @ k @ [61] @ v @ b)) (length a) st
      = parse_loop (default_env h (a @ k @ [61] @ v @ b)) (length (a @ k @ [61] @ v)) st'
    \<and> in_value st st' k v (length (a @ k @ [61]))"
proof -
  let ?s = "a @ k @ [61] @ v @ b"
  obtain s1 where s1: "parse_loop (default_env h ?s) (length a) st = parse_loop (default_env h ?s) (length (a @ k)) s1"
    "flags_up st s1" "37 \<in> set k \<longrightarrow> keyEncoded s1"
    using scan_text [OF assms(1), of st h a "[61] @ v @ b"] assms(3) by (auto simp: at_pair_def)
  note f1 = flags_up_fields [OF s1(2)]
  have at: "length (a @ k) < length ?s" "?s ! length (a @ k) = 61" by (simp_all add: nth_append)
  let ?s2 = "s1\<lparr>eqIdx := 1, qkey := k, encodeCheck := 0, lastPos := length (a @ k) + 1\<rparr>"
  have key: "js_slice ?s (int (length a)) (int (length (a @ k))) = k" by (subst js_slice_nat) simp_all
  have "parse_step (default_env h ?s) (length (a @ k)) s1 = Inr (False, ?s2)"
    using f1 assms(3) at key
    by (cases s1) (auto simp: parse_step_def parse_plain_def default_env_def at_pair_def Let_def)
  note s2 = parse_loop_go [OF at(1) this]
  have "sepIdx ?s2 = 0" "eqIdx ?s2 \<le> 1" "eqIdx ?s2 = 1" using f1 assms(3) by (simp_all add: at_pair_def)
  from scan_text [OF assms(2) this(1,2), of h "a @ k @ [61]" b] this(3) obtain s3 where
    s3: "parse_loop (default_env h ?s) (length (a @ k @ [61])) ?s2 = parse_loop (default_env h ?s) (length (a @ k @ [61] @ v)) s3"
    "flags_up ?s2 s3" "37 \<in> set v \<longrightarrow> valEncoded s3" by auto
  have "in_value st s3 k v (length (a @ k @ [61]))"
    using f1 flags_up_fields [OF s3(2)] assms(3) s1(3) s3(3) by (auto simp: in_value_def at_pair_def)
  moreover have "parse_loop (default_env h ?s) (length a) st = parse_loop (default_env h ?s) (length (a @ k @ [61] @ v)) s3"
    using s1(1) s2 s3(1) by simp
  ultimately show ?thesis by blast
qed

definition parse_rest :: "parse_env \<Rightarrow> nat \<Rightarrow> parse_state \<Rightarrow> qs_obj result" where
  "parse_rest env i st =
     bindE (parse_loop env i st) (\<lambda>(returned, st). if returned then Inr (qobj st) else parse_leftover env st)"

lemma parse_last_pair:
  assumes "wf16 k" "wf16 v" "at_pair st (length a)"
  shows "parse_rest (default_env h (a @ pair_text (k, v))) (length a) st = Inr (put (k, v) (qobj st))"
proof -
  let ?s = "a @ pct k @ [61] @ pct v"
  obtain st' where s: "parse_loop (default_env h ?s) (length a) st = parse_loop (default_env h ?s) (length ?s) st'"
    "in_value st st' (pct k) (pct v) (length (a @ pct k @ [61]))"
    using scan_pair [OF pct_escaped [OF assms(1)] pct_escaped [OF assms(2)] assms(3), of h "[]"] by auto
  have "parse_loop (default_env h ?s) (length ?s) st' = Inr (False, st')"
    by (subst parse_loop.simps) (simp add: default_env_def)
  moreover have "parse_leftover (default_env h ?s) st'
      = addKeyVal (qobj st) (pct k) (pct v) (keyEncoded st') (valEncoded st') (qsUnescape h)"
    using s(2) js_slice_from_nat [of "length (a @ pct k @ [61])" ?s]
    by (cases "pct v = []") (simp_all add: parse_leftover_def default_env_def in_value_def Let_def)
  ultimately show ?thesis
    using s addKeyVal_put [OF assms(1,2), of "keyEncoded st'" "valEncoded st'" "qobj st" h]
    by (simp add: parse_rest_def pair_text_def in_value_def)
qed

lemma parse_next_pair:
  assumes "wf16 k" "wf16 v" "at_pair st (length a)" "pairs st = num_nat (Suc n)"
  shows "\<exists>st'. parse_rest (default_env h (a @ pair_text (k, v) @ [38] @ b)) (length a) st
      = (if n = 0 then Inr (put (k, v) (qobj st))
         else parse_rest (default_env h (a @ pair_text (k, v) @ [38] @ b)) (length (a @ pair_text (k, v) @ [38])) st')
    \<and> at_pair st' (length (a @ pair_text (k, v) @ [38])) \<and> pairs st' = num_nat n \<and> qobj st' = put (k, v) (qobj st)"
proof -
  let ?s = "a @ pct k @ [61] @ pct v @ [38] @ b" and ?e = "a @ pct k @ [61] @ pct v"
  obtain st1 where s: "parse_loop (default_env h ?s) (length a) st = parse_loop (default_env h ?s) (length ?e) st1"
    "in_value st st1 (pct k) (pct v) (length (a @ pct k @ [61]))"
    using scan_pair [OF pct_escaped [OF assms(1)] pct_escaped [OF assms(2)] assms(3), of h "[38] @ b"] by auto
  have at: "length ?e < length ?s" "?s ! length ?e = 38" by (simp_all add: nth_append)
  have val: "js_slice ?s (int (length (a @ pct k @ [61]))) (int (length ?e)) = pct v" by (subst js_slice_nat) simp_all
  note put = addKeyVal_put [OF assms(1,2), of "keyEncoded st1" "valEncoded st1" "qobj st" h]
  let ?u = "st1\<lparr>sepIdx := 1, qval := pct v, qobj := put (k, v) (qobj st)\<rparr>"
  let ?w = "?u\<lparr>qkey := [], qval := [], encodeCheck := 0, lastPos := length ?e + 1, sepIdx := 0, eqIdx := 0, pairs := num_nat n\<rparr>"
  have "parse_step (default_env h ?s) (length ?e) st1
      = Inr (if n = 0 then (True, ?u\<lparr>pairs := num_nat n\<rparr>) else (False, ?w))"
    using s(2) at val put assms(4)
    by (cases st1) (auto simp: parse_step_def parse_separator_def default_env_def in_value_def count_pair_def Let_def)
  then have "parse_loop (default_env h ?s) (length ?e) st1
      = (if n = 0 then Inr (True, ?u\<lparr>pairs := num_nat n\<rparr>) else parse_loop (default_env h ?s) (length ?e + 1) ?w)"
    using at(1) by (subst parse_loop.simps) (simp add: default_env_def)
  then show ?thesis using s(1)
    by (intro exI [of _ ?w]) (simp add: parse_rest_def pair_text_def at_pair_def)
qed

lemma parse_pairs:
  assumes "list_all (\<lambda>(k, v). wf16 k \<and> wf16 v) fs" "fs \<noteq> []" "at_pair st (length a)" "pairs st = num_nat n" "0 < n"
  shows "parse_rest (default_env h (a @ js_join [38] (map pair_text fs))) (length a) st = Inr (fold put (take n fs) (qobj st))"
  using assms
proof (induction fs arbitrary: a st n)
  case (Cons f fs)
  obtain k v where f: "f = (k, v)" by (cases f)
  have wf: "wf16 k" "wf16 v" using Cons.prems(1) f by auto
  obtain m where n: "n = Suc m" using Cons.prems(5) gr0_implies_Suc by blast
  show ?case
  proof (cases "fs = []")
    case True
    then show ?thesis using parse_last_pair [OF wf Cons.prems(3)] f n by simp
  next
    case False
    let ?b = "js_join [38] (map pair_text fs)"
    have s: "a @ js_join [38] (map pair_text (f # fs)) = a @ pair_text (k, v) @ [38] @ ?b" using False f by (simp add: js_join_Cons)
    obtain st' where st': "parse_rest (default_env h (a @ pair_text (k, v) @ [38] @ ?b)) (length a) st
        = (if m = 0 then Inr (put (k, v) (qobj st))
           else parse_rest (default_env h (a @ pair_text (k, v) @ [38] @ ?b)) (length (a @ pair_text (k, v) @ [38])) st')"
      "at_pair st' (length (a @ pair_text (k, v) @ [38]))" "pairs st' = num_nat m" "qobj st' = put (k, v) (qobj st)"
      using parse_next_pair [OF wf Cons.prems(3) Cons.prems(4) [unfolded n], of h ?b] by blast
    show ?thesis
    proof (cases "m = 0")
      case True
      then show ?thesis unfolding s st'(1) using n f by simp
    next
      case m: False
      have "parse_rest (default_env h ((a @ pair_text (k, v) @ [38]) @ ?b)) (length (a @ pair_text (k, v) @ [38])) st'
          = Inr (fold put (take m fs) (qobj st'))"
        using Cons.IH [OF _ False st'(2,3)] Cons.prems(1) m by simp
      then show ?thesis unfolding s st'(1) using m n f st'(4) by simp
    qed
  qed
qed simp

subsection \<open>Text of an object\<close>

fun pairs_of :: "qs_obj \<Rightarrow> (js_string \<times> js_string) list" where
  "pairs_of [] = []"
| "pairs_of ((k, QStr v) # ps) = (k, v) # pairs_of ps"
| "pairs_of ((k, QArr vs) # ps) = map (Pair k) vs @ pairs_of ps"

fun to_prop :: "qs_value \<Rightarrow> qs_prop" where
  "to_prop (QStr v) = Prim (PStr v)"
| "to_prop (QArr vs) = PArr (map PStr vs)"

fun wf_value :: "qs_value \<Rightarrow> bool" where
  "wf_value (QStr v) = wf16 v"
| "wf_value (QArr vs) = (2 \<le> length vs \<and> list_all wf16 vs)"

abbreviation conv_default :: "(js_num \<Rightarrow> js_string) \<Rightarrow> qs_prim \<Rightarrow> js_string result" where
  "conv_default numStr v \<equiv> encodeStringified numStr v qsEscape"

lemma conv_pct: "wf16 s \<Longrightarrow> conv_default numStr (PStr s) = Inr (pct s)"
  by (simp add: encodeStringified_def qsEscape_pct)

lemma pair_text_nonempty [simp]: "pair_text p \<noteq> []"
  by (cases p) (simp add: pair_text_def)

lemma join_pairs_Nil: "js_join [38] (map pair_text fs) = [] \<longleftrightarrow> fs = []"
  by (cases fs) (simp_all add: js_join_Cons)

definition glue :: "js_string \<Rightarrow> js_string \<Rightarrow> js_string" where
  "glue out t = (if t = [] then out else if out = [] then t else out @ [38] @ t)"

lemma stringify_array_text:
  assumes "list_all wf16 vs"
  shows "stringify_array (conv_default numStr) [38] (pct k @ [61]) j (map PStr vs) out
    = Inr (if j = 0 then out @ js_join [38] (map pair_text (map (Pair k) vs))
           else out @ (if vs = [] then [] else [38]) @ js_join [38] (map pair_text (map (Pair k) vs)))"
  using assms
proof (induction vs arbitrary: j out)
  case (Cons v vs)
  have t: "pct k @ [61] @ pct v = pair_text (k, v)" by (simp add: pair_text_def)
  show ?case using Cons conv_pct [of v numStr] t
    by (cases "vs = []") (auto simp: js_join_Cons pair_text_def)
qed simp

lemma stringify_loop_text:
  assumes "list_all (\<lambda>(k, v). wf16 k \<and> wf_value v) ps"
  shows "stringify_loop (conv_default numStr) [38] [61] (map (map_prod id to_prop) ps) out
    = Inr (glue out (js_join [38] (map pair_text (pairs_of ps))))"
  using assms
proof (induction ps arbitrary: out rule: pairs_of.induct)
  case (2 k v ps)
  then have c: "conv_default numStr (PStr k) = Inr (pct k)" "conv_default numStr (PStr v) = Inr (pct v)"
    by (auto intro: conv_pct)
  have "pair_text (k, v) = pct k @ [61] @ pct v" by (simp add: pair_text_def)
  then show ?case using 2 c by (auto simp: glue_def js_join_Cons join_pairs_Nil Let_def)
next
  case (3 k vs ps)
  then have c: "conv_default numStr (PStr k) = Inr (pct k)" "list_all wf16 vs" "vs \<noteq> []"
    by (auto intro: conv_pct)
  have "js_join [38] (map pair_text (map (Pair k) vs)) \<noteq> []" using c(3) by (simp only: join_pairs_Nil) simp
  moreover have "js_join [38] (map pair_text (pairs_of ((k, QArr vs) # ps)))
      = (if pairs_of ps = [] then js_join [38] (map pair_text (map (Pair k) vs))
         else js_join [38] (map pair_text (map (Pair k) vs)) @ [38] @ js_join [38] (map pair_text (pairs_of ps)))"
    using c(3) by (simp add: js_join_append)
  ultimately show ?case using 3 c stringify_array_text [OF c(2), of numStr k 0]
    by (auto simp: glue_def join_pairs_Nil Let_def)
qed (simp add: glue_def)

lemma update_end: "map_of obj k = None \<Longrightarrow> AList.update k v obj = obj @ [(k, v)]"
  by (induction obj) (auto split: if_splits)

lemma update_last: "k \<notin> fst ` set obj \<Longrightarrow> AList.update k v (obj @ [(k, u)]) = obj @ [(k, v)]"
  by (induction obj) auto

lemma map_of_last: "k \<notin> fst ` set obj \<Longrightarrow> map_of (obj @ [(k, u)]) k = Some u"
  by (simp add: map_add_def flip: map_of_eq_None_iff)

lemma put_array:
  "k \<notin> fst ` set obj \<Longrightarrow> fold put (map (Pair k) vs) (obj @ [(k, QArr us)]) = obj @ [(k, QArr (us @ vs))]"
  by (induction vs arbitrary: us) (simp_all add: put_def map_of_last update_last del: map_of_append)

lemma put_pairs_of:
  assumes "list_all (\<lambda>(k, v). wf16 k \<and> wf_value v) ps" "distinct (map fst (obj @ ps))"
  shows "fold put (pairs_of ps) obj = obj @ ps"
  using assms
proof (induction ps arbitrary: obj rule: pairs_of.induct)
  case (2 k v ps)
  then have "map_of obj k = None" by (auto simp: map_of_eq_None_iff)
  then show ?case using 2(1) [of "obj @ [(k, QStr v)]"] 2(2,3) by (simp add: put_def update_end)
next
  case (3 k vs ps)
  then obtain u w us where vs: "vs = u # w # us" by (cases vs; cases "tl vs") auto
  have k: "k \<notin> fst ` set obj" "map_of obj k = None" using 3(3) by (auto simp: map_of_eq_None_iff)
  have "fold put (map (Pair k) vs) obj = obj @ [(k, QArr vs)]"
    using k put_array [of k obj us "[u, w]"] vs by (simp add: put_def update_end update_last map_of_last del: map_of_append)
  then show ?case using 3(1) [of "obj @ [(k, QArr vs)]"] 3(2,3) by simp
qed simp

subsection \<open>Properties\<close>

lemma encode_loop_lone:
  assumes "wf16 rest" "0xD800 \<le> c" "c < 0xE000"
  shows "encode_loop (pre @ rest @ [c]) noEscape hexTable (length pre) lp out = Inl ERR_INVALID_URI"
  using assms(1)
proof (induction rest arbitrary: pre lp out rule: length_induct)
  case (1 rest)
  show ?case
  proof (cases rest)
    case Nil
    then show ?thesis using encode_loop_step(4) [of "length pre" "pre @ [c]" c] assms(2,3) by simp
  next
    case (Cons d s)
    let ?str = "pre @ d # s @ [c]"
    have at: "length pre < length ?str" "?str ! length pre = d" by simp_all
    note step = encode_loop_step [OF at]
    have IH: "encode_loop (pre' @ t @ [c]) noEscape hexTable (length pre') lp' out' = Inl ERR_INVALID_URI"
      if "length t < length rest" "wf16 t" for t pre' lp' out' using 1(1) that by blast
    consider (plain) "unreserved d" | (unit) "\<not> unreserved d" "d < 0xD800 \<or> 0xE000 \<le> d \<and> d < 0x10000"
      | (pair) "0xD800 \<le> d" "d < 0xE000" using wf16_unit [of d s] 1(2) Cons by blast
    then show ?thesis
    proof cases
      case plain
      then have "wf16 s" using wf16_single 1(2) Cons unreserved_small by blast
      then show ?thesis using IH [of s "pre @ [d]"] Cons step(1) [OF plain] by simp
    next
      case unit
      then have "wf16 s" using wf16_single 1(2) Cons by blast
      then show ?thesis using IH [of s "pre @ [d]"] Cons step(2) [OF unit] by simp
    next
      case pair
      then obtain e t where "s = e # t" "wf16 t" using wf16_pair 1(2) Cons by metis
      then show ?thesis using IH [of t "pre @ [d, e]"] Cons step(3) [OF pair] by simp
    qed
  qed
qed

text \<open>C40. Percent-encoding: the escaped form of a well-formed string consists of unreserved
  characters and escapes only, and \<^verbatim>\<open>unescape\<close> gives the string back; a string that ends in a lone
  surrogate is refused with \<^verbatim>\<open>ERR_INVALID_URI\<close>.\<close>

theorem escape_round_trip:
  assumes "wf16 s"
  shows "(\<exists>t. qsEscape s = Inr t \<and> escaped_text t \<and> qsUnescape h t = Inr s)
    \<and> (0xD800 \<le> c \<and> c < 0xE000 \<longrightarrow> qsEscape (s @ [c]) = Inl ERR_INVALID_URI)"
proof (intro conjI impI)
  show "\<exists>t. qsEscape s = Inr t \<and> escaped_text t \<and> qsUnescape h t = Inr s"
    using assms by (simp add: qsEscape_pct pct_escaped decode_pct qsUnescape_def)
  assume "0xD800 \<le> c \<and> c < 0xE000"
  then show "qsEscape (s @ [c]) = Inl ERR_INVALID_URI"
    using encode_loop_lone [OF assms, of c "[]" 0 "[]"] by (simp add: qsEscape_def encodeStr_def)
qed

theorem escape_round_trip_witness:
  "(\<exists>t. qsEscape [97, 38, 233, 8364, 0xD83D, 0xDE00] = Inr t \<and> escaped_text t
      \<and> qsUnescape ascii_host t = Inr [97, 38, 233, 8364, 0xD83D, 0xDE00])
    \<and> qsEscape ([97, 38, 233, 8364, 0xD83D, 0xDE00] @ [0xD800]) = Inl ERR_INVALID_URI"
proof -
  have "wf16 [97, 38, 233, 8364, 0xD83D, 0xDE00]" by simp
  from escape_round_trip [OF this, where h = ascii_host and c = "0xD800"] show ?thesis by simp
qed

text \<open>C12. \<^verbatim>\<open>parse\<close> inverts \<^verbatim>\<open>stringify\<close>: for an object with distinct keys whose values are
  well-formed strings and arrays of at least two of them, parsing its query string with the default
  separators gives the object, and when there are more pairs than \<^verbatim>\<open>maxKeys\<close>, the pairs up to that
  number.\<close>

theorem parse_stringify:
  assumes "list_all (\<lambda>(k, v). wf16 k \<and> wf_value v) ps" "distinct (map fst ps)" "0 < n"
  shows "\<exists>t. qs_stringify numStr (Some (map (map_prod id to_prop) ps)) [] [] None = Inr t
    \<and> qs_parse h (Some t) [] [] None (Some (num_nat n)) = Inr (fold put (take n (pairs_of ps)) [])
    \<and> (length (pairs_of ps) \<le> n \<longrightarrow> qs_parse h (Some t) [] [] None (Some (num_nat n)) = Inr ps)"
proof -
  let ?t = "js_join [38] (map pair_text (pairs_of ps))"
  have "js ''&'' = [38]" "js ''='' = [61]" by code_simp+
  then have tx: "qs_stringify numStr (Some (map (map_prod id to_prop) ps)) [] [] None = Inr ?t"
    using stringify_loop_text [OF assms(1), of numStr "[]"] by (simp add: qs_stringify_def glue_def)
  have wf: "list_all (\<lambda>(k, v). wf16 k \<and> wf16 v) (pairs_of ps)"
    using assms(1) by (induction ps rule: pairs_of.induct) (auto simp: list_all_iff)
  have "qs_parse h (Some ?t) [] [] None (Some (num_nat n)) = Inr (fold put (take n (pairs_of ps)) [])"
  proof (cases "pairs_of ps = []")
    case True
    then show ?thesis by (simp add: qs_parse_def)
  next
    case False
    let ?st = "\<lparr>qobj = [], pairs = num_nat n, lastPos = 0, sepIdx = 0, eqIdx = 0, qkey = [], qval = [],
      keyEncoded = False, valEncoded = False, encodeCheck = 0\<rparr>"
    have "parse_rest (default_env h ?t) 0 ?st = Inr (fold put (take n (pairs_of ps)) [])"
      using parse_pairs [OF wf False, of ?st "[]" n h] assms(3) by (simp add: at_pair_def)
    then show ?thesis using False assms(3)
      by (simp add: qs_parse_def parse_rest_def default_env_def join_pairs_Nil Let_def)
  qed
  moreover have "fold put (pairs_of ps) [] = ps" using put_pairs_of [OF assms(1), of "[]"] assms(2) by simp
  ultimately have "length (pairs_of ps) \<le> n \<longrightarrow> qs_parse h (Some ?t) [] [] None (Some (num_nat n)) = Inr ps"
    and "qs_parse h (Some ?t) [] [] None (Some (num_nat n)) = Inr (fold put (take n (pairs_of ps)) [])" by simp_all
  then show ?thesis using tx by blast
qed

theorem parse_stringify_witness:
  "\<exists>t. qs_stringify (\<lambda>_. []) (Some [(js ''a'', Prim (PStr (js ''1 2''))), (js ''b&'', PArr [PStr (js ''x''), PStr (js ''='')])])
      [] [] None = Inr t
    \<and> qs_parse ascii_host (Some t) [] [] None (Some (num_nat 1000))
      = Inr [(js ''a'', QStr (js ''1 2'')), (js ''b&'', QArr [js ''x'', js ''=''])]"
proof -
  let ?ps = "[(js ''a'', QStr (js ''1 2'')), (js ''b&'', QArr [js ''x'', js ''=''])]"
  have "js ''a'' = [97]" "js ''1 2'' = [49, 32, 50]" "js ''b&'' = [98, 38]" "js ''x'' = [120]" "js ''='' = [61]"
    by code_simp+
  then have wf: "list_all (\<lambda>(k, v). wf16 k \<and> wf_value v) ?ps" by simp
  have d: "distinct (map fst ?ps)" by code_simp
  have n: "0 < (1000 :: nat)" by simp
  obtain t where t: "qs_stringify (\<lambda>_. []) (Some (map (map_prod id to_prop) ?ps)) [] [] None = Inr t"
    "length (pairs_of ?ps) \<le> 1000 \<longrightarrow> qs_parse ascii_host (Some t) [] [] None (Some (num_nat 1000)) = Inr ?ps"
    using parse_stringify [OF wf d n, of "\<lambda>_. []" ascii_host] by blast
  have "length (pairs_of ?ps) \<le> 1000" "map (map_prod id to_prop) ?ps
      = [(js ''a'', Prim (PStr (js ''1 2''))), (js ''b&'', PArr [PStr (js ''x''), PStr (js ''='')])]" by simp_all
  then show ?thesis using t by metis
qed

text \<open>The flags for encoded keys and values are not reset between pairs, so whether an unescaped
  percent sign is decoded depends on the pairs before it.\<close>

lemma parse_flags_kept:
  "parse_separator env i st = Inr (b, st') \<Longrightarrow> keyEncoded st' = keyEncoded st \<and> valEncoded st' = valEncoded st"
  by (auto simp: parse_separator_def count_pair_def Let_def split: if_splits)

end
