(* ===== verification/Events.thy ===== *)
theory Events
  imports Next_Tick Js_Number "HOL-Library.AList"
begin

text \<open>
  \<^verbatim>\<open>_events.mjs\<close>: one \<^verbatim>\<open>EventEmitter\<close> with its listeners. Objects that the code shares
  by reference are in explicit stores: the objects that \<^verbatim>\<open>_events\<close> has pointed to, the arrays of
  listeners, and the states of the wrappers made by \<^verbatim>\<open>once\<close>. Listeners are user code that may
  call the methods of the emitter again. Every operation takes the method \<^verbatim>\<open>emit\<close> it calls
  (\<^verbatim>\<open>this.emit\<close>) as an argument; \<open>emit\<close> ties the knot with fuel for the depth of nested
  emissions, and the result is \<^const>\<open>None\<close> when it does not suffice. Rejections of promises are not
  captured (the default), so results of listeners are dropped.
\<close>

subsection \<open>State\<close>

datatype evt = EName js_string | ESym nat

definition kErrorMonitor :: evt where "kErrorMonitor = ESym 0"

text \<open>A function value: a function of the user, or a wrapper given by the index of its state.\<close>

datatype 'f fn = User 'f | Wrap nat

datatype 'f handler = One "'f fn" | Arr nat

record ('f, 'w) emitter =
  objs :: "(evt \<times> 'f handler) list list"
  ev_obj :: "nat option"
  eventsCount :: int
  arrs :: "('f fn list \<times> bool) list"
  wraps :: "(bool \<times> evt \<times> 'f) list"
  maxListeners :: "js_num option"
  defaultMaxListeners :: js_num
  warnings :: "(evt \<times> nat) list"
  ew :: 'w

text \<open>Arguments of listeners; exceptions; how a call ends.\<close>

datatype ('f, 'a) earg = AVal 'a | AEvt evt | AFn "'f fn"

datatype ('f, 'a) exn = Thrown "('f, 'a) earg" | Unhandled "('f, 'a) earg option" | NodeExn node_error

datatype ('f, 'a) outcome = Ok bool | Exc "('f, 'a) exn"

text \<open>User code: it ends, throws, reads or writes the state of the user's program, or calls a method and goes on with how
  that call ended.\<close>

datatype ('f, 'a, 'w) eprog =
    EReturn
  | EThrow "('f, 'a) earg"
  | EGet "'w \<Rightarrow> ('f, 'a, 'w) eprog"
  | EPut 'w "('f, 'a, 'w) eprog"
  | CallOn bool evt "'f fn js_callback" "('f, 'a) outcome \<Rightarrow> ('f, 'a, 'w) eprog"
  | CallOnce bool evt "'f js_callback" "('f, 'a) outcome \<Rightarrow> ('f, 'a, 'w) eprog"
  | CallOff evt "'f fn js_callback" "('f, 'a) outcome \<Rightarrow> ('f, 'a, 'w) eprog"
  | CallOffAll "evt option" "('f, 'a) outcome \<Rightarrow> ('f, 'a, 'w) eprog"
  | CallEmit evt "('f, 'a) earg list" "('f, 'a) outcome \<Rightarrow> ('f, 'a, 'w) eprog"
  | CallRawListeners evt "'f fn list \<Rightarrow> ('f, 'a, 'w) eprog"

type_synonym ('f, 'a, 's) ran = "('s \<times> ('f, 'a) outcome) option"
type_synonym ('f, 'a, 's) emit_fn = "'s \<Rightarrow> evt \<Rightarrow> ('f, 'a) earg list \<Rightarrow> ('f, 'a, 's) ran"
type_synonym ('f, 'a, 'w) listener_code = "'f \<Rightarrow> ('f, 'a) earg list \<Rightarrow> ('f, 'a, 'w) eprog"

text \<open>Sequencing: an exception skips the rest.\<close>

fun bindR :: "('f, 'a, 's) ran \<Rightarrow> ('s \<Rightarrow> ('f, 'a, 's) ran) \<Rightarrow> ('f, 'a, 's) ran" where
  "bindR None k = None"
| "bindR (Some (s, Exc e)) k = Some (s, Exc e)"
| "bindR (Some (s, Ok b)) k = k s"

abbreviation done_with :: "bool \<Rightarrow> 's \<Rightarrow> ('f, 'a, 's) ran" where
  "done_with b s \<equiv> Some (s, Ok b)"

text \<open>\<^verbatim>\<open>EventEmitter.init\<close> on a fresh object.\<close>

definition new_emitter :: "js_num \<Rightarrow> 'w \<Rightarrow> ('f, 'w) emitter" where
  "new_emitter dflt w = \<lparr>objs = [[]], ev_obj = Some 0, eventsCount = 0, arrs = [], wraps = [], maxListeners = None,
     defaultMaxListeners = dflt, warnings = [], ew = w\<rparr>"

definition handler_of :: "('f, 'w) emitter \<Rightarrow> nat \<Rightarrow> evt \<Rightarrow> 'f handler option" where
  "handler_of st ob t = map_of (objs st ! ob) t"

definition set_prop :: "('f, 'w) emitter \<Rightarrow> nat \<Rightarrow> evt \<Rightarrow> 'f handler \<Rightarrow> ('f, 'w) emitter" where
  "set_prop st ob t x = st\<lparr>objs := (objs st)[ob := AList.update t x (objs st ! ob)]\<rparr>"

definition del_prop :: "('f, 'w) emitter \<Rightarrow> nat \<Rightarrow> evt \<Rightarrow> ('f, 'w) emitter" where
  "del_prop st ob t = st\<lparr>objs := (objs st)[ob := AList.delete t (objs st ! ob)]\<rparr>"

text \<open>\<^verbatim>\<open>this._events = Object.create(null)\<close> with the count 0\<close>

definition fresh_events :: "('f, 'w) emitter \<Rightarrow> ('f, 'w) emitter" where
  "fresh_events st = st\<lparr>objs := objs st @ [[]], ev_obj := Some (length (objs st)), eventsCount := 0\<rparr>"

text \<open>The property \<^verbatim>\<open>listener\<close> of a wrapper; functions of the user have none.\<close>

definition unwrap_fn :: "('f, 'w) emitter \<Rightarrow> 'f fn \<Rightarrow> 'f fn" where
  "unwrap_fn st f = (case f of User u \<Rightarrow> User u | Wrap w \<Rightarrow> User (snd (snd (wraps st ! w))))"

definition same_listener :: "('f, 'w) emitter \<Rightarrow> 'f fn \<Rightarrow> 'f fn \<Rightarrow> bool" where
  "same_listener st l f \<longleftrightarrow> f = l \<or> (case f of User _ \<Rightarrow> False | Wrap w \<Rightarrow> User (snd (snd (wraps st ! w))) = l)"

subsection \<open>Adding\<close>

definition setMaxListeners :: "js_arg \<Rightarrow> ('f, 'w) emitter \<Rightarrow> ('f, 'w) emitter result" where
  "setMaxListeners n st =
     (case n of
        ANum k \<Rightarrow> if num_less k (num_int 0) \<or> k = NaN then Inl (ERR_OUT_OF_RANGE ''n'' (js ''a non-negative number''))
                  else Inr (st\<lparr>maxListeners := Some k\<rparr>)
      | _ \<Rightarrow> Inl (ERR_OUT_OF_RANGE ''n'' (js ''a non-negative number'')))"

definition getMaxListeners :: "('f, 'w) emitter \<Rightarrow> js_num" where
  "getMaxListeners st = (case maxListeners st of None \<Rightarrow> defaultMaxListeners st | Some n \<Rightarrow> n)"

definition check_leak :: "('f, 'w) emitter \<Rightarrow> evt \<Rightarrow> nat \<Rightarrow> ('f, 'w) emitter" where
  "check_leak st t a =
     (case arrs st ! a of (xs, warned) \<Rightarrow>
        if num_less (num_int 0) (getMaxListeners st) \<and> num_less (getMaxListeners st) (num_nat (length xs)) \<and> \<not> warned
        then st\<lparr>arrs := (arrs st)[a := (xs, True)], warnings := warnings st @ [(t, length xs)]\<rparr>
        else st)"

definition add_existing :: "('f, 'w) emitter \<Rightarrow> nat \<Rightarrow> evt \<Rightarrow> 'f fn \<Rightarrow> bool \<Rightarrow> ('f, 'w) emitter" where
  "add_existing st ob t l prepend =
     (case handler_of st ob t of
        None \<Rightarrow> (set_prop st ob t (One l))\<lparr>eventsCount := eventsCount st + 1\<rparr>
      | Some (One e) \<Rightarrow>
          let a = length (arrs st);
              st = (set_prop st ob t (Arr a))\<lparr>arrs := arrs st @ [(if prepend then [l, e] else [e, l], False)]\<rparr>
          in check_leak st t a
      | Some (Arr a) \<Rightarrow>
          (case arrs st ! a of (xs, warned) \<Rightarrow>
             check_leak (st\<lparr>arrs := (arrs st)[a := (if prepend then l # xs else xs @ [l], warned)]\<rparr>) t a))"

definition addListener ::
  "('f, 'a, ('f, 'w) emitter) emit_fn \<Rightarrow> ('f, 'w) emitter \<Rightarrow> evt \<Rightarrow> 'f fn js_callback \<Rightarrow> bool
     \<Rightarrow> ('f, 'a, ('f, 'w) emitter) ran" where
  "addListener em st t cb prepend =
     (case validateFunction cb ''listener'' of
        Inl e \<Rightarrow> Some (st, Exc (NodeExn e))
      | Inr l \<Rightarrow>
          bindR (case ev_obj st of
                   None \<Rightarrow> done_with True (fresh_events st)
                 | Some ob \<Rightarrow>
                     if handler_of st ob (EName (js ''newListener'')) \<noteq> None
                     then em st (EName (js ''newListener'')) [AEvt t, AFn (unwrap_fn st l)]
                     else done_with True st) (\<lambda>st.
            case ev_obj st of
              None \<Rightarrow> Some (st, Exc (NodeExn (TypeError ''events is undefined'')))
            | Some ob \<Rightarrow> done_with True (add_existing st ob t l prepend)))"

text \<open>\<^verbatim>\<open>once\<close> and \<^verbatim>\<open>prependOnceListener\<close>, of functions of the user\<close>

definition onceWrap :: "('f, 'w) emitter \<Rightarrow> evt \<Rightarrow> 'f \<Rightarrow> 'f fn \<times> ('f, 'w) emitter" where
  "onceWrap st t f = (Wrap (length (wraps st)), st\<lparr>wraps := wraps st @ [(False, t, f)]\<rparr>)"

definition once_add ::
  "('f, 'a, ('f, 'w) emitter) emit_fn \<Rightarrow> ('f, 'w) emitter \<Rightarrow> evt \<Rightarrow> 'f js_callback \<Rightarrow> bool
     \<Rightarrow> ('f, 'a, ('f, 'w) emitter) ran" where
  "once_add em st t cb prepend =
     (case validateFunction cb ''listener'' of
        Inl e \<Rightarrow> Some (st, Exc (NodeExn e))
      | Inr f \<Rightarrow> (case onceWrap st t f of (l, st) \<Rightarrow> addListener em st t (Fn l) prepend))"

subsection \<open>Removing\<close>

text \<open>The last index of a listener; \<^verbatim>\<open>spliceOne\<close> of \<^verbatim>\<open>_utils.ts\<close>.\<close>

fun last_position :: "('a \<Rightarrow> bool) \<Rightarrow> 'a list \<Rightarrow> nat \<Rightarrow> nat option" where
  "last_position P xs 0 = None"
| "last_position P xs (Suc i) = (if P (xs ! i) then Some i else last_position P xs i)"

function splice_loop :: "'a list \<Rightarrow> nat \<Rightarrow> 'a list" where
  "splice_loop xs i = (if i + 1 < length xs then splice_loop (xs[i := xs ! (i + 1)]) (i + 1) else xs)"
  by auto
termination by (relation "measure (\<lambda>(xs, i). length xs - i)") auto

declare splice_loop.simps [simp del]

definition spliceOne :: "'a list \<Rightarrow> nat \<Rightarrow> 'a list" where
  "spliceOne xs i = butlast (splice_loop xs i)"

definition removeListener ::
  "('f, 'a, ('f, 'w) emitter) emit_fn \<Rightarrow> ('f, 'w) emitter \<Rightarrow> evt \<Rightarrow> 'f fn js_callback
     \<Rightarrow> ('f, 'a, ('f, 'w) emitter) ran" where
  "removeListener em st t cb =
     (case validateFunction cb ''listener'' of
        Inl e \<Rightarrow> Some (st, Exc (NodeExn e))
      | Inr l \<Rightarrow>
        (case ev_obj st of
           None \<Rightarrow> done_with True st
         | Some ob \<Rightarrow>
           (case handler_of st ob t of
              None \<Rightarrow> done_with True st
            | Some (One f) \<Rightarrow>
                if same_listener st l f then
                  if eventsCount st - 1 = 0 then done_with True (fresh_events st)
                  else
                    let st = del_prop (st\<lparr>eventsCount := eventsCount st - 1\<rparr>) ob t in
                    if handler_of st ob (EName (js ''removeListener'')) \<noteq> None then
                      em st (EName (js ''removeListener''))
                        [AEvt t, AFn (case f of User _ \<Rightarrow> l | Wrap _ \<Rightarrow> unwrap_fn st f)]
                    else done_with True st
                else done_with True st
            | Some (Arr a) \<Rightarrow>
                (case arrs st ! a of (xs, warned) \<Rightarrow>
                 (case last_position (same_listener st l) xs (length xs) of
                    None \<Rightarrow> done_with True st
                  | Some p \<Rightarrow>
                      let ys = (if p = 0 then tl xs else spliceOne xs p);
                          st = st\<lparr>arrs := (arrs st)[a := (ys, warned)]\<rparr>;
                          st = (if length ys = 1 then set_prop st ob t (One (ys ! 0)) else st)
                      in if handler_of st ob (EName (js ''removeListener'')) \<noteq> None
                         then em st (EName (js ''removeListener'')) [AEvt t, AFn l]
                         else done_with True st)))))"

text \<open>\<^verbatim>\<open>removeAllListeners(type)\<close>. The loop reads the array as it is at each pass; an index that
  has gone beyond its end gives undefined.\<close>

fun remove_array ::
  "('f, 'a, ('f, 'w) emitter) emit_fn \<Rightarrow> evt \<Rightarrow> nat \<Rightarrow> nat \<Rightarrow> ('f, 'w) emitter \<Rightarrow> ('f, 'a, ('f, 'w) emitter) ran" where
  "remove_array em t a 0 st = done_with True st"
| "remove_array em t a (Suc i) st =
     (let xs = fst (arrs st ! a);
          cb = (if i < length xs then Fn (xs ! i) else NotFn TUndefined)
      in bindR (removeListener em st t cb) (\<lambda>st. remove_array em t a i st))"

definition remove_all_type ::
  "('f, 'a, ('f, 'w) emitter) emit_fn \<Rightarrow> evt \<Rightarrow> ('f, 'w) emitter \<Rightarrow> ('f, 'a, ('f, 'w) emitter) ran" where
  "remove_all_type em t st =
     (case ev_obj st of
        None \<Rightarrow> done_with True st
      | Some ob \<Rightarrow>
          if handler_of st ob (EName (js ''removeListener'')) = None then
            if handler_of st ob t \<noteq> None then
              if eventsCount st - 1 = 0 then done_with True (fresh_events st)
              else done_with True (del_prop (st\<lparr>eventsCount := eventsCount st - 1\<rparr>) ob t)
            else done_with True st
          else
            (case handler_of st ob t of
               None \<Rightarrow> done_with True st
             | Some (One f) \<Rightarrow> bindR (removeListener em st t (Fn f)) (done_with True)
             | Some (Arr a) \<Rightarrow> remove_array em t a (length (fst (arrs st ! a))) st))"

fun remove_keys ::
  "('f, 'a, ('f, 'w) emitter) emit_fn \<Rightarrow> evt list \<Rightarrow> ('f, 'w) emitter \<Rightarrow> ('f, 'a, ('f, 'w) emitter) ran" where
  "remove_keys em [] st = done_with True st"
| "remove_keys em (k # ks) st =
     (if k = EName (js ''removeListener'') then remove_keys em ks st
      else bindR (remove_all_type em k st) (\<lambda>st. remove_keys em ks st))"

text \<open>\<^verbatim>\<open>Reflect.ownKeys\<close>: the names that are array indices in ascending order, then the other
  strings and then the symbols, both in the order of insertion. An array index is the decimal numeral of a number below
  \<open>2^32 - 1\<close>, with no leading zero.\<close>

definition array_index :: "js_string \<Rightarrow> nat option" where
  "array_index s =
     (let n = foldl (\<lambda>n c. 10 * n + (c - 48)) 0 s
      in if s \<noteq> [] \<and> list_all (\<lambda>c. 48 \<le> c \<and> c \<le> 57) s \<and> (hd s = 48 \<longrightarrow> s = [48]) \<and> n < 2 ^ 32 - 1
         then Some n else None)"

definition key_index :: "evt \<Rightarrow> nat option" where
  "key_index k = (case k of EName s \<Rightarrow> array_index s | ESym _ \<Rightarrow> None)"

definition is_symbol :: "evt \<Rightarrow> bool" where
  "is_symbol k = (case k of EName _ \<Rightarrow> False | ESym _ \<Rightarrow> True)"

definition own_keys :: "(evt \<times> 'f handler) list \<Rightarrow> evt list" where
  "own_keys ps =
     (let ks = map fst ps
      in sort_key (\<lambda>k. the (key_index k)) (filter (\<lambda>k. key_index k \<noteq> None) ks)
         @ filter (\<lambda>k. key_index k = None \<and> \<not> is_symbol k) ks
         @ filter (\<lambda>k. key_index k = None \<and> is_symbol k) ks)"

definition removeAllListeners ::
  "('f, 'a, ('f, 'w) emitter) emit_fn \<Rightarrow> ('f, 'w) emitter \<Rightarrow> evt option \<Rightarrow> ('f, 'a, ('f, 'w) emitter) ran" where
  "removeAllListeners em st which =
     (case which of
        Some t \<Rightarrow> remove_all_type em t st
      | None \<Rightarrow>
          (case ev_obj st of
             None \<Rightarrow> done_with True st
           | Some ob \<Rightarrow>
               if handler_of st ob (EName (js ''removeListener'')) = None then done_with True (fresh_events st)
               else bindR (remove_keys em (own_keys (objs st ! ob)) st) (\<lambda>st.
                    bindR (remove_all_type em (EName (js ''removeListener'')) st) (\<lambda>st.
                      done_with True (fresh_events st)))))"

subsection \<open>Reading\<close>

definition rawListeners :: "('f, 'w) emitter \<Rightarrow> evt \<Rightarrow> 'f fn list" where
  "rawListeners st t =
     (case ev_obj st of
        None \<Rightarrow> []
      | Some ob \<Rightarrow> (case handler_of st ob t of
          None \<Rightarrow> [] | Some (One f) \<Rightarrow> [f] | Some (Arr a) \<Rightarrow> fst (arrs st ! a)))"

definition listeners :: "('f, 'w) emitter \<Rightarrow> evt \<Rightarrow> 'f fn list" where
  "listeners st t = map (unwrap_fn st) (rawListeners st t)"

definition listenerCount :: "('f, 'w) emitter \<Rightarrow> evt \<Rightarrow> nat" where
  "listenerCount st t =
     (case ev_obj st of
        None \<Rightarrow> 0
      | Some ob \<Rightarrow> (case handler_of st ob t of
          None \<Rightarrow> 0 | Some (One f) \<Rightarrow> 1 | Some (Arr a) \<Rightarrow> length (fst (arrs st ! a))))"

definition eventNames :: "('f, 'w) emitter \<Rightarrow> evt list" where
  "eventNames st =
     (if eventsCount st > 0 then (case ev_obj st of None \<Rightarrow> [] | Some ob \<Rightarrow> own_keys (objs st ! ob)) else [])"

subsection \<open>Emitting\<close>

primrec run_eprog ::
  "('f, 'a, ('f, 'w) emitter) emit_fn \<Rightarrow> ('f, 'a, 'w) eprog \<Rightarrow> ('f, 'w) emitter \<Rightarrow> ('f, 'a, ('f, 'w) emitter) ran" where
  "run_eprog em EReturn st = done_with True st"
| "run_eprog em (EThrow x) st = Some (st, Exc (Thrown x))"
| "run_eprog em (EGet k) st = run_eprog em (k (ew st)) st"
| "run_eprog em (EPut w p) st = run_eprog em p (st\<lparr>ew := w\<rparr>)"
| "run_eprog em (CallOn prepend t cb k) st =
     (case addListener em st t cb prepend of None \<Rightarrow> None | Some (st, r) \<Rightarrow> run_eprog em (k r) st)"
| "run_eprog em (CallOnce prepend t cb k) st =
     (case once_add em st t cb prepend of None \<Rightarrow> None | Some (st, r) \<Rightarrow> run_eprog em (k r) st)"
| "run_eprog em (CallOff t cb k) st =
     (case removeListener em st t cb of None \<Rightarrow> None | Some (st, r) \<Rightarrow> run_eprog em (k r) st)"
| "run_eprog em (CallOffAll which k) st =
     (case removeAllListeners em st which of None \<Rightarrow> None | Some (st, r) \<Rightarrow> run_eprog em (k r) st)"
| "run_eprog em (CallEmit t as k) st =
     (case em st t as of None \<Rightarrow> None | Some (st, r) \<Rightarrow> run_eprog em (k r) st)"
| "run_eprog em (CallRawListeners t k) st = run_eprog em (k (rawListeners st t)) st"

text \<open>Calling a function: \<^verbatim>\<open>onceWrapper\<close> for a wrapper.\<close>

definition call_fn ::
  "('f, 'a, ('f, 'w) emitter) emit_fn \<Rightarrow> ('f, 'a, 'w) listener_code \<Rightarrow> ('f, 'w) emitter \<Rightarrow> 'f fn
     \<Rightarrow> ('f, 'a) earg list \<Rightarrow> ('f, 'a, ('f, 'w) emitter) ran" where
  "call_fn em user st f as =
     (case f of
        User u \<Rightarrow> run_eprog em (user u as) st
      | Wrap w \<Rightarrow>
          (case wraps st ! w of (fired, t, u) \<Rightarrow>
             if fired then done_with True st
             else bindR (removeListener em st t (Fn (Wrap w))) (\<lambda>st.
               let st = st\<lparr>wraps := (wraps st)[w := (True, t, u)]\<rparr>
               in run_eprog em (user u as) st)))"

fun call_all ::
  "('f, 'a, ('f, 'w) emitter) emit_fn \<Rightarrow> ('f, 'a, 'w) listener_code \<Rightarrow> ('f, 'w) emitter \<Rightarrow> 'f fn list
     \<Rightarrow> ('f, 'a) earg list \<Rightarrow> ('f, 'a, ('f, 'w) emitter) ran" where
  "call_all em user st [] as = done_with True st"
| "call_all em user st (f # fs) as = bindR (call_fn em user st f as) (\<lambda>st. call_all em user st fs as)"

definition error_exn :: "(('f, 'a) earg \<Rightarrow> bool) \<Rightarrow> ('f, 'a) earg list \<Rightarrow> ('f, 'a) exn" where
  "error_exn isError as =
     (case as of [] \<Rightarrow> Unhandled None | er # _ \<Rightarrow> if isError er then Thrown er else Unhandled (Some er))"

definition emit_body ::
  "('f, 'a, ('f, 'w) emitter) emit_fn \<Rightarrow> (('f, 'a) earg \<Rightarrow> bool) \<Rightarrow> ('f, 'a, 'w) listener_code
     \<Rightarrow> ('f, 'a, ('f, 'w) emitter) emit_fn" where
  "emit_body em isError user st t as =
     (let doError = (t = EName (js ''error'')) in
      case ev_obj st of
        None \<Rightarrow> if doError then Some (st, Exc (error_exn isError as)) else done_with False st
      | Some ob \<Rightarrow>
          bindR (if doError \<and> handler_of st ob kErrorMonitor \<noteq> None then em st kErrorMonitor as
                 else done_with True st) (\<lambda>st.
            if doError \<and> handler_of st ob (EName (js ''error'')) = None then Some (st, Exc (error_exn isError as))
            else case handler_of st ob t of
                   None \<Rightarrow> done_with False st
                 | Some (One f) \<Rightarrow> bindR (call_fn em user st f as) (done_with True)
                 | Some (Arr a) \<Rightarrow> bindR (call_all em user st (fst (arrs st ! a)) as) (done_with True)))"

fun emit :: "(('f, 'a) earg \<Rightarrow> bool) \<Rightarrow> ('f, 'a, 'w) listener_code \<Rightarrow> nat \<Rightarrow> ('f, 'a, ('f, 'w) emitter) emit_fn" where
  "emit isError user 0 st t as = None"
| "emit isError user (Suc n) st t as = emit_body (emit isError user n) isError user st t as"

end
