(* ===== verification/Events_Laws.thy ===== *)
theory Events_Laws
  imports Events "HOL-Library.Multiset"
begin

text \<open>
  The bookkeeping of an emitter is consistent after any sequence of calls, whatever its listeners do,
  and the emitter behaves as one that keeps a plain list of listeners for every event.
\<close>

subsection \<open>Well-formed emitters\<close>

definition obj_ok :: "nat \<Rightarrow> (evt \<times> 'f handler) list \<Rightarrow> bool" where
  "obj_ok n ps \<longleftrightarrow> distinct (map fst ps) \<and> (\<forall>t a. (t, Arr a) \<in> set ps \<longrightarrow> a < n)"

text \<open>The object in use: arrays have two entries or more and belong to one event.\<close>

definition use_ok :: "'f fn list list \<Rightarrow> (evt \<times> 'f handler) list \<Rightarrow> bool" where
  "use_ok ls ps \<longleftrightarrow> (\<forall>t a. (t, Arr a) \<in> set ps \<longrightarrow> 2 \<le> length (ls ! a))
     \<and> (\<forall>t t' a. (t, Arr a) \<in> set ps \<and> (t', Arr a) \<in> set ps \<longrightarrow> t = t')"

definition parts_ok :: "(evt \<times> 'f handler) list list \<Rightarrow> nat option \<Rightarrow> int \<Rightarrow> 'f fn list list \<Rightarrow> bool" where
  "parts_ok os ob cnt ls \<longleftrightarrow> (\<forall>ps\<in>set os. obj_ok (length ls) ps)
     \<and> (case ob of None \<Rightarrow> False | Some b \<Rightarrow> b < length os \<and> cnt = int (length (os ! b)) \<and> use_ok ls (os ! b))"

definition emitter_wf :: "('f, 'w) emitter \<Rightarrow> bool" where
  "emitter_wf st \<longleftrightarrow> parts_ok (objs st) (ev_obj st) (eventsCount st) (map fst (arrs st))"

lemma emitter_wf_obj:
  assumes "emitter_wf st" "ev_obj st = Some ob"
  shows "ob < length (objs st)" "obj_ok (length (arrs st)) (objs st ! ob)" "eventsCount st = int (length (objs st ! ob))"
    and "use_ok (map fst (arrs st)) (objs st ! ob)"
  using assms by (auto simp: emitter_wf_def parts_ok_def)

lemma handler_in:
  assumes "emitter_wf st" "ev_obj st = Some ob"
  shows "handler_of st ob t = Some x \<longleftrightarrow> (t, x) \<in> set (objs st ! ob)"
  using emitter_wf_obj(2) [OF assms] by (simp add: handler_of_def obj_ok_def map_of_eq_Some_iff)

lemma handler_arr:
  assumes "emitter_wf st" "ev_obj st = Some ob" "handler_of st ob t = Some (Arr a)"
  shows "a < length (arrs st)" "2 \<le> length (fst (arrs st ! a))"
    and "handler_of st ob t' = Some (Arr a) \<Longrightarrow> t' = t"
proof -
  note h = assms(3) [unfolded handler_in [OF assms(1,2)]]
  show a: "a < length (arrs st)" using emitter_wf_obj(2) [OF assms(1,2)] h by (auto simp: obj_ok_def)
  have "2 \<le> length (map fst (arrs st) ! a)" using emitter_wf_obj(4) [OF assms(1,2)] h unfolding use_ok_def by blast
  then show "2 \<le> length (fst (arrs st ! a))" using a by simp
  show "handler_of st ob t' = Some (Arr a) \<Longrightarrow> t' = t"
    unfolding handler_in [OF assms(1,2)] using emitter_wf_obj(4) [OF assms(1,2)] h unfolding use_ok_def by blast
qed

lemma wf_parts_change:
  assumes "emitter_wf st" "objs st' = objs st" "ev_obj st' = ev_obj st" "eventsCount st' = eventsCount st"
    and "map fst (arrs st') = map fst (arrs st)"
  shows "emitter_wf st'" "rawListeners st' = rawListeners st"
proof -
  show "emitter_wf st'" using assms by (simp add: emitter_wf_def)
  have l: "length (arrs st') = length (arrs st)" using assms(5) by (metis length_map)
  have "fst (arrs st' ! a) = fst (arrs st ! a)" if "a < length (arrs st)" for a
    using assms(5) that l by (metis nth_map)
  then show "rawListeners st' = rawListeners st"
    using handler_arr(1) [OF assms(1)] assms(2,3)
    by (auto simp: rawListeners_def handler_of_def fun_eq_iff split: option.splits handler.splits)
qed

lemma check_leak_parts:
  "objs (check_leak st t a) = objs st" "ev_obj (check_leak st t a) = ev_obj st"
  "eventsCount (check_leak st t a) = eventsCount st" "map fst (arrs (check_leak st t a)) = map fst (arrs st)"
  "wraps (check_leak st t a) = wraps st" "ew (check_leak st t a) = ew st"
proof -
  have "map fst (arrs st) = (map fst (arrs st))[a := fst (arrs st ! a)]"
    by (cases "a < length (arrs st)") (simp_all add: list_update_same_conv [THEN iffD2] flip: map_update)
  then show "map fst (arrs (check_leak st t a)) = map fst (arrs st)"
    by (auto simp: check_leak_def map_update split: prod.splits)
qed (auto simp: check_leak_def split: prod.splits)

lemma raw_Some: "ev_obj st = Some ob \<Longrightarrow> rawListeners st t
    = (case handler_of st ob t of None \<Rightarrow> [] | Some (One f) \<Rightarrow> [f] | Some (Arr a) \<Rightarrow> fst (arrs st ! a))"
  by (simp add: rawListeners_def)

lemma raw_Nil_iff:
  assumes "emitter_wf st" "ev_obj st = Some ob"
  shows "rawListeners st t = [] \<longleftrightarrow> handler_of st ob t = None"
  using handler_arr(2) [OF assms] by (fastforce simp: raw_Some [OF assms(2)] split: option.splits handler.splits)

lemma wf_fresh:
  assumes "emitter_wf st"
  shows "emitter_wf (fresh_events st)" "rawListeners (fresh_events st) = (\<lambda>_. [])"
  using assms by (auto simp: emitter_wf_def parts_ok_def fresh_events_def obj_ok_def use_ok_def rawListeners_def handler_of_def
    nth_append)

lemma fresh_parts: "wraps (fresh_events st) = wraps st" "ew (fresh_events st) = ew st"
  by (simp_all add: fresh_events_def)

lemma update_new: "map_of ps t = None \<Longrightarrow> AList.update t x ps = ps @ [(t, x)]"
  by (induction ps) (auto split: if_splits)

lemma update_same_keys: "map_of ps t = Some y \<Longrightarrow> map fst (AList.update t x ps) = map fst ps"
  by (induction ps) (auto split: if_splits)

lemma set_update_old:
  assumes "distinct (map fst ps)"
  shows "set (AList.update t x ps) = {(t', y) \<in> set ps. t' \<noteq> t} \<union> {(t, x)}"
  using assms by (induction ps) (auto simp: image_iff)

lemma set_prop_simps [simp]:
  "objs (set_prop st ob t x) = (objs st)[ob := AList.update t x (objs st ! ob)]" "ev_obj (set_prop st ob t x) = ev_obj st"
  "eventsCount (set_prop st ob t x) = eventsCount st" "arrs (set_prop st ob t x) = arrs st"
  "wraps (set_prop st ob t x) = wraps st" "ew (set_prop st ob t x) = ew st"
  by (simp_all add: set_prop_def)

lemma del_prop_simps [simp]:
  "objs (del_prop st ob t) = (objs st)[ob := AList.delete t (objs st ! ob)]" "ev_obj (del_prop st ob t) = ev_obj st"
  "eventsCount (del_prop st ob t) = eventsCount st" "arrs (del_prop st ob t) = arrs st"
  "wraps (del_prop st ob t) = wraps st" "ew (del_prop st ob t) = ew st"
  by (simp_all add: del_prop_def)

text \<open>Changing the object in use, with more room for arrays.\<close>

lemma wf_change_obj:
  assumes "emitter_wf st" "ev_obj st = Some ob" "objs st' = (objs st)[ob := ps]" "ev_obj st' = Some ob"
    and "eventsCount st' = int (length ps)" "length (arrs st) \<le> length (arrs st')"
    and "obj_ok (length (arrs st')) ps" "use_ok (map fst (arrs st')) ps"
  shows "emitter_wf st'"
proof -
  have "obj_ok (length (arrs st')) qs" if "qs \<in> set (objs st)" for qs
    using assms(1,6) that by (fastforce simp: emitter_wf_def parts_ok_def obj_ok_def)
  moreover have "set (objs st') \<subseteq> insert ps (set (objs st))" using assms(3) by (simp add: set_update_subset_insert)
  ultimately show ?thesis using assms emitter_wf_obj(1) [OF assms(1,2)] by (auto simp: emitter_wf_def parts_ok_def)
qed

lemma handler_change:
  "ob < length (objs st) \<Longrightarrow> objs st' = (objs st)[ob := ps] \<Longrightarrow> handler_of st' ob t = map_of ps t"
  by (simp add: handler_of_def)

definition added :: "bool \<Rightarrow> 'f fn \<Rightarrow> 'f fn list \<Rightarrow> 'f fn list" where
  "added prepend l xs = (if prepend then l # xs else xs @ [l])"

lemma add_first:
  fixes l
  assumes wf: "emitter_wf st" and ob: "ev_obj st = Some ob" and h: "handler_of st ob t = None"
  defines "st' \<equiv> (set_prop st ob t (One l))\<lparr>eventsCount := eventsCount st + 1\<rparr>"
  shows "emitter_wf st'" "rawListeners st' = (rawListeners st)(t := [l])"
proof -
  note o = emitter_wf_obj [OF wf ob]
  let ?ps = "objs st ! ob"
  have up: "AList.update t (One l) ?ps = ?ps @ [(t, One l)]" using h by (simp add: handler_of_def update_new)
  have n: "t \<notin> fst ` set ?ps" using h by (simp add: handler_of_def map_of_eq_None_iff)
  show "emitter_wf st'"
  proof (rule wf_change_obj [OF wf ob, of _ "?ps @ [(t, One l)]"])
    show "obj_ok (length (arrs st')) (?ps @ [(t, One l)])" using o(2) n by (simp add: obj_ok_def st'_def)
    show "use_ok (map fst (arrs st')) (?ps @ [(t, One l)])" using o(4) by (simp add: use_ok_def st'_def)
  qed (use ob o(3) up in \<open>simp_all add: st'_def\<close>)
  have "handler_of st' ob u = (if u = t then Some (One l) else handler_of st ob u)" for u
    using o(1) by (simp add: handler_of_def st'_def update_conv')
  moreover have "ev_obj st' = Some ob" "arrs st' = arrs st" using ob by (simp_all add: st'_def)
  ultimately show "rawListeners st' = (rawListeners st)(t := [l])"
    by (auto simp: raw_Some [OF ob] raw_Some [of st' ob] fun_eq_iff split: option.splits handler.splits)
qed

lemma add_second:
  fixes wd
  assumes wf: "emitter_wf st" and ob: "ev_obj st = Some ob" and h: "handler_of st ob t = Some (One e)" and xs: "length xs = 2"
  defines "st' \<equiv> (set_prop st ob t (Arr (length (arrs st))))\<lparr>arrs := arrs st @ [(xs, wd)]\<rparr>"
  shows "emitter_wf st'" "rawListeners st' = (rawListeners st)(t := xs)"
proof -
  note o = emitter_wf_obj [OF wf ob]
  let ?ps = "objs st ! ob" and ?a = "length (arrs st)"
  let ?qs = "AList.update t (Arr ?a) ?ps"
  have d: "distinct (map fst ?ps)" using o(2) by (simp add: obj_ok_def)
  have s: "(u, Arr b) \<in> set ?qs \<longleftrightarrow> (u \<noteq> t \<and> (u, Arr b) \<in> set ?ps \<or> u = t \<and> b = ?a)" for u b
    unfolding set_update_old [OF d] by auto
  have k: "map fst ?qs = map fst ?ps" using h by (simp add: handler_of_def update_same_keys)
  then have len: "length ?qs = length ?ps" by (metis length_map)
  have small: "b < ?a" if "(u, Arr b) \<in> set ?ps" for u b using o(2) that unfolding obj_ok_def by blast
  have big: "2 \<le> length (map fst (arrs st) ! b)" if "(u, Arr b) \<in> set ?ps" for u b using o(4) that unfolding use_ok_def by blast
  have inj: "u = v" if "(u, Arr b) \<in> set ?ps" "(v, Arr b) \<in> set ?ps" for u v b using o(4) that unfolding use_ok_def by blast
  show "emitter_wf st'"
  proof (rule wf_change_obj [OF wf ob, of _ ?qs])
    show "obj_ok (length (arrs st')) ?qs" using k d s small unfolding obj_ok_def st'_def by (auto intro: less_SucI)
    have "2 \<le> length (map fst (arrs st') ! b)" if "(u, Arr b) \<in> set ?qs" for u b
      using that xs small big unfolding s st'_def by (fastforce simp: nth_append)
    moreover have "u = v" if "(u, Arr b) \<in> set ?qs" "(v, Arr b) \<in> set ?qs" for u v b
      using that small inj unfolding s by blast
    ultimately show "use_ok (map fst (arrs st')) ?qs" unfolding use_ok_def by blast
  qed (use ob o(3) len in \<open>simp_all add: st'_def\<close>)
  have hd: "handler_of st' ob u = (if u = t then Some (Arr ?a) else handler_of st ob u)" for u
    using o(1) by (simp add: handler_of_def st'_def update_conv')
  have "fst (arrs st' ! b) = fst (arrs st ! b)" if "handler_of st ob u = Some (Arr b)" for u b
    using handler_arr(1) [OF wf ob that] by (simp add: st'_def nth_append)
  moreover have "ev_obj st' = Some ob" "fst (arrs st' ! ?a) = xs" using ob by (simp_all add: st'_def)
  ultimately show "rawListeners st' = (rawListeners st)(t := xs)"
    using hd by (auto simp: raw_Some [OF ob] raw_Some [of st' ob] fun_eq_iff split: option.splits handler.splits)
qed

text \<open>The array of an event gets other contents.\<close>

lemma change_array:
  fixes wd
  assumes wf: "emitter_wf st" and ob: "ev_obj st = Some ob" and h: "handler_of st ob t = Some (Arr a)" and xs: "2 \<le> length xs"
  defines "st' \<equiv> st\<lparr>arrs := (arrs st)[a := (xs, wd)]\<rparr>"
  shows "emitter_wf st'" "rawListeners st' = (rawListeners st)(t := xs)"
proof -
  note o = emitter_wf_obj [OF wf ob] and a = handler_arr [OF wf ob h]
  let ?ps = "objs st ! ob"
  show "emitter_wf st'"
  proof (rule wf_change_obj [OF wf ob, of _ ?ps])
    have big: "2 \<le> length (map fst (arrs st) ! b)" if "(u, Arr b) \<in> set ?ps" for u b
      using o(4) that unfolding use_ok_def by blast
    have "map fst (arrs st') ! b = (if b = a then xs else map fst (arrs st) ! b)" for b
      using a(1) by (simp add: st'_def map_update nth_list_update)
    then have "2 \<le> length (map fst (arrs st') ! b)" if "(u, Arr b) \<in> set ?ps" for u b
      using big [OF that] xs by simp
    then show "use_ok (map fst (arrs st')) ?ps" using o(4) unfolding use_ok_def by blast
  qed (use ob o(2,3) in \<open>simp_all add: st'_def\<close>)
  have s: "ev_obj st' = Some ob" "handler_of st' ob u = handler_of st ob u" for u using ob by (simp_all add: st'_def handler_of_def)
  have n: "fst (arrs st' ! b) = (if b = a then xs else fst (arrs st ! b))" for b using a(1) by (simp add: st'_def nth_list_update)
  show "rawListeners st' = (rawListeners st)(t := xs)"
  proof
    fix u
    show "rawListeners st' u = ((rawListeners st)(t := xs)) u"
    proof (cases "u = t")
      case True
      then show ?thesis using h s n by (simp add: raw_Some [OF s(1)])
    next
      case False
      then have "handler_of st ob u \<noteq> Some (Arr a)" using a(3) by blast
      then show ?thesis using False n
        by (auto simp: raw_Some [OF ob] raw_Some [OF s(1)] s(2) split: option.splits handler.splits)
    qed
  qed
qed

lemma add_existing_wf:
  assumes wf: "emitter_wf st" and ob: "ev_obj st = Some ob"
  shows "emitter_wf (add_existing st ob t l prepend)
    \<and> rawListeners (add_existing st ob t l prepend) = (rawListeners st)(t := added prepend l (rawListeners st t))"
proof (cases "handler_of st ob t")
  case None
  then show ?thesis using add_first [OF wf ob None] by (simp add: add_existing_def added_def raw_Some [OF ob])
next
  case (Some x)
  note leak = wf_parts_change [OF _ check_leak_parts(1-4)]
  show ?thesis
  proof (cases x)
    case (One e)
    let ?xs = "if prepend then [l, e] else [e, l]"
    let ?st = "(set_prop st ob t (Arr (length (arrs st))))\<lparr>arrs := arrs st @ [(?xs, False)]\<rparr>"
    have "length ?xs = 2" by simp
    note w = add_second [OF wf ob Some [unfolded One] this, of False]
    have "add_existing st ob t l prepend = check_leak ?st t (length (arrs st))"
      using Some One by (simp add: add_existing_def Let_def)
    moreover have "added prepend l (rawListeners st t) = ?xs" using Some One by (simp add: raw_Some [OF ob] added_def)
    ultimately show ?thesis using leak [OF w(1)] w(2) by simp
  next
    case (Arr a)
    obtain xs wd where a: "arrs st ! a = (xs, wd)" by fastforce
    let ?xs = "if prepend then l # xs else xs @ [l]"
    have "2 \<le> length ?xs" using handler_arr(2) [OF wf ob Some [unfolded Arr]] a by simp
    note w = change_array [OF wf ob Some [unfolded Arr] this, of wd]
    have "add_existing st ob t l prepend = check_leak (st\<lparr>arrs := (arrs st)[a := (?xs, wd)]\<rparr>) t a"
      using Some Arr a by (simp add: add_existing_def)
    moreover have "added prepend l (rawListeners st t) = ?xs" using Some Arr a by (simp add: raw_Some [OF ob] added_def)
    ultimately show ?thesis using leak [OF w(1)] w(2) by simp
  qed
qed

lemma add_existing_other:
  "wraps (add_existing st ob t l prepend) = wraps st" "ew (add_existing st ob t l prepend) = ew st"
  by (auto simp: add_existing_def check_leak_parts Let_def split: option.splits handler.splits prod.splits)

subsection \<open>Removing\<close>

lemma collapse_array:
  fixes y ys wd
  assumes wf: "emitter_wf st" and ob: "ev_obj st = Some ob" and h: "handler_of st ob t = Some (Arr a)"
  defines "st' \<equiv> set_prop (st\<lparr>arrs := (arrs st)[a := (ys, wd)]\<rparr>) ob t (One y)"
  shows "emitter_wf st'" "rawListeners st' = (rawListeners st)(t := [y])"
proof -
  note o = emitter_wf_obj [OF wf ob] and a = handler_arr [OF wf ob h]
  let ?ps = "objs st ! ob"
  let ?qs = "AList.update t (One y) ?ps"
  have d: "distinct (map fst ?ps)" using o(2) by (simp add: obj_ok_def)
  have s: "(u, Arr b) \<in> set ?qs \<longleftrightarrow> (u \<noteq> t \<and> (u, Arr b) \<in> set ?ps)" for u b
    unfolding set_update_old [OF d] by auto
  have k: "map fst ?qs = map fst ?ps" using h by (simp add: handler_of_def update_same_keys)
  then have len: "length ?qs = length ?ps" by (metis length_map)
  have small: "b < length (arrs st)" if "(u, Arr b) \<in> set ?ps" for u b using o(2) that unfolding obj_ok_def by blast
  have ta: "(t, Arr a) \<in> set ?ps" using h unfolding handler_in [OF wf ob] .
  have inj: "u = v" if "(u, Arr b) \<in> set ?ps" "(v, Arr b) \<in> set ?ps" for u v b using o(4) that unfolding use_ok_def by blast
  have big: "2 \<le> length (map fst (arrs st) ! b)" if "(u, Arr b) \<in> set ?ps" for u b using o(4) that unfolding use_ok_def by blast
  have arr: "map fst (arrs st') ! b = map fst (arrs st) ! b" if "b \<noteq> a" for b
    using that by (simp add: st'_def map_update)
  show "emitter_wf st'"
  proof (rule wf_change_obj [OF wf ob, of _ ?qs])
    show "obj_ok (length (arrs st')) ?qs" using k d s small unfolding obj_ok_def st'_def by auto
    have "2 \<le> length (map fst (arrs st') ! b)" if "(u, Arr b) \<in> set ?qs" for u b
    proof -
      have "b \<noteq> a" using that ta inj unfolding s by blast
      then show ?thesis using arr big that unfolding s by metis
    qed
    moreover have "u = v" if "(u, Arr b) \<in> set ?qs" "(v, Arr b) \<in> set ?qs" for u v b
      using that inj unfolding s by blast
    ultimately show "use_ok (map fst (arrs st')) ?qs" unfolding use_ok_def by blast
  qed (use ob o(3) len in \<open>simp_all add: st'_def\<close>)
  have hd: "handler_of st' ob u = (if u = t then Some (One y) else handler_of st ob u)" for u
    using o(1) by (simp add: handler_of_def st'_def update_conv')
  have e: "ev_obj st' = Some ob" using ob by (simp add: st'_def)
  show "rawListeners st' = (rawListeners st)(t := [y])"
  proof
    fix u
    show "rawListeners st' u = ((rawListeners st)(t := [y])) u"
    proof (cases "u = t")
      case False
      have "arrs st' ! b = arrs st ! b" if "handler_of st ob u = Some (Arr b)" for b
        using a(3) that False by (cases "b = a") (auto simp: st'_def)
      then show ?thesis using False
        by (auto simp: raw_Some [OF ob] raw_Some [OF e] hd split: option.splits handler.splits)
    qed (simp add: raw_Some [OF e] hd)
  qed
qed

lemma delete_key:
  assumes wf: "emitter_wf st" and ob: "ev_obj st = Some ob" and h: "handler_of st ob t = Some x"
  defines "st' \<equiv> del_prop (st\<lparr>eventsCount := eventsCount st - 1\<rparr>) ob t"
  shows "emitter_wf st'" "rawListeners st' = (rawListeners st)(t := [])"
proof -
  note o = emitter_wf_obj [OF wf ob]
  let ?ps = "objs st ! ob"
  let ?qs = "AList.delete t ?ps"
  have d: "distinct (map fst ?ps)" using o(2) by (simp add: obj_ok_def)
  have s: "set ?qs \<subseteq> set ?ps" by (auto simp: AList.delete_eq)
  have k: "map fst ?qs = removeAll t (map fst ?ps)" by (simp add: AList.delete_eq removeAll_filter_not_eq filter_map comp_def case_prod_beta')
  have m: "t \<in> set (map fst ?ps)" using h handler_in [OF wf ob] by force
  have "length (map fst ?qs) = length (map fst ?ps) - 1"
    unfolding k using m d by (simp add: distinct_remove1_removeAll [symmetric] length_remove1)
  moreover have "0 < length ?ps" using m by (cases ?ps) auto
  ultimately have len: "int (length ?qs) = int (length ?ps) - 1" by (simp add: of_nat_diff Suc_le_eq)
  show "emitter_wf st'"
  proof (rule wf_change_obj [OF wf ob, of _ ?qs])
    show "obj_ok (length (arrs st')) ?qs" using o(2) s d unfolding obj_ok_def st'_def k by (auto simp: distinct_removeAll)
    show "use_ok (map fst (arrs st')) ?qs" using o(4) s unfolding use_ok_def st'_def del_prop_simps by (simp, blast)
  qed (use ob o(3) len in \<open>simp_all add: st'_def\<close>)
  have "handler_of st' ob u = (if u = t then None else handler_of st ob u)" for u
    using o(1) by (simp add: handler_of_def st'_def delete_conv')
  moreover have "ev_obj st' = Some ob" "arrs st' = arrs st" using ob by (simp_all add: st'_def)
  ultimately show "rawListeners st' = (rawListeners st)(t := [])"
    by (auto simp: raw_Some [OF ob] raw_Some [of st' ob] fun_eq_iff split: option.splits handler.splits)
qed

lemma only_key:
  assumes wf: "emitter_wf st" and ob: "ev_obj st = Some ob" and h: "handler_of st ob t = Some x" and c: "eventsCount st - 1 = 0"
  shows "(rawListeners st)(t := []) = (\<lambda>_. [])"
proof -
  have "length (objs st ! ob) = 1" using emitter_wf_obj(3) [OF wf ob] c by simp
  then obtain p where p: "objs st ! ob = [p]" by (auto simp: length_Suc_conv)
  then have "handler_of st ob u = None" if "u \<noteq> t" for u
    using that h handler_in [OF wf ob] by (cases p) (auto simp: handler_of_def)
  then show ?thesis by (auto simp: raw_Some [OF ob] fun_eq_iff)
qed

lemma last_position_less: "last_position P xs n = Some p \<Longrightarrow> p < n"
  by (induction n) (auto split: if_splits)

lemma singleton_eq: "length xs = 1 \<Longrightarrow> xs = [xs ! 0]"
  by (cases xs) simp_all

abbreviation without :: "'a list \<Rightarrow> nat \<Rightarrow> 'a list" where
  "without xs p \<equiv> take p xs @ drop (Suc p) xs"

lemma spliceOne_without: "p < length xs \<Longrightarrow> spliceOne xs p = without xs p"
proof (induction xs p rule: splice_loop.induct)
  case (1 xs i)
  show ?case
  proof (cases "i + 1 < length xs")
    case True
    let ?ys = "xs[i := xs ! (i + 1)]"
    have "spliceOne xs i = spliceOne ?ys (i + 1)" using True by (simp add: spliceOne_def splice_loop.simps [of xs i])
    also have "\<dots> = without ?ys (i + 1)" using 1 True by simp
    also have "\<dots> = without xs i" using True by (simp add: take_Suc_conv_app_nth Cons_nth_drop_Suc)
    finally show ?thesis .
  next
    case False
    then have "length xs = Suc i" using 1 by simp
    then show ?thesis by (simp add: spliceOne_def splice_loop.simps [of xs i] butlast_conv_take)
  qed
qed

text \<open>The function that is passed to the listeners of \<^verbatim>\<open>removeListener\<close>.\<close>

definition removed_fn :: "('f, 'w) emitter \<Rightarrow> 'f fn \<Rightarrow> 'f fn list \<Rightarrow> 'f fn" where
  "removed_fn st l xs = (case xs of [Wrap w] \<Rightarrow> unwrap_fn st (Wrap w) | _ \<Rightarrow> l)"

text \<open>What a call that finds the listener at position \<open>p\<close> does, with the state between the removal and the
  emission of \<^verbatim>\<open>removeListener\<close>.\<close>

definition removes where
  "removes em st t l p st' \<longleftrightarrow>
     last_position (same_listener st l) (rawListeners st t) (length (rawListeners st t)) = Some p
   \<and> emitter_wf st' \<and> rawListeners st' = (rawListeners st)(t := without (rawListeners st t) p)
   \<and> wraps st' = wraps st \<and> ew st' = ew st
   \<and> removeListener em st t (Fn l) = (if rawListeners st' (EName (js ''removeListener'')) \<noteq> []
       then em st' (EName (js ''removeListener'')) [AEvt t, AFn (removed_fn st l (rawListeners st t))] else done_with True st')"

lemma removes_last:
  assumes wf: "emitter_wf st" and ob: "ev_obj st = Some ob" and h: "handler_of st ob t = Some (One f)"
    and same: "same_listener st l f" and c: "eventsCount st - 1 = 0"
  shows "removes em st t l 0 (fresh_events st)"
proof -
  have xs: "rawListeners st t = [f]" using h by (simp add: raw_Some [OF ob])
  have "rawListeners (fresh_events st) = (rawListeners st)(t := without (rawListeners st t) 0)"
    using wf_fresh(2) [OF wf] only_key [OF wf ob h c] xs by simp
  moreover have "removeListener em st t (Fn l) = done_with True (fresh_events st)"
    using same ob h c by (simp add: removeListener_def validateFunction_def)
  moreover have none: "rawListeners (fresh_events st) u = []" for u using wf_fresh(2) [OF wf] by simp
  ultimately show ?thesis using same xs wf_fresh(1) [OF wf] unfolding removes_def none by (simp add: fresh_parts)
qed

lemma removes_one:
  assumes wf: "emitter_wf st" and ob: "ev_obj st = Some ob" and h: "handler_of st ob t = Some (One f)"
    and same: "same_listener st l f" and c: "eventsCount st - 1 \<noteq> 0"
  shows "removes em st t l 0 (del_prop (st\<lparr>eventsCount := eventsCount st - 1\<rparr>) ob t)" (is "removes _ _ _ _ _ ?st")
proof -
  have xs: "rawListeners st t = [f]" using h by (simp add: raw_Some [OF ob])
  have arg: "removed_fn st l [f] = (case f of User _ \<Rightarrow> l | Wrap _ \<Rightarrow> unwrap_fn st f)"
    by (simp add: removed_fn_def split: fn.split)
  note w = delete_key [OF wf ob h]
  have e: "ev_obj ?st = Some ob" "unwrap_fn ?st g = unwrap_fn st g" for g
    using ob by (simp_all add: unwrap_fn_def split: fn.split)
  have "removeListener em st t (Fn l) = (if rawListeners ?st (EName (js ''removeListener'')) \<noteq> []
      then em ?st (EName (js ''removeListener'')) [AEvt t, AFn (removed_fn st l (rawListeners st t))] else done_with True ?st)"
    using same ob h c e(2) unfolding xs arg raw_Nil_iff [OF w(1) e(1)]
    by (simp add: removeListener_def validateFunction_def Let_def split: fn.split)
  then show ?thesis using w same xs unfolding removes_def by simp
qed

lemma removes_arr:
  assumes wf: "emitter_wf st" and ob: "ev_obj st = Some ob" and h: "handler_of st ob t = Some (Arr a)"
    and a: "arrs st ! a = (xs, wd)" and pos: "last_position (same_listener st l) xs (length xs) = Some p"
  shows "\<exists>st'. removes em st t l p st'"
proof -
  have xs: "rawListeners st t = xs" using h a by (simp add: raw_Some [OF ob])
  have two: "2 \<le> length xs" using handler_arr(2) [OF wf ob h] a by simp
  have arg: "removed_fn st l xs = l" using two by (auto simp: removed_fn_def split: list.splits fn.splits)
  let ?ys = "without xs p"
  have p: "p < length xs" by (rule last_position_less [OF pos])
  have len: "length ?ys = length xs - 1" using p by simp
  have ys: "(if p = 0 then tl xs else spliceOne xs p) = ?ys" using p by (simp add: spliceOne_without drop_Suc)
  let ?s1 = "st\<lparr>arrs := (arrs st)[a := (?ys, wd)]\<rparr>"
  define st' where "st' = (if length ?ys = 1 then set_prop ?s1 ob t (One (?ys ! 0)) else ?s1)"
  have w: "emitter_wf st' \<and> rawListeners st' = (rawListeners st)(t := ?ys)"
  proof (cases "length ?ys = 1")
    case True
    then have "?ys = [?ys ! 0]" by (rule singleton_eq)
    then show ?thesis using True collapse_array [OF wf ob h, of ?ys wd "?ys ! 0"] by (simp add: st'_def)
  next
    case False
    then have "2 \<le> length ?ys" using len two by linarith
    then show ?thesis using False change_array [OF wf ob h, of ?ys wd] by (simp add: st'_def)
  qed
  have e: "ev_obj st' = Some ob" "wraps st' = wraps st" "ew st' = ew st" using ob by (simp_all add: st'_def)
  have "removeListener em st t (Fn l) = (if rawListeners st' (EName (js ''removeListener'')) \<noteq> []
      then em st' (EName (js ''removeListener'')) [AEvt t, AFn (removed_fn st l (rawListeners st t))] else done_with True st')"
    using ob h a pos ys unfolding xs arg raw_Nil_iff [OF conjunct1 [OF w] e(1)] unfolding st'_def
    by (simp add: removeListener_def validateFunction_def Let_def)
  then show ?thesis using w e pos xs unfolding removes_def by blast
qed

lemma removeListener_cases:
  assumes wf: "emitter_wf st"
  obtains (absent) "last_position (same_listener st l) (rawListeners st t) (length (rawListeners st t)) = None"
    "removeListener em st t (Fn l) = done_with True st"
  | (gone) st' p where "removes em st t l p st'"
proof -
  note d = removeListener_def validateFunction_def
  show ?thesis
  proof (cases "ev_obj st")
    case ob: (Some ob)
    note raw = raw_Some [OF ob]
    show ?thesis
    proof (cases "handler_of st ob t")
      case h: (Some x)
      show ?thesis
      proof (cases x)
        case (One f)
        note h = h [unfolded One]
        show ?thesis
          by (cases "same_listener st l f"; cases "eventsCount st - 1 = 0")
            (use absent ob h removes_last [OF wf ob h, of l em] removes_one [OF wf ob h, of l em] gone in \<open>simp_all add: d raw\<close>)
      next
        case (Arr a)
        obtain xs wd where a: "arrs st ! a = (xs, wd)" by fastforce
        show ?thesis
          by (cases "last_position (same_listener st l) xs (length xs)")
            (use absent ob h Arr a removes_arr [OF wf ob h [unfolded Arr] a, of l _ em] gone in \<open>auto simp: d raw\<close>)
      qed
    qed (use absent ob in \<open>simp add: d raw\<close>)
  qed (use absent in \<open>simp add: d rawListeners_def\<close>)
qed

subsection \<open>Every call keeps the emitter well-formed\<close>

definition keeps :: "('f, 'a, ('f, 'w) emitter) ran \<Rightarrow> bool" where
  "keeps r \<longleftrightarrow> (case r of None \<Rightarrow> True | Some (st, _) \<Rightarrow> emitter_wf st)"

abbreviation emit_keeps :: "('f, 'a, ('f, 'w) emitter) emit_fn \<Rightarrow> bool" where
  "emit_keeps em \<equiv> \<forall>st t as. emitter_wf st \<longrightarrow> keeps (em st t as)"

lemma keeps_simps [simp]: "keeps None" "keeps (Some (st, r)) \<longleftrightarrow> emitter_wf st"
  by (simp_all add: keeps_def)

lemma keeps_bind: "keeps r \<Longrightarrow> (\<And>st. emitter_wf st \<Longrightarrow> keeps (k st)) \<Longrightarrow> keeps (bindR r k)"
  by (cases "(r, k)" rule: bindR.cases) simp_all

lemma keeps_case: "keeps r \<Longrightarrow> (\<And>st x. emitter_wf st \<Longrightarrow> keeps (k st x)) \<Longrightarrow> keeps (case r of None \<Rightarrow> None | Some (st, x) \<Rightarrow> k st x)"
  by (cases r) auto

lemma wf_ew [simp]: "emitter_wf (st\<lparr>ew := w\<rparr>) = emitter_wf st" "emitter_wf (st\<lparr>wraps := ws\<rparr>) = emitter_wf st"
  "emitter_wf (st\<lparr>maxListeners := m\<rparr>) = emitter_wf st"
  by (simp_all add: emitter_wf_def)

lemma wf_new: "emitter_wf (new_emitter d w)"
  by (simp add: emitter_wf_def parts_ok_def new_emitter_def obj_ok_def use_ok_def)

lemma addListener_keeps: "emit_keeps em \<Longrightarrow> emitter_wf st \<Longrightarrow> keeps (addListener em st t cb prepend)"
  by (auto simp: addListener_def add_existing_wf wf_fresh intro!: keeps_bind split: sum.split option.split)

lemma once_add_keeps: "emit_keeps em \<Longrightarrow> emitter_wf st \<Longrightarrow> keeps (once_add em st t cb prepend)"
  by (auto simp: once_add_def onceWrap_def addListener_keeps split: sum.split)

lemma removeListener_keeps:
  assumes em: "emit_keeps em" and wf: "emitter_wf st"
  shows "keeps (removeListener em st t cb)"
proof (cases cb)
  case (Fn l)
  show ?thesis using wf
  proof (cases rule: removeListener_cases [where l = l and t = t and em = em])
    case absent
    then show ?thesis using Fn wf by simp
  next
    case (gone st' p)
    then show ?thesis using Fn em by (simp add: removes_def)
  qed
qed (use wf in \<open>simp add: removeListener_def validateFunction_def\<close>)

lemma remove_array_keeps: "emit_keeps em \<Longrightarrow> emitter_wf st \<Longrightarrow> keeps (remove_array em t a n st)"
proof (induction n arbitrary: st)
  case (Suc n)
  then show ?case unfolding remove_array.simps Let_def by (intro keeps_bind removeListener_keeps) simp_all
qed simp

lemma remove_all_type_keeps:
  assumes "emit_keeps em" "emitter_wf st"
  shows "keeps (remove_all_type em t st)"
  using assms delete_key(1) [OF assms(2)] wf_fresh(1) [OF assms(2)]
  by (auto simp: remove_all_type_def intro!: keeps_bind removeListener_keeps remove_array_keeps split: option.split handler.split)

lemma remove_keys_keeps: "emit_keeps em \<Longrightarrow> emitter_wf st \<Longrightarrow> keeps (remove_keys em ks st)"
proof (induction ks arbitrary: st)
  case (Cons k ks)
  then show ?case by (cases "k = EName (js ''removeListener'')") (auto intro!: keeps_bind remove_all_type_keeps)
qed simp

lemma removeAllListeners_keeps: "emit_keeps em \<Longrightarrow> emitter_wf st \<Longrightarrow> keeps (removeAllListeners em st which)"
  by (cases which; cases "ev_obj st")
    (auto simp: removeAllListeners_def wf_fresh intro!: keeps_bind remove_all_type_keeps remove_keys_keeps)

lemmas op_keeps = addListener_keeps once_add_keeps removeListener_keeps removeAllListeners_keeps

lemma run_eprog_keeps: "emit_keeps em \<Longrightarrow> emitter_wf st \<Longrightarrow> keeps (run_eprog em p st)"
  by (induction p arbitrary: st) (simp_all, (rule keeps_case; simp add: op_keeps)+)

lemma call_fn_keeps:
  assumes "emit_keeps em" "emitter_wf st"
  shows "keeps (call_fn em user st f as)"
  using assms by (auto simp: call_fn_def Let_def intro!: keeps_bind run_eprog_keeps removeListener_keeps split: fn.split prod.split)

lemma call_all_keeps: "emit_keeps em \<Longrightarrow> emitter_wf st \<Longrightarrow> keeps (call_all em user st fs as)"
proof (induction fs arbitrary: st)
  case (Cons f fs)
  then show ?case unfolding call_all.simps by (intro keeps_bind call_fn_keeps) simp_all
qed simp

lemma emit_body_keeps:
  assumes em: "emit_keeps em" and wf: "emitter_wf st"
  shows "keeps (emit_body em isError user st t as)"
proof (cases "ev_obj st")
  case None
  then show ?thesis using wf by (simp add: emit_body_def)
next
  case (Some ob)
  show ?thesis unfolding emit_body_def Let_def Some option.case
    by (rule keeps_bind) (use em wf in \<open>auto intro!: keeps_bind call_fn_keeps call_all_keeps split: option.split handler.split\<close>)
qed

lemma emit_keeps: "emitter_wf st \<Longrightarrow> keeps (emit isError user n st t as)"
proof (induction n arbitrary: st t as)
  case (Suc n)
  then show ?case by (simp add: emit_body_keeps)
qed simp

subsection \<open>Reachable emitters\<close>

text \<open>An emitter after any calls from outside of its listeners: code that runs on it, each run with some depth of nested
  emissions, and changes of the limit.\<close>

inductive emitter_reachable :: "(('f, 'a) earg \<Rightarrow> bool) \<Rightarrow> ('f, 'a, 'w) listener_code \<Rightarrow> ('f, 'w) emitter \<Rightarrow> bool"
  for isError user where
  made: "emitter_reachable isError user (new_emitter d w)"
| ran: "emitter_reachable isError user st \<Longrightarrow> run_eprog (emit isError user n) p st = Some (st', r)
    \<Longrightarrow> emitter_reachable isError user st'"
| limit: "emitter_reachable isError user st \<Longrightarrow> setMaxListeners m st = Inr st' \<Longrightarrow> emitter_reachable isError user st'"

lemma reachable_wf: "emitter_reachable isError user st \<Longrightarrow> emitter_wf st"
proof (induction rule: emitter_reachable.induct)
  case (ran st n p st' r)
  have "keeps (run_eprog (emit isError user n) p st)" using ran.IH emit_keeps by (intro run_eprog_keeps) blast+
  then show ?case using ran.hyps by simp
next
  case (limit st m st')
  then show ?case by (auto simp: setMaxListeners_def split: js_arg.splits if_splits)
qed (rule wf_new)

lemma own_keys_mset: "mset (own_keys ps) = mset (map fst ps)"
  unfolding own_keys_def Let_def mset_append mset_sort by (induction ps) auto

lemma own_keys_props: "length (own_keys ps) = length ps" "set (own_keys ps) = fst ` set ps"
  "distinct (map fst ps) \<Longrightarrow> distinct (own_keys ps)"
  using own_keys_mset [of ps]
  by (metis size_mset length_map, metis set_mset_mset set_map, metis mset_eq_imp_distinct_iff)

lemma listenerCount_raw: "listenerCount st t = length (rawListeners st t)"
  by (simp add: listenerCount_def rawListeners_def split: option.split handler.split)

text \<open>C15. After any sequence of calls, made from inside or outside of listeners and whether they return or throw, the
  count that the emitter keeps is the number of events with listeners; these are the names that
  \<^verbatim>\<open>eventNames\<close> gives, each once, and \<^verbatim>\<open>listenerCount\<close> is the length of
  \<^verbatim>\<open>listeners\<close>.\<close>

theorem emitter_counts:
  assumes "emitter_reachable isError user st"
  shows "eventsCount st = int (length (eventNames st)) \<and> distinct (eventNames st)
    \<and> (\<forall>t. t \<in> set (eventNames st) \<longleftrightarrow> 0 < listenerCount st t) \<and> (\<forall>t. listenerCount st t = length (listeners st t))"
proof -
  have wf: "emitter_wf st" using assms by (rule reachable_wf)
  then obtain ob where ob: "ev_obj st = Some ob" by (auto simp: emitter_wf_def parts_ok_def split: option.splits)
  note o = emitter_wf_obj [OF wf ob]
  have n: "eventNames st = own_keys (objs st ! ob)" using o(3) by (simp add: eventNames_def ob own_keys_def)
  have "t \<in> set (eventNames st) \<longleftrightarrow> 0 < listenerCount st t" for t
    unfolding n own_keys_props listenerCount_raw length_greater_0_conv raw_Nil_iff [OF wf ob]
    by (auto simp: handler_of_def map_of_eq_None_iff)
  then show ?thesis using o(2,3) by (simp add: n own_keys_props obj_ok_def listenerCount_raw listeners_def)
qed

theorem emitter_counts_witness:
  "\<exists>st. emitter_reachable (\<lambda>_. False) (\<lambda>(u :: nat) (as :: (nat, unit) earg list). (EReturn :: (nat, unit, unit) eprog)) st
     \<and> eventsCount st = 1 \<and> length (eventNames st) = 1 \<and> listenerCount st (ESym 1) = 2 \<and> ESym 1 \<in> set (eventNames st)"
proof -
  let ?code = "\<lambda>(u :: nat) (as :: (nat, unit) earg list). (EReturn :: (nat, unit, unit) eprog)"
  let ?on = "\<lambda>u p. CallOn False (ESym 1) (Fn (User u)) (\<lambda>_. p)"
  let ?st = "fst (the (run_eprog (emit (\<lambda>_. False) ?code 1) (?on 7 (?on 8 EReturn)) (new_emitter (num_int 10) ())))"
  have run: "run_eprog (emit (\<lambda>_. False) ?code 1) (?on 7 (?on 8 EReturn)) (new_emitter (num_int 10) ()) = done_with True ?st"
    and c: "eventsCount ?st = 1" "listenerCount ?st (ESym 1) = 2"
    by (simp_all add: addListener_def validateFunction_def new_emitter_def add_existing_def handler_of_def set_prop_def
        check_leak_def getMaxListeners_def listenerCount_def Let_def)
  have r: "emitter_reachable (\<lambda>_. False) ?code ?st" by (rule emitter_reachable.ran [OF emitter_reachable.made run])
  show ?thesis using emitter_counts [OF r] c r by (intro exI [of _ ?st]) simp
qed

end
