(* ===== verification/Events_Spec.thy ===== *)
theory Events_Spec
  imports Events_Laws
begin

text \<open>
  An emitter as its users see it: a list of listeners for every event, with no shared objects, no
  counts and no special case for a single listener. An emission calls the listeners that the list had when it
  started. The model of the code refines it for code that does not listen for \<^verbatim>\<open>errorMonitor\<close> and does not call
  \<^verbatim>\<open>removeAllListeners\<close>: in these two cases the code goes on with the object or the array that it read before
  other listeners ran, which may no longer be the one in use.
\<close>

subsection \<open>The abstract emitter\<close>

record ('f, 'w) aemitter =
  lis :: "evt \<Rightarrow> 'f fn list"
  awraps :: "(bool \<times> evt \<times> 'f) list"
  aw :: 'w

definition a_unwrap :: "(bool \<times> evt \<times> 'f) list \<Rightarrow> 'f fn \<Rightarrow> 'f fn" where
  "a_unwrap ws f = (case f of User u \<Rightarrow> User u | Wrap w \<Rightarrow> User (snd (snd (ws ! w))))"

definition a_add ::
  "('f, 'a, ('f, 'w) aemitter) emit_fn \<Rightarrow> ('f, 'w) aemitter \<Rightarrow> evt \<Rightarrow> 'f fn js_callback \<Rightarrow> bool \<Rightarrow> ('f, 'a, ('f, 'w) aemitter) ran" where
  "a_add em s t cb prepend =
     (case validateFunction cb ''listener'' of
        Inl e \<Rightarrow> Some (s, Exc (NodeExn e))
      | Inr l \<Rightarrow>
          bindR (if lis s (EName (js ''newListener'')) \<noteq> []
                 then em s (EName (js ''newListener'')) [AEvt t, AFn (a_unwrap (awraps s) l)] else done_with True s) (\<lambda>s.
            done_with True (s\<lparr>lis := (lis s)(t := added prepend l (lis s t))\<rparr>)))"

definition a_once ::
  "('f, 'a, ('f, 'w) aemitter) emit_fn \<Rightarrow> ('f, 'w) aemitter \<Rightarrow> evt \<Rightarrow> 'f js_callback \<Rightarrow> bool \<Rightarrow> ('f, 'a, ('f, 'w) aemitter) ran" where
  "a_once em s t cb prepend =
     (case validateFunction cb ''listener'' of
        Inl e \<Rightarrow> Some (s, Exc (NodeExn e))
      | Inr f \<Rightarrow> a_add em (s\<lparr>awraps := awraps s @ [(False, t, f)]\<rparr>) t (Fn (Wrap (length (awraps s)))) prepend)"

text \<open>Removing takes away the last entry that is the listener or wraps it.\<close>

definition a_remove ::
  "('f, 'a, ('f, 'w) aemitter) emit_fn \<Rightarrow> ('f, 'w) aemitter \<Rightarrow> evt \<Rightarrow> 'f fn js_callback \<Rightarrow> ('f, 'a, ('f, 'w) aemitter) ran" where
  "a_remove em s t cb =
     (case validateFunction cb ''listener'' of
        Inl e \<Rightarrow> Some (s, Exc (NodeExn e))
      | Inr l \<Rightarrow>
        let xs = lis s t; removed = (case xs of [Wrap w] \<Rightarrow> a_unwrap (awraps s) (Wrap w) | _ \<Rightarrow> l) in
        (case last_position (\<lambda>f. f = l \<or> (\<exists>w. f = Wrap w) \<and> a_unwrap (awraps s) f = l) xs (length xs) of
           None \<Rightarrow> done_with True s
         | Some p \<Rightarrow>
             let s = s\<lparr>lis := (lis s)(t := without xs p)\<rparr> in
             if lis s (EName (js ''removeListener'')) \<noteq> []
             then em s (EName (js ''removeListener'')) [AEvt t, AFn removed] else done_with True s))"

primrec a_run ::
  "('f, 'a, ('f, 'w) aemitter) emit_fn \<Rightarrow> ('f, 'a, 'w) eprog \<Rightarrow> ('f, 'w) aemitter \<Rightarrow> ('f, 'a, ('f, 'w) aemitter) ran" where
  "a_run em EReturn s = done_with True s"
| "a_run em (EThrow x) s = Some (s, Exc (Thrown x))"
| "a_run em (EGet k) s = a_run em (k (aw s)) s"
| "a_run em (EPut w p) s = a_run em p (s\<lparr>aw := w\<rparr>)"
| "a_run em (CallOn prepend t cb k) s = (case a_add em s t cb prepend of None \<Rightarrow> None | Some (s, r) \<Rightarrow> a_run em (k r) s)"
| "a_run em (CallOnce prepend t cb k) s = (case a_once em s t cb prepend of None \<Rightarrow> None | Some (s, r) \<Rightarrow> a_run em (k r) s)"
| "a_run em (CallOff t cb k) s = (case a_remove em s t cb of None \<Rightarrow> None | Some (s, r) \<Rightarrow> a_run em (k r) s)"
| "a_run em (CallOffAll which k) s = None"
| "a_run em (CallEmit t as k) s = (case em s t as of None \<Rightarrow> None | Some (s, r) \<Rightarrow> a_run em (k r) s)"
| "a_run em (CallRawListeners t k) s = a_run em (k (lis s t)) s"

definition a_call ::
  "('f, 'a, ('f, 'w) aemitter) emit_fn \<Rightarrow> ('f, 'a, 'w) listener_code \<Rightarrow> ('f, 'a) earg list \<Rightarrow> ('f, 'w) aemitter \<Rightarrow> 'f fn
     \<Rightarrow> ('f, 'a, ('f, 'w) aemitter) ran" where
  "a_call em user as s f =
     (case f of
        User u \<Rightarrow> a_run em (user u as) s
      | Wrap w \<Rightarrow>
          (case awraps s ! w of (fired, t, u) \<Rightarrow>
             if fired then done_with True s
             else bindR (a_remove em s t (Fn (Wrap w))) (\<lambda>s.
               a_run em (user u as) (s\<lparr>awraps := (awraps s)[w := (True, t, u)]\<rparr>))))"

text \<open>Calls in order, up to the first exception.\<close>

fun a_calls :: "('s \<Rightarrow> 'l \<Rightarrow> ('f, 'a, 's) ran) \<Rightarrow> 's \<Rightarrow> 'l list \<Rightarrow> ('f, 'a, 's) ran" where
  "a_calls c s [] = done_with True s"
| "a_calls c s (f # fs) = bindR (c s f) (\<lambda>s. a_calls c s fs)"

fun a_emit :: "(('f, 'a) earg \<Rightarrow> bool) \<Rightarrow> ('f, 'a, 'w) listener_code \<Rightarrow> nat \<Rightarrow> ('f, 'a, ('f, 'w) aemitter) emit_fn" where
  "a_emit isError user 0 s t as = None"
| "a_emit isError user (Suc n) s t as =
     (if lis s t \<noteq> [] then a_calls (a_call (a_emit isError user n) user as) s (lis s t)
      else if t = EName (js ''error'') then Some (s, Exc (error_exn isError as))
      else done_with False s)"

subsection \<open>Simulation\<close>

text \<open>Code that stays within the abstract emitter.\<close>

primrec plain :: "('f, 'a, 'w) eprog \<Rightarrow> bool" where
  "plain EReturn = True"
| "plain (EThrow x) = True"
| "plain (EGet k) = (\<forall>w. plain (k w))"
| "plain (EPut w p) = plain p"
| "plain (CallOn prepend t cb k) = (t \<noteq> kErrorMonitor \<and> (\<forall>r. plain (k r)))"
| "plain (CallOnce prepend t cb k) = (t \<noteq> kErrorMonitor \<and> (\<forall>r. plain (k r)))"
| "plain (CallOff t cb k) = (\<forall>r. plain (k r))"
| "plain (CallOffAll which k) = False"
| "plain (CallEmit t as k) = (\<forall>r. plain (k r))"
| "plain (CallRawListeners t k) = (\<forall>r. plain (k r))"

definition abs_em :: "('f, 'w) emitter \<Rightarrow> ('f, 'w) aemitter" where
  "abs_em st = \<lparr>lis = rawListeners st, awraps = wraps st, aw = ew st\<rparr>"

definition good :: "('f, 'w) emitter \<Rightarrow> bool" where
  "good st \<longleftrightarrow> emitter_wf st \<and> rawListeners st kErrorMonitor = []"

definition agree :: "('f, 'a, ('f, 'w) emitter) ran \<Rightarrow> ('f, 'a, ('f, 'w) aemitter) ran \<Rightarrow> bool" where
  "agree r a \<longleftrightarrow> (case r of None \<Rightarrow> a = None | Some (st, x) \<Rightarrow> good st \<and> a = Some (abs_em st, x))"

abbreviation emits_agree where
  "emits_agree em aem \<equiv> \<forall>st t as. good st \<longrightarrow> agree (em st t as) (aem (abs_em st) t as)"

lemma agree_simps [simp]: "agree None a \<longleftrightarrow> a = None" "agree (Some (st, x)) a \<longleftrightarrow> good st \<and> a = Some (abs_em st, x)"
  by (simp_all add: agree_def)

lemma agree_bind: "agree r a \<Longrightarrow> (\<And>st. good st \<Longrightarrow> agree (k st) (j (abs_em st))) \<Longrightarrow> agree (bindR r k) (bindR a j)"
  by (cases "(r, k)" rule: bindR.cases) simp_all

lemma agree_case: "agree r a \<Longrightarrow> (\<And>st x. good st \<Longrightarrow> agree (k st x) (j (abs_em st) x))
    \<Longrightarrow> agree (case r of None \<Rightarrow> None | Some (st, x) \<Rightarrow> k st x) (case a of None \<Rightarrow> None | Some (s, x) \<Rightarrow> j s x)"
  by (cases r) auto

lemma abs_em_simps [simp]: "lis (abs_em st) = rawListeners st" "awraps (abs_em st) = wraps st" "aw (abs_em st) = ew st"
  by (simp_all add: abs_em_def)

lemma abs_em_eqI: "rawListeners st = lis s \<Longrightarrow> wraps st = awraps s \<Longrightarrow> ew st = aw s \<Longrightarrow> abs_em st = s"
  by (simp add: abs_em_def)

lemma raw_kept [simp]: "rawListeners (st\<lparr>ew := w\<rparr>) = rawListeners st" "rawListeners (st\<lparr>wraps := ws\<rparr>) = rawListeners st"
  by (simp_all add: rawListeners_def handler_of_def fun_eq_iff split: option.split handler.split)

lemma good_kept [simp]: "good (st\<lparr>ew := w\<rparr>) = good st" "good (st\<lparr>wraps := ws\<rparr>) = good st"
  by (simp_all add: good_def)

lemma abs_em_kept: "abs_em (st\<lparr>ew := w\<rparr>) = (abs_em st)\<lparr>aw := w\<rparr>" "abs_em (st\<lparr>wraps := ws\<rparr>) = (abs_em st)\<lparr>awraps := ws\<rparr>"
  by (simp_all add: abs_em_def)

lemma good_obj: "good st \<Longrightarrow> \<exists>ob. ev_obj st = Some ob"
  by (auto simp: good_def emitter_wf_def parts_ok_def split: option.splits)

lemma unwrap_abs: "unwrap_fn st = a_unwrap (wraps st)"
  by (auto simp: fun_eq_iff unwrap_fn_def a_unwrap_def)

lemma same_abs: "same_listener st l = (\<lambda>f. f = l \<or> (\<exists>w. f = Wrap w) \<and> a_unwrap (wraps st) f = l)"
  by (auto simp: fun_eq_iff same_listener_def a_unwrap_def split: fn.split)

lemma add_step_agrees:
  assumes g: "good st" and t: "t \<noteq> kErrorMonitor"
  shows "agree (case ev_obj st of None \<Rightarrow> Some (st, Exc (NodeExn (TypeError ''events is undefined'')))
      | Some ob \<Rightarrow> done_with True (add_existing st ob t l prepend))
    (done_with True ((abs_em st)\<lparr>lis := (lis (abs_em st))(t := added prepend l (lis (abs_em st) t))\<rparr>))"
proof -
  obtain ob where "ev_obj st = Some ob" using good_obj [OF g] by blast
  then show ?thesis using g t add_existing_wf [of st ob t l prepend] add_existing_other [of st ob t l prepend]
    by (auto simp: good_def abs_em_def)
qed

lemma add_agrees:
  assumes em: "emits_agree em aem" and g: "good st" and t: "t \<noteq> kErrorMonitor"
  shows "agree (addListener em st t cb prepend) (a_add aem (abs_em st) t cb prepend)"
proof (cases cb)
  case (Fn l)
  obtain ob where ob: "ev_obj st = Some ob" using good_obj [OF g] by blast
  have wf: "emitter_wf st" using g by (simp add: good_def)
  show ?thesis
    unfolding addListener_def a_add_def Fn validateFunction_def js_callback.case sum.case ob option.case
    by (rule agree_bind) (use em g raw_Nil_iff [OF wf ob] in \<open>simp add: unwrap_abs\<close>, rule add_step_agrees [OF _ t])
qed (use g in \<open>simp add: addListener_def a_add_def validateFunction_def\<close>)

lemma once_agrees:
  assumes em: "emits_agree em aem" and g: "good st" and t: "t \<noteq> kErrorMonitor"
  shows "agree (once_add em st t cb prepend) (a_once aem (abs_em st) t cb prepend)"
proof (cases cb)
  case (Fn f)
  let ?st = "st\<lparr>wraps := wraps st @ [(False, t, f)]\<rparr>"
  show ?thesis
    using add_agrees [OF em _ t, of ?st "Fn (Wrap (length (wraps st)))" prepend] g Fn
    by (simp add: once_add_def a_once_def validateFunction_def onceWrap_def abs_em_kept)
qed (use g in \<open>simp add: once_add_def a_once_def validateFunction_def\<close>)

lemma remove_agrees:
  assumes em: "emits_agree em aem" and g: "good st"
  shows "agree (removeListener em st t cb) (a_remove aem (abs_em st) t cb)"
proof (cases cb)
  case (Fn l)
  have wf: "emitter_wf st" using g by (simp add: good_def)
  show ?thesis using wf
  proof (cases rule: removeListener_cases [where l = l and t = t and em = em])
    case absent
    then show ?thesis using g by (simp add: Fn a_remove_def validateFunction_def flip: same_abs)
  next
    case (gone st' p)
    note r = gone [unfolded removes_def]
    have g': "good st'" using r g by (auto simp: good_def)
    have a: "abs_em st' = (abs_em st)\<lparr>lis := (rawListeners st)(t := without (rawListeners st t) p)\<rparr>"
      using r by (simp add: abs_em_def)
    have arg: "(case xs of [Wrap w] \<Rightarrow> a_unwrap (awraps (abs_em st)) (Wrap w) | _ \<Rightarrow> l) = removed_fn st l xs" for xs
      unfolding removed_fn_def unwrap_abs abs_em_simps ..
    show ?thesis using r g' em
      by (simp add: Fn a_remove_def validateFunction_def Let_def arg a [symmetric] flip: same_abs)
  qed
qed (use g in \<open>simp add: removeListener_def a_remove_def validateFunction_def\<close>)

lemma run_agrees: "emits_agree em aem \<Longrightarrow> good st \<Longrightarrow> plain p \<Longrightarrow> agree (run_eprog em p st) (a_run aem p (abs_em st))"
proof (induction p arbitrary: st)
  case (EPut w p)
  then show ?case using EPut.IH [of "st\<lparr>ew := w\<rparr>"] by (simp add: abs_em_kept)
qed (simp_all, (rule agree_case; simp add: add_agrees once_agrees remove_agrees)+)

lemma call_agrees:
  assumes em: "emits_agree em aem" and g: "good st" and user: "\<forall>u as. plain (user u as)"
  shows "agree (call_fn em user st f as) (a_call aem user as (abs_em st) f)"
proof (cases f)
  case (User u)
  then show ?thesis using run_agrees [OF em g] user by (simp add: call_fn_def a_call_def)
next
  case (Wrap w)
  obtain fired t u where w: "wraps st ! w = (fired, t, u)" by (rule prod_cases3)
  have step: "agree (run_eprog em (user u as) (st\<lparr>wraps := (wraps st)[w := (True, t, u)]\<rparr>))
      (a_run aem (user u as) ((abs_em st)\<lparr>awraps := (awraps (abs_em st))[w := (True, t, u)]\<rparr>))"
    if "good st" for st
  proof -
    let ?st = "st\<lparr>wraps := (wraps st)[w := (True, t, u)]\<rparr>"
    show ?thesis using run_agrees [OF em, of ?st "user u as"] user that by (simp add: abs_em_kept)
  qed
  have "agree (bindR (removeListener em st t (Fn (Wrap w))) (\<lambda>st. run_eprog em (user u as) (st\<lparr>wraps := (wraps st)[w := (True, t, u)]\<rparr>)))
      (bindR (a_remove aem (abs_em st) t (Fn (Wrap w))) (\<lambda>s. a_run aem (user u as) (s\<lparr>awraps := (awraps s)[w := (True, t, u)]\<rparr>)))"
    by (rule agree_bind, rule remove_agrees [OF em g], rule step)
  then show ?thesis using g Wrap w by (cases fired) (simp_all add: call_fn_def a_call_def Let_def)
qed

lemma calls_agree:
  assumes em: "emits_agree em aem" and g: "good st" and user: "\<forall>u as. plain (user u as)"
  shows "agree (call_all em user st fs as) (a_calls (a_call aem user as) (abs_em st) fs)"
  using g
proof (induction fs arbitrary: st)
  case (Cons f fs)
  show ?case unfolding call_all.simps a_calls.simps by (rule agree_bind, rule call_agrees [OF em Cons.prems user], rule Cons.IH)
qed simp

lemma bindR_assoc: "bindR (bindR r k) j = bindR r (\<lambda>s. bindR (k s) j)"
  by (cases "(r, k)" rule: bindR.cases) simp_all

lemma calls_done: "bindR (a_calls c s fs) (done_with True) = a_calls c s fs"
proof (induction fs arbitrary: s)
  case (Cons f fs)
  show ?case by (simp add: bindR_assoc Cons.IH)
qed simp

lemma emit_body_list:
  assumes g: "good st"
  shows "emit_body em isError user st t as =
    (if rawListeners st t \<noteq> [] then bindR (call_all em user st (rawListeners st t) as) (done_with True)
     else if t = EName (js ''error'') then Some (st, Exc (error_exn isError as)) else done_with False st)"
proof -
  obtain ob where ob: "ev_obj st = Some ob" using good_obj [OF g] by blast
  have wf: "emitter_wf st" and m: "rawListeners st kErrorMonitor = []" using g by (simp_all add: good_def)
  note nil = raw_Nil_iff [OF wf ob]
  have "handler_of st ob kErrorMonitor = None" using m by (simp add: nil)
  then show ?thesis unfolding emit_body_def Let_def ob option.case nil
    by (cases "handler_of st ob t") (auto simp: raw_Some [OF ob] bindR_assoc split: handler.split)
qed

lemma emits_agree:
  assumes user: "\<forall>u as. plain (user u as)"
  shows "good st \<Longrightarrow> agree (emit isError user n st t as) (a_emit isError user n (abs_em st) t as)"
proof (induction n arbitrary: st t as)
  case (Suc n)
  let ?em = "emit isError user n" and ?aem = "a_emit isError user n"
  have em: "emits_agree ?em ?aem" using Suc.IH by blast
  have "agree (bindR (call_all ?em user st (rawListeners st t) as) (done_with True))
      (bindR (a_calls (a_call ?aem user as) (abs_em st) (rawListeners st t)) (done_with True))"
    by (rule agree_bind, rule calls_agree [OF em Suc.prems user]) simp
  then show ?case using Suc.prems by (simp add: emit_body_list calls_done)
qed simp

text \<open>C7. For user code that does not listen for \<^verbatim>\<open>errorMonitor\<close> and does not call
  \<^verbatim>\<open>removeAllListeners\<close>, from outside or from listeners that run during emissions, a program of calls on a new
  emitter ends with the same outcome, the same listeners for every event and the same state of the user's program as on the
  emitter that keeps plain lists, whatever listeners it adds, removes or emits to, and whether they throw.\<close>

theorem emitter_refines:
  assumes user: "\<forall>u as. plain (user u as)" and p: "plain p"
  shows "map_option (\<lambda>(st, r). (abs_em st, r)) (run_eprog (emit isError user n) p (new_emitter d w))
    = a_run (a_emit isError user n) p \<lparr>lis = \<lambda>_. [], awraps = [], aw = w\<rparr>"
proof -
  let ?st = "new_emitter d w"
  have raw: "rawListeners ?st = (\<lambda>_. [])" by (simp add: fun_eq_iff new_emitter_def rawListeners_def handler_of_def)
  have a: "abs_em ?st = \<lparr>lis = \<lambda>_. [], awraps = [], aw = w\<rparr>" unfolding abs_em_def raw by (simp add: new_emitter_def)
  have "good ?st" by (simp add: good_def wf_new raw)
  then have "agree (run_eprog (emit isError user n) p ?st) (a_run (a_emit isError user n) p (abs_em ?st))"
    using emits_agree [OF user] p by (intro run_agrees) blast+
  then show ?thesis unfolding a [symmetric] by (auto simp: agree_def split: option.splits)
qed

text \<open>A listener that removes the next one: the first emission still calls both.\<close>

definition demo_code :: "(nat, unit, nat list) listener_code" where
  "demo_code u as =
     (if u = 0 then EGet (\<lambda>w. EPut (w @ [0]) EReturn)
      else CallOff (ESym 1) (Fn (User 0)) (\<lambda>_. EGet (\<lambda>w. EPut (w @ [u]) EReturn)))"

definition demo_script :: "(nat, unit, nat list) eprog" where
  "demo_script = CallOn False (ESym 1) (Fn (User 1)) (\<lambda>_. CallOn False (ESym 1) (Fn (User 0)) (\<lambda>_.
     CallEmit (ESym 1) [] (\<lambda>_. CallEmit (ESym 1) [] (\<lambda>_. EReturn))))"

theorem emitter_refines_witness:
  "(\<forall>u as. plain (demo_code u as)) \<and> plain demo_script
   \<and> map_option (\<lambda>(st, r). (aw st, r)) (map_option (\<lambda>(st, r). (abs_em st, r))
       (run_eprog (emit (\<lambda>_. False) demo_code 1) demo_script (new_emitter (num_int 10) []))) = Some ([1, 0, 1], Ok True)"
proof -
  have user: "\<forall>u as. plain (demo_code u as)" and p: "plain demo_script"
    by (simp_all add: demo_code_def demo_script_def kErrorMonitor_def)
  show ?thesis
    using user p unfolding emitter_refines [OF user p]
    by (simp add: demo_script_def demo_code_def a_add_def a_remove_def a_call_def validateFunction_def added_def a_unwrap_def
        Let_def eval_nat_numeral)
qed

end
