(* ===== verification/Vfs.thy ===== *)
theory Vfs
  imports Main "HOL-Library.Word" "HOL-Library.Char_ord" "HOL-Library.List_Lexorder"
begin

text \<open>
  \<^verbatim>\<open>sb_fs/virtual_fs.rs\<close>: the read-only file system that is packed into a bundle. \<open>VfsBuilder\<close>
  makes a tree of directories, files and symbolic links from the file system of the host;
  \<open>VfsRoot\<close> finds entries in it, and \<open>FileBackedVfs\<close> gives the operations on paths and open files.

  A path is absolute, as those that \<^verbatim>\<open>canonicalize\<close> returns, and is the list of its components
  below the root directory, as \<^verbatim>\<open>Path::components\<close> gives them after \<^verbatim>\<open>RootDir\<close>: the path \<^verbatim>\<open>/\<close> is \<open>[]\<close>, and it
  alone has no file name. Paths are compared by components. A name is a string of bytes, compared byte by byte, as \<^verbatim>\<open>str\<close> is. Words of 64 bits wrap
  around, as in a build without overflow checks. The parts of a link are single components.
\<close>

type_synonym vpath = "string list"
type_synonym bytes = "8 word list"
type_synonym u64 = "64 word"

datatype io_kind = NotFound | OtherKind | PermissionDenied

datatype vfs_error =
    IoError io_kind string
  | StripRootError vpath vpath
  | NotSupported
  | Panic

type_synonym 'a vfs_result = "vfs_error + 'a"

subsection \<open>Entries\<close>

record VirtualFile =
  file_name :: string
  file_offset :: u64
  file_len :: u64
  file_content :: "bytes option"

record VirtualSymlink =
  link_name :: string
  dest_parts :: vpath

datatype VfsEntry = Dir string "VfsEntry list" | File VirtualFile | Symlink VirtualSymlink

fun entry_name :: "VfsEntry \<Rightarrow> string" where
  "entry_name (Dir n es) = n"
| "entry_name (File f) = file_name f"
| "entry_name (Symlink l) = link_name l"

text \<open>\<^verbatim>\<open>slice::binary_search_by\<close> with the names of the entries: the index of an entry, or where to insert one.\<close>

datatype search = Found nat | Absent nat

function search_loop :: "string list \<Rightarrow> string \<Rightarrow> nat \<Rightarrow> nat \<Rightarrow> search" where
  "search_loop ns x left right =
     (if left < right then
        let mid = left + (right - left) div 2 in
        if ns ! mid < x then search_loop ns x (mid + 1) right
        else if x < ns ! mid then search_loop ns x left mid
        else Found mid
      else Absent left)"
  by auto
termination by (relation "measure (\<lambda>(ns, x, left, right). right - left)") auto

declare search_loop.simps [simp del]

definition binary_search :: "VfsEntry list \<Rightarrow> string \<Rightarrow> search" where
  "binary_search es x = search_loop (map entry_name es) x 0 (length es)"

definition insert_at :: "nat \<Rightarrow> 'a \<Rightarrow> 'a list \<Rightarrow> 'a list" where
  "insert_at i x xs = take i xs @ x # drop i xs"

text \<open>\<^verbatim>\<open>Path::strip_prefix\<close>\<close>

fun strip_prefix :: "vpath \<Rightarrow> vpath \<Rightarrow> vpath option" where
  "strip_prefix p [] = Some p"
| "strip_prefix [] (r # rs) = None"
| "strip_prefix (c # cs) (r # rs) = (if c = r then strip_prefix cs rs else None)"

subsection \<open>Building\<close>

text \<open>What the builder asks of the host: the file system, and the checksum of data.\<close>

datatype file_type = IsDir | IsFile | IsSymlink | IsOther

record fs_host =
  canonicalize_path :: "vpath \<Rightarrow> vpath vfs_result"
  read_dir_host :: "vpath \<Rightarrow> ((file_type \<times> vpath) vfs_result list) vfs_result"
  read_host :: "vpath \<Rightarrow> bytes vfs_result"
  is_file_host :: "vpath \<Rightarrow> bool"
  checksum :: "bytes \<Rightarrow> string"

record VfsBuilder =
  root_path :: vpath
  root_name :: string
  root_entries :: "VfsEntry list"
  files :: "bytes list"
  current_offset :: u64
  file_offsets :: "string \<rightharpoonup> u64"

text \<open>\<^verbatim>\<open>Path::file_stem\<close>: the name up to its last dot, unless that is its first character.\<close>

definition file_stem :: "string \<Rightarrow> string" where
  "file_stem n = (case dropWhile (\<lambda>c. c \<noteq> CHR ''.'') (rev n) of
     [] \<Rightarrow> n | d # rest \<Rightarrow> if rest = [] then n else rev rest)"

definition new_builder :: "fs_host \<Rightarrow> vpath \<Rightarrow> VfsBuilder vfs_result" where
  "new_builder h path =
     (case canonicalize_path h path of
        Inl e \<Rightarrow> Inl e
      | Inr root \<Rightarrow>
          if root = [] then Inl Panic
          else Inr \<lparr>root_path = root, root_name = file_stem (last root), root_entries = [], files = [],
                    current_offset = 0, file_offsets = (\<lambda>_. None)\<rparr>)"

definition set_root_dir_name :: "string \<Rightarrow> VfsBuilder \<Rightarrow> VfsBuilder" where
  "set_root_dir_name n b = b\<lparr>root_name := n\<rparr>"

definition path_relative_root :: "VfsBuilder \<Rightarrow> vpath \<Rightarrow> vpath vfs_result" where
  "path_relative_root b path =
     (case strip_prefix path (root_path b) of
        Some p \<Rightarrow> Inr p
      | None \<Rightarrow> Inl (StripRootError (root_path b) path))"

text \<open>The loop of \<^verbatim>\<open>add_dir\<close>, with what the caller does to the directory it returns.\<close>

fun in_dir :: "vpath \<Rightarrow> (VfsEntry list \<Rightarrow> VfsEntry list vfs_result) \<Rightarrow> VfsEntry list \<Rightarrow> VfsEntry list vfs_result" where
  "in_dir [] f es = f es"
| "in_dir (c # cs) f es =
     (case (case binary_search es c of Found i \<Rightarrow> (i, es) | Absent i \<Rightarrow> (i, insert_at i (Dir c []) es)) of (i, es) \<Rightarrow>
        (case es ! i of
           Dir n ds \<Rightarrow> (case in_dir cs f ds of Inl e \<Rightarrow> Inl e | Inr ds \<Rightarrow> Inr (es[i := Dir n ds]))
         | _ \<Rightarrow> Inl Panic))"

definition add_dir ::
  "VfsBuilder \<Rightarrow> vpath \<Rightarrow> (VfsEntry list \<Rightarrow> VfsEntry list vfs_result) \<Rightarrow> VfsBuilder \<times> unit vfs_result" where
  "add_dir b path f =
     (case path_relative_root b path of
        Inl e \<Rightarrow> (b, Inl e)
      | Inr p \<Rightarrow>
          (case in_dir p f (root_entries b) of
             Inl e \<Rightarrow> (b, Inl e)
           | Inr es \<Rightarrow> (b\<lparr>root_entries := es\<rparr>, Inr ())))"

definition insert_entry :: "VfsEntry \<Rightarrow> VfsEntry list \<Rightarrow> VfsEntry list vfs_result" where
  "insert_entry e es =
     (case binary_search es (entry_name e) of Found i \<Rightarrow> Inl Panic | Absent i \<Rightarrow> Inr (insert_at i e es))"

definition add_file :: "fs_host \<Rightarrow> VfsBuilder \<Rightarrow> vpath \<Rightarrow> bytes \<Rightarrow> VfsBuilder \<times> unit vfs_result" where
  "add_file h b path data =
     (let sum = checksum h data;
          offset = (case file_offsets b sum of Some off \<Rightarrow> off | None \<Rightarrow> current_offset b);
          b = (case file_offsets b sum of
                 Some _ \<Rightarrow> b
               | None \<Rightarrow> b\<lparr>file_offsets := (file_offsets b)(sum \<mapsto> current_offset b)\<rparr>)
      in if path = [] then (b, Inl Panic)
         else
           (case add_dir b (butlast path) (insert_entry (File
                   \<lparr>file_name = last path, file_offset = offset, file_len = of_nat (length data), file_content = Some data\<rparr>)) of
              (b, Inl e) \<Rightarrow> (b, Inl e)
            | (b, Inr _) \<Rightarrow>
                (if current_offset b = offset then b\<lparr>current_offset := current_offset b + of_nat (length data)\<rparr> else b, Inr ())))"

definition add_symlink :: "VfsBuilder \<Rightarrow> vpath \<Rightarrow> vpath \<Rightarrow> VfsBuilder \<times> unit vfs_result" where
  "add_symlink b path target =
     (case path_relative_root b target of
        Inl e \<Rightarrow> (b, Inl e)
      | Inr dest \<Rightarrow>
          if path = [] then (b, Inl Panic)
          else add_dir b (butlast path) (insert_entry (Symlink \<lparr>link_name = last path, dest_parts = dest\<rparr>)))"

text \<open>One entry of a directory of the host. The recursion is an argument.\<close>

definition add_host_entry ::
  "fs_host \<Rightarrow> (VfsBuilder \<Rightarrow> vpath \<Rightarrow> (VfsBuilder \<times> unit vfs_result) option) \<Rightarrow> VfsBuilder
     \<Rightarrow> (file_type \<times> vpath) vfs_result \<Rightarrow> (VfsBuilder \<times> unit vfs_result) option" where
  "add_host_entry h rec b entry =
     (case entry of
        Inl e \<Rightarrow> Some (b, Inl e)
      | Inr (IsDir, path) \<Rightarrow> rec b path
      | Inr (IsFile, path) \<Rightarrow>
          (case read_host h path of Inl e \<Rightarrow> Some (b, Inl e) | Inr data \<Rightarrow> Some (add_file h b path data))
      | Inr (IsSymlink, path) \<Rightarrow>
          (case canonicalize_path h path of
             Inl e \<Rightarrow> Some (b, Inl e)
           | Inr target \<Rightarrow>
               (case add_symlink b path target of
                  (b, Inl (StripRootError r t)) \<Rightarrow>
                    if is_file_host h target then
                      (case read_host h target of Inl e \<Rightarrow> Some (b, Inl e) | Inr data \<Rightarrow> Some (add_file h b path data))
                    else Some (b, Inr ())
                | r \<Rightarrow> Some r))
      | Inr (IsOther, path) \<Rightarrow> Some (b, Inr ()))"

fun add_host_entries ::
  "fs_host \<Rightarrow> (VfsBuilder \<Rightarrow> vpath \<Rightarrow> (VfsBuilder \<times> unit vfs_result) option) \<Rightarrow> VfsBuilder
     \<Rightarrow> (file_type \<times> vpath) vfs_result list \<Rightarrow> (VfsBuilder \<times> unit vfs_result) option" where
  "add_host_entries h rec b [] = Some (b, Inr ())"
| "add_host_entries h rec b (e # es) =
     (case add_host_entry h rec b e of
        None \<Rightarrow> None
      | Some (b, Inl x) \<Rightarrow> Some (b, Inl x)
      | Some (b, Inr _) \<Rightarrow> add_host_entries h rec b es)"

text \<open>Fuel for the depth of directories.\<close>

fun add_dir_recursive_internal :: "fs_host \<Rightarrow> nat \<Rightarrow> VfsBuilder \<Rightarrow> vpath \<Rightarrow> (VfsBuilder \<times> unit vfs_result) option" where
  "add_dir_recursive_internal h 0 b path = None"
| "add_dir_recursive_internal h (Suc n) b path =
     (case add_dir b path Inr of
        (b, Inl e) \<Rightarrow> Some (b, Inl e)
      | (b, Inr _) \<Rightarrow>
          (case read_dir_host h path of
             Inl e \<Rightarrow> Some (b, Inl e)
           | Inr es \<Rightarrow> add_host_entries h (add_dir_recursive_internal h n) b es))"

definition add_dir_recursive :: "fs_host \<Rightarrow> nat \<Rightarrow> VfsBuilder \<Rightarrow> vpath \<Rightarrow> (VfsBuilder \<times> unit vfs_result) option" where
  "add_dir_recursive h n b path =
     (case canonicalize_path h path of Inl e \<Rightarrow> Some (b, Inl e) | Inr path \<Rightarrow> add_dir_recursive_internal h n b path)"

definition into_dir_and_files :: "VfsBuilder \<Rightarrow> VfsEntry \<times> bytes list" where
  "into_dir_and_files b = (Dir (root_name b) (root_entries b), files b)"

subsection \<open>Finding entries\<close>

record VfsRoot =
  vfs_dir :: VfsEntry
  vfs_root_path :: vpath

definition path_not_found :: vfs_error where
  "path_not_found = IoError NotFound ''path not found''"

definition resolve_dest_from_root :: "VirtualSymlink \<Rightarrow> vpath \<Rightarrow> vpath" where
  "resolve_dest_from_root l root = root @ dest_parts l"

text \<open>Finding an entry reads and extends the set of paths of links seen so far. The result is \<^const>\<open>None\<close> when the fuel
  does not suffice.\<close>

type_synonym found = "((vpath \<times> VfsEntry) vfs_result \<times> vpath list) option"

text \<open>The loop of \<^verbatim>\<open>find_entry_no_follow_inner\<close>; \<open>fe\<close> is \<^verbatim>\<open>find_entry_inner\<close>.\<close>

fun find_step :: "VfsEntry list \<Rightarrow> string \<Rightarrow> VfsEntry vfs_result" where
  "find_step es c = (case binary_search es c of Found i \<Rightarrow> Inr (es ! i) | Absent i \<Rightarrow> Inl path_not_found)"

fun find_loop ::
  "(vpath \<Rightarrow> vpath list \<Rightarrow> found) \<Rightarrow> vpath \<Rightarrow> vpath \<Rightarrow> vpath \<Rightarrow> VfsEntry \<Rightarrow> vpath list \<Rightarrow> found" where
  "find_loop fe root [] final current seen = Some (Inr (final, current), seen)"
| "find_loop fe root (c # cs) final current seen =
     (case current of
        Dir n es \<Rightarrow>
          (case find_step es c of
             Inl e \<Rightarrow> Some (Inl e, seen)
           | Inr current \<Rightarrow> find_loop fe root cs (final @ [c]) current seen)
      | Symlink l \<Rightarrow>
          (case fe (resolve_dest_from_root l root) seen of
             None \<Rightarrow> None
           | Some (Inl e, seen) \<Rightarrow> Some (Inl e, seen)
           | Some (Inr (resolved, Dir n es), seen) \<Rightarrow>
               (case find_step es c of
                  Inl e \<Rightarrow> Some (Inl e, seen)
                | Inr current \<Rightarrow> find_loop fe root cs (resolved @ [c]) current seen)
           | Some (Inr (resolved, _), seen) \<Rightarrow> Some (Inl path_not_found, seen))
      | File f \<Rightarrow> Some (Inl path_not_found, seen))"

definition find_entry_no_follow_inner ::
  "(vpath \<Rightarrow> vpath list \<Rightarrow> found) \<Rightarrow> VfsRoot \<Rightarrow> vpath \<Rightarrow> vpath list \<Rightarrow> found" where
  "find_entry_no_follow_inner fe r path seen =
     (case strip_prefix path (vfs_root_path r) of
        None \<Rightarrow> Some (Inl path_not_found, seen)
      | Some relative \<Rightarrow> find_loop fe (vfs_root_path r) relative (vfs_root_path r) (vfs_dir r) seen)"

fun find_entry_inner :: "VfsRoot \<Rightarrow> nat \<Rightarrow> vpath \<Rightarrow> vpath list \<Rightarrow> found" where
  "find_entry_inner r 0 path seen = None"
| "find_entry_inner r (Suc n) path seen =
     (case find_entry_no_follow_inner (find_entry_inner r n) r path seen of
        None \<Rightarrow> None
      | Some (Inl e, seen) \<Rightarrow> Some (Inl e, seen)
      | Some (Inr (resolved, Symlink l), seen) \<Rightarrow>
          if path \<in> set seen then Some (Inl (IoError OtherKind ''circular symlinks''), seen)
          else find_entry_inner r n (resolve_dest_from_root l (vfs_root_path r)) (path # seen)
      | Some (Inr (resolved, entry), seen) \<Rightarrow> Some (Inr (resolved, entry), seen))"

definition find_entry :: "VfsRoot \<Rightarrow> nat \<Rightarrow> vpath \<Rightarrow> (vpath \<times> VfsEntry) vfs_result option" where
  "find_entry r n path = map_option fst (find_entry_inner r n path [])"

definition find_entry_no_follow :: "VfsRoot \<Rightarrow> nat \<Rightarrow> vpath \<Rightarrow> (vpath \<times> VfsEntry) vfs_result option" where
  "find_entry_no_follow r n path = map_option fst (find_entry_no_follow_inner (find_entry_inner r n) r path [])"

subsection \<open>Operations on paths\<close>

text \<open>The fields of \<^verbatim>\<open>FsStat\<close> that are not constant.\<close>

record FsStat =
  is_directory :: bool
  is_file :: bool
  is_symlink :: bool
  stat_size :: u64

definition as_fs_stat :: "VfsEntry \<Rightarrow> FsStat" where
  "as_fs_stat e =
     (case e of
        Dir n es \<Rightarrow> \<lparr>is_directory = True, is_file = False, is_symlink = False, stat_size = 0\<rparr>
      | File f \<Rightarrow> \<lparr>is_directory = False, is_file = True, is_symlink = False, stat_size = file_len f\<rparr>
      | Symlink l \<Rightarrow> \<lparr>is_directory = False, is_file = False, is_symlink = True, stat_size = 0\<rparr>)"

record FsDirEntry =
  de_name :: string
  de_is_file :: bool
  de_is_directory :: bool
  de_is_symlink :: bool

definition bindV :: "'a vfs_result option \<Rightarrow> ('a \<Rightarrow> 'b vfs_result) \<Rightarrow> 'b vfs_result option" where
  "bindV r f = map_option (\<lambda>x. case x of Inl e \<Rightarrow> Inl e | Inr a \<Rightarrow> f a) r"

definition is_path_within :: "VfsRoot \<Rightarrow> vpath \<Rightarrow> bool" where
  "is_path_within r path \<longleftrightarrow> strip_prefix path (vfs_root_path r) \<noteq> None"

definition dir_entry :: "VfsRoot \<Rightarrow> nat \<Rightarrow> vpath \<Rightarrow> VfsEntry list vfs_result option" where
  "dir_entry r n path = bindV (find_entry r n path) (\<lambda>(_, entry).
     case entry of Dir _ es \<Rightarrow> Inr es | Symlink _ \<Rightarrow> Inl Panic | File _ \<Rightarrow> Inl (IoError OtherKind ''path is a file''))"

definition file_entry :: "VfsRoot \<Rightarrow> nat \<Rightarrow> vpath \<Rightarrow> VirtualFile vfs_result option" where
  "file_entry r n path = bindV (find_entry r n path) (\<lambda>(_, entry).
     case entry of Dir _ _ \<Rightarrow> Inl (IoError OtherKind ''path is a directory'') | Symlink _ \<Rightarrow> Inl Panic | File f \<Rightarrow> Inr f)"

definition read_dir :: "VfsRoot \<Rightarrow> nat \<Rightarrow> vpath \<Rightarrow> FsDirEntry list vfs_result option" where
  "read_dir r n path = bindV (dir_entry r n path) (\<lambda>es. Inr (map (\<lambda>e.
     \<lparr>de_name = entry_name e, de_is_file = (case e of File _ \<Rightarrow> True | _ \<Rightarrow> False),
      de_is_directory = (case e of Dir _ _ \<Rightarrow> True | _ \<Rightarrow> False),
      de_is_symlink = (case e of Symlink _ \<Rightarrow> True | _ \<Rightarrow> False)\<rparr>) es))"

definition read_link :: "VfsRoot \<Rightarrow> nat \<Rightarrow> vpath \<Rightarrow> vpath vfs_result option" where
  "read_link r n path = bindV (find_entry_no_follow r n path) (\<lambda>(_, entry).
     case entry of
       Symlink l \<Rightarrow> Inr (resolve_dest_from_root l (vfs_root_path r))
     | _ \<Rightarrow> Inl (IoError OtherKind ''not a symlink''))"

definition lstat :: "VfsRoot \<Rightarrow> nat \<Rightarrow> vpath \<Rightarrow> FsStat vfs_result option" where
  "lstat r n path = bindV (find_entry_no_follow r n path) (\<lambda>(_, entry). Inr (as_fs_stat entry))"

definition stat :: "VfsRoot \<Rightarrow> nat \<Rightarrow> vpath \<Rightarrow> FsStat vfs_result option" where
  "stat r n path = bindV (find_entry r n path) (\<lambda>(_, entry). Inr (as_fs_stat entry))"

definition canonicalize :: "VfsRoot \<Rightarrow> nat \<Rightarrow> vpath \<Rightarrow> vpath vfs_result option" where
  "canonicalize r n path = bindV (find_entry r n path) (\<lambda>(resolved, _). Inr resolved)"

subsection \<open>Files\<close>

text \<open>\<^verbatim>\<open>VirtualFile::read_file\<close>: the buffer after the call, and the number of bytes read.\<close>

definition read_file :: "VirtualFile \<Rightarrow> u64 \<Rightarrow> bytes \<Rightarrow> (bytes \<times> nat) vfs_result" where
  "read_file f pos buf =
     (case file_content f of
        Some content \<Rightarrow>
          let read_length = min (length buf) (length content)
          in Inr (take read_length content @ drop read_length buf, read_length)
      | None \<Rightarrow> Inl (IoError NotFound ''No content available''))"

definition read_file_all :: "VirtualFile \<Rightarrow> bytes vfs_result" where
  "read_file_all f =
     (case read_file f 0 (replicate (unat (file_len f)) 0) of Inl e \<Rightarrow> Inl e | Inr (buf, _) \<Rightarrow> Inr buf)"

record FileBackedVfsFile =
  open_file_entry :: VirtualFile
  open_pos :: u64

definition open_file :: "VfsRoot \<Rightarrow> nat \<Rightarrow> vpath \<Rightarrow> FileBackedVfsFile vfs_result option" where
  "open_file r n path = bindV (file_entry r n path) (\<lambda>f. Inr \<lparr>open_file_entry = f, open_pos = 0\<rparr>)"

datatype SeekFrom = SeekStart u64 | SeekEnd "64 word" | SeekCurrent "64 word"

definition before_start :: vfs_error where
  "before_start = IoError PermissionDenied
     ''An attempt was made to move the file pointer before the beginning of the file.''"

definition seek :: "SeekFrom \<Rightarrow> FileBackedVfsFile \<Rightarrow> FileBackedVfsFile \<times> u64 vfs_result" where
  "seek to fd =
     (case to of
        SeekStart pos \<Rightarrow> (fd\<lparr>open_pos := pos\<rparr>, Inr pos)
      | SeekEnd offset \<Rightarrow>
          if sint offset < 0 \<and> - offset > file_len (open_file_entry fd) then (fd, Inl before_start)
          else
            let pos = (if sint offset \<ge> 0 then file_len (open_file_entry fd) - offset
                       else file_len (open_file_entry fd) + - offset)
            in (fd\<lparr>open_pos := pos\<rparr>, Inr pos)
      | SeekCurrent offset \<Rightarrow>
          if sint offset \<ge> 0 then
            let pos = open_pos fd + offset in (fd\<lparr>open_pos := pos\<rparr>, Inr pos)
          else if - offset > open_pos fd then (fd, Inl before_start)
          else let pos = open_pos fd - - offset in (fd\<lparr>open_pos := pos\<rparr>, Inr pos))"

definition read_to_buf :: "bytes \<Rightarrow> FileBackedVfsFile \<Rightarrow> FileBackedVfsFile \<times> (bytes \<times> nat) vfs_result" where
  "read_to_buf buf fd =
     (let pos = open_pos fd;
          fd = fd\<lparr>open_pos := min (file_len (open_file_entry fd)) (pos + of_nat (length buf))\<rparr>
      in (fd, read_file (open_file_entry fd) pos buf))"

definition read_to_end :: "FileBackedVfsFile \<Rightarrow> FileBackedVfsFile \<times> bytes vfs_result" where
  "read_to_end fd =
     (let f = open_file_entry fd;
          pos = open_pos fd;
          fd = (if pos < file_len f then fd\<lparr>open_pos := file_len f\<rparr> else fd)
      in if pos > file_len f then (fd, Inr [])
         else
           (case read_file f pos (replicate (unat (file_len f - pos)) 0) of
              Inl e \<Rightarrow> (fd, Inl e)
            | Inr (buf, _) \<Rightarrow> (fd, Inr buf)))"

text \<open>The other methods of an open file.\<close>

datatype file_call = Write | WriteAll | Chmod | Datasync | Sync | StatFile | Lock | Unlock | Truncate | Utime | AsStdio

definition other_call :: "file_call \<Rightarrow> FileBackedVfsFile \<Rightarrow> FileBackedVfsFile \<times> unit vfs_result" where
  "other_call c fd = (fd, Inl NotSupported)"

end
