(* ===== verification/Vfs_Laws.thy ===== *)
theory Vfs_Laws
  imports Vfs "HOL-Library.Sublist"
begin

text \<open>
  Directories as maps from names to entries: the binary search finds what is there, insertions keep the order, and
  \<open>in_dir\<close> changes the directory at a path and nothing else.
\<close>

subsection \<open>Binary search\<close>

lemma search_loop_spec:
  assumes "sorted_wrt (<) ns" "left \<le> right" "right \<le> length ns"
    and "\<forall>i<left. ns ! i < x" "\<forall>i. right \<le> i \<and> i < length ns \<longrightarrow> x < ns ! i"
  shows "case search_loop ns x left right of
      Found i \<Rightarrow> i < length ns \<and> ns ! i = x
    | Absent i \<Rightarrow> i \<le> length ns \<and> (\<forall>j<i. ns ! j < x) \<and> (\<forall>j. i \<le> j \<and> j < length ns \<longrightarrow> x < ns ! j)"
  using assms
proof (induction ns x left right rule: search_loop.induct)
  case (1 ns x left right)
  let ?mid = "left + (right - left) div 2"
  show ?case
  proof (cases "left < right")
    case True
    then have mid: "?mid < length ns" "left \<le> ?mid" "?mid < right" using 1(5) by linarith+
    have less: "ns ! i < ns ! j" if "i < j" "j < length ns" for i j using 1(3) that by (rule sorted_wrt_nth_less)
    consider "ns ! ?mid < x" | "x < ns ! ?mid" | "ns ! ?mid = x" by fastforce
    then show ?thesis
    proof cases
      case 1
      have "\<forall>i<?mid + 1. ns ! i < x" using less [of _ ?mid] mid(1) 1 by (metis Suc_eq_plus1 less_SucE less_trans)
      then show ?thesis using "1.IH"(1) [OF True refl 1] "1.prems" mid True 1 by (simp add: search_loop.simps [of ns x left right])
    next
      case 2
      have "\<forall>i. ?mid \<le> i \<and> i < length ns \<longrightarrow> x < ns ! i" using less [of ?mid] 2 by (metis le_neq_implies_less less_trans)
      moreover have "\<not> ns ! ?mid < x" using 2 by simp
      ultimately show ?thesis using "1.IH"(2) [OF True refl _ 2] "1.prems" mid True 2
        by (simp add: search_loop.simps [of ns x left right] Let_def)
    next
      case 3
      then show ?thesis using True mid by (simp add: search_loop.simps [of ns x left right])
    qed
  next
    case False
    then have "search_loop ns x left right = Absent left" by (simp add: search_loop.simps [of ns x left right])
    then show ?thesis using "1.prems" False by simp
  qed
qed

definition names_ok :: "VfsEntry list \<Rightarrow> bool" where
  "names_ok es \<longleftrightarrow> sorted_wrt (<) (map entry_name es)"

lemma binary_search_spec:
  assumes "names_ok es"
  shows "case binary_search es c of
      Found i \<Rightarrow> i < length es \<and> map entry_name es ! i = c
    | Absent i \<Rightarrow> i \<le> length es \<and> (\<forall>j<i. map entry_name es ! j < c) \<and> (\<forall>j. i \<le> j \<and> j < length es \<longrightarrow> c < map entry_name es ! j)"
  using search_loop_spec [of "map entry_name es" 0 "length es" c] assms
  unfolding binary_search_def names_ok_def length_map by (metis less_irrefl_nat linorder_not_le not_less_zero order_refl)

definition lookup :: "VfsEntry list \<Rightarrow> string \<Rightarrow> VfsEntry option" where
  "lookup es = map_of (map (\<lambda>e. (entry_name e, e)) es)"

lemma names_distinct: "names_ok es \<Longrightarrow> distinct (map entry_name es)"
  by (simp add: names_ok_def strict_sorted_iff)

lemma lookup_iff:
  assumes "distinct (map entry_name es)"
  shows "lookup es c = Some e \<longleftrightarrow> e \<in> set es \<and> entry_name e = c"
proof -
  have "distinct (map fst (map (\<lambda>e. (entry_name e, e)) es))" using assms by (simp add: comp_def)
  then show ?thesis unfolding lookup_def by (subst map_of_eq_Some_iff) auto
qed

lemma lookup_None: "lookup es c = None \<longleftrightarrow> c \<notin> entry_name ` set es"
  by (simp add: lookup_def map_of_eq_None_iff image_image)

lemma binary_search_Found:
  assumes "names_ok es" "binary_search es c = Found i"
  shows "i < length es" "entry_name (es ! i) = c" "lookup es c = Some (es ! i)"
proof -
  have "i < length es \<and> entry_name (es ! i) = c"
    using binary_search_spec [OF assms(1), of c] assms(2) by auto
  then show "i < length es" "entry_name (es ! i) = c" "lookup es c = Some (es ! i)"
    using names_distinct [OF assms(1)] by (simp_all add: lookup_iff)
qed

lemma binary_search_Absent:
  assumes "names_ok es" "binary_search es c = Absent i"
  shows "lookup es c = None" "entry_name e = c \<Longrightarrow> names_ok (insert_at i e es)"
proof -
  let ?ns = "map entry_name es"
  have s: "i \<le> length es" "\<forall>j<i. ?ns ! j < c" "\<forall>j. i \<le> j \<and> j < length es \<longrightarrow> c < ?ns ! j"
    using binary_search_spec [OF assms(1), of c] unfolding assms(2) search.case by blast+
  have low: "n < c" if "n \<in> set (take i ?ns)" for n using that s(1,2) by (auto simp: in_set_conv_nth)
  have high: "c < n" if "n \<in> set (drop i ?ns)" for n using that s(1,3) by (auto simp: in_set_conv_nth)
  have "set ?ns = set (take i ?ns) \<union> set (drop i ?ns)" by (metis append_take_drop_id set_append)
  then have "c \<notin> set ?ns" using low high by blast
  then show "lookup es c = None" by (simp add: lookup_None)
  show "names_ok (insert_at i e es)" if "entry_name e = c"
  proof -
    have "sorted_wrt (<) (take i ?ns @ drop i ?ns)" using assms(1) by (simp add: names_ok_def)
    then show ?thesis using that low high
      unfolding names_ok_def insert_at_def map_append list.map take_map [symmetric] drop_map [symmetric] sorted_wrt_append
      by simp
  qed
qed

lemma distinct_mid: "distinct (xs @ y # ys) \<Longrightarrow> distinct (y # xs @ ys)"
  by auto

lemma lookup_insert_at:
  assumes "names_ok (insert_at i e es)"
  shows "lookup (insert_at i e es) c = (if c = entry_name e then Some e else lookup es c)"
proof -
  have d: "distinct (map entry_name (insert_at i e es))" using assms by (rule names_distinct)
  have set: "set (insert_at i e es) = insert e (set es)"
    unfolding insert_at_def set_append list.set(2) by (metis Un_insert_right append_take_drop_id set_append)
  have "distinct (take i (map entry_name es) @ entry_name e # drop i (map entry_name es))"
    using d by (simp add: insert_at_def take_map drop_map)
  then have d': "distinct (entry_name e # map entry_name es)" by (metis distinct_mid append_take_drop_id)
  show ?thesis
  proof (cases "lookup (insert_at i e es) c")
    case None
    then have "lookup es c = None" "c \<noteq> entry_name e" using set by (auto simp: lookup_None)
    then show ?thesis using None by simp
  next
    case (Some x)
    then have "x \<in> insert e (set es)" "entry_name x = c" using lookup_iff [OF d] set by auto
    then consider "x = e" | "x \<in> set es" "entry_name x \<noteq> entry_name e" using d' by (metis distinct.simps(2) image_eqI insertE set_map)
    then show ?thesis using Some d' \<open>entry_name x = c\<close> lookup_iff [of es c x] by cases simp_all
  qed
qed

lemma lookup_update:
  assumes ok: "names_ok es" and i: "i < length es" and n: "entry_name e = entry_name (es ! i)"
  shows "names_ok (es[i := e])" "lookup (es[i := e]) c = (if c = entry_name e then Some e else lookup es c)"
proof -
  have m: "map entry_name (es[i := e]) = map entry_name es" using n i by (simp add: map_update list_update_same_conv)
  then show ok': "names_ok (es[i := e])" using ok by (simp add: names_ok_def)
  have d: "distinct (map entry_name es)" "distinct (map entry_name (es[i := e]))" using ok ok' by (auto intro: names_distinct)
  show "lookup (es[i := e]) c = (if c = entry_name e then Some e else lookup es c)"
  proof (cases "c = entry_name e")
    case True
    then show ?thesis using i by (simp add: lookup_iff [OF d(2)] set_update_memI)
  next
    case False
    have "x \<in> set (es[i := e]) \<longleftrightarrow> x \<in> set es" if "entry_name x \<noteq> entry_name e" for x
      using that i n by (auto simp: in_set_conv_nth nth_list_update)
    then have "lookup (es[i := e]) c = Some x \<longleftrightarrow> lookup es c = Some x" for x
      using False by (auto simp: lookup_iff [OF d(1)] lookup_iff [OF d(2)])
    then have "lookup (es[i := e]) c = lookup es c" by (metis option.exhaust)
    then show ?thesis using False by simp
  qed
qed

subsection \<open>Trees\<close>

fun entry_ok :: "VfsEntry \<Rightarrow> bool" where
  "entry_ok (Dir n es) \<longleftrightarrow> names_ok es \<and> (\<forall>e\<in>set es. entry_ok e)"
| "entry_ok e \<longleftrightarrow> True"

abbreviation entries_ok :: "VfsEntry list \<Rightarrow> bool" where
  "entries_ok es \<equiv> names_ok es \<and> (\<forall>e\<in>set es. entry_ok e)"

text \<open>What is at a path: nothing, a directory (\<open>Some None\<close>), or a file or link. Links are not followed.\<close>

fun at :: "VfsEntry list \<Rightarrow> vpath \<Rightarrow> VfsEntry option option" where
  "at es [] = Some None"
| "at es (c # cs) =
     (case lookup es c of
        None \<Rightarrow> None
      | Some (Dir n ds) \<Rightarrow> at ds cs
      | Some e \<Rightarrow> if cs = [] then Some (Some e) else None)"

text \<open>The directory at a path, empty if it has to be made; nothing if a file or link is in the way.\<close>

fun dir_at :: "VfsEntry list \<Rightarrow> vpath \<Rightarrow> VfsEntry list option" where
  "dir_at es [] = Some es"
| "dir_at es (c # cs) =
     (case lookup es c of None \<Rightarrow> Some [] | Some (Dir n ds) \<Rightarrow> dir_at ds cs | Some e \<Rightarrow> None)"

lemma lookup_Nil [simp]: "lookup [] c = None"
  by (simp add: lookup_def)

lemma names_ok_Nil [simp]: "names_ok []"
  by (simp add: names_ok_def)

lemma dir_at_Nil [simp]: "dir_at [] p = Some []"
  by (cases p) simp_all

lemma at_Nil: "at [] p = (if p = [] then Some None else None)"
  by (cases p) simp_all

lemma lookup_ok: "entries_ok es \<Longrightarrow> lookup es c = Some e \<Longrightarrow> entry_ok e \<and> entry_name e = c"
  using lookup_iff [OF names_distinct] by blast

lemma sub_ok: "entries_ok es \<Longrightarrow> lookup es c = Some (Dir n ds) \<Longrightarrow> entries_ok ds \<and> n = c"
  using lookup_ok [of es c "Dir n ds"] by simp

lemma dir_at_ok: "entries_ok es \<Longrightarrow> dir_at es p = Some ds \<Longrightarrow> entries_ok ds"
proof (induction p arbitrary: es)
  case (Cons c cs)
  then show ?case using sub_ok [OF Cons.prems(1)] by (simp split: option.splits VfsEntry.splits) blast
qed simp

lemma at_dir_at: "dir_at es p = Some ds \<Longrightarrow> s \<noteq> [] \<Longrightarrow> at es (p @ s) = at ds s"
  by (induction p arbitrary: es) (auto simp: at_Nil split: option.splits VfsEntry.splits)

lemma dir_at_None: "dir_at es p = None \<longleftrightarrow> (\<exists>q e. prefix q p \<and> at es q = Some (Some e))"
proof (induction p arbitrary: es)
  case (Cons c cs)
  have "(\<exists>q e. prefix q (c # cs) \<and> at es q = Some (Some e)) \<longleftrightarrow> (\<exists>q e. prefix q cs \<and> at es (c # q) = Some (Some e))"
    by (auto simp: prefix_Cons)
  then show ?case using Cons.IH
    by (fastforce split: option.splits VfsEntry.splits)
qed auto

lemma insert_at_nth [simp]: "i \<le> length xs \<Longrightarrow> insert_at i x xs ! i = x" "length (insert_at i x xs) = Suc (length xs)"
  by (simp_all add: insert_at_def nth_append)

lemma set_insert_at: "set (insert_at i x xs) = insert x (set xs)"
  unfolding insert_at_def set_append list.set(2) by (metis Un_insert_right append_take_drop_id set_append)

text \<open>The entry of a name, made as an empty directory if there is none.\<close>

lemma ensure_spec:
  assumes ok: "entries_ok es"
    and step: "(case binary_search es c of Found i \<Rightarrow> (i, es) | Absent i \<Rightarrow> (i, insert_at i (Dir c []) es)) = (i, es1)"
  shows "entries_ok es1" "i < length es1" "es1 ! i = (case lookup es c of None \<Rightarrow> Dir c [] | Some e \<Rightarrow> e)"
    "lookup es1 d = (if d = c then Some (es1 ! i) else lookup es d)" "entry_name (es1 ! i) = c"
proof -
  have "entries_ok es1 \<and> i < length es1 \<and> es1 ! i = (case lookup es c of None \<Rightarrow> Dir c [] | Some e \<Rightarrow> e)
    \<and> lookup es1 d = (if d = c then Some (es1 ! i) else lookup es d) \<and> entry_name (es1 ! i) = c"
  proof (cases "binary_search es c")
    case (Found j)
    then show ?thesis using step ok binary_search_Found [OF _ Found] by auto
  next
    case (Absent j)
    have len: "j \<le> length es" using binary_search_spec [of es c] ok Absent by simp
    note a = binary_search_Absent [OF _ Absent]
    have n: "names_ok (insert_at j (Dir c []) es)" using ok by (intro a(2)) simp_all
    then show ?thesis using step ok Absent len a(1) lookup_insert_at [OF n, of d] by (auto simp: set_insert_at)
  qed
  then show "entries_ok es1" "i < length es1" "es1 ! i = (case lookup es c of None \<Rightarrow> Dir c [] | Some e \<Rightarrow> e)"
    "lookup es1 d = (if d = c then Some (es1 ! i) else lookup es d)" "entry_name (es1 ! i) = c" by blast+
qed

lemma entries_ok_update:
  assumes "entries_ok es" "i < length es" "entry_name e = entry_name (es ! i)" "entry_ok e"
  shows "entries_ok (es[i := e])"
  using assms lookup_update(1) [of es i e] set_update_subset_insert [of es i e] by blast

lemma at_replaced:
  assumes "\<And>d. lookup es' d = (if d = c then Some (Dir c ds2) else lookup es d)"
    and "\<And>rs. at es (c # rs) = (if rs = [] \<and> lookup es c = None then None else at ds0 rs)"
    and "\<And>r. at ds2 r = (case strip_prefix r cs of Some s \<Rightarrow> at ds' s | None \<Rightarrow> if prefix r cs then Some None else at ds0 r)"
  shows "at es' r = (case strip_prefix r (c # cs) of Some s \<Rightarrow> at ds' s | None \<Rightarrow> if prefix r (c # cs) then Some None else at es r)"
proof (cases r)
  case (Cons d rs)
  then show ?thesis using assms(1) assms(2) [of rs] assms(3) [of rs] by (cases "d = c") (auto split: option.splits)
qed simp

lemma in_dir_spec:
  assumes "entries_ok es"
  shows "case dir_at es p of
      None \<Rightarrow> in_dir p f es = Inl Panic
    | Some ds \<Rightarrow>
        (case f ds of
           Inl e \<Rightarrow> in_dir p f es = Inl e
         | Inr ds' \<Rightarrow> entries_ok ds' \<longrightarrow> (\<exists>es'. in_dir p f es = Inr es' \<and> entries_ok es' \<and>
             (\<forall>r. at es' r = (case strip_prefix r p of Some s \<Rightarrow> at ds' s | None \<Rightarrow> if prefix r p then Some None else at es r))))"
  using assms
proof (induction p arbitrary: es)
  case Nil
  then show ?case by (auto split: sum.split)
next
  case (Cons c cs)
  obtain i es1 where step: "(case binary_search es c of Found i \<Rightarrow> (i, es) | Absent i \<Rightarrow> (i, insert_at i (Dir c []) es)) = (i, es1)"
    by (metis surj_pair)
  note e = ensure_spec [OF Cons.prems step]
  show ?case
  proof (cases "es1 ! i")
    case (Dir n ds0)
    have n: "n = c" using e(5) Dir by simp
    have ok0: "entries_ok ds0" using e(1,2) Dir by (metis entry_ok.simps(1) nth_mem)
    have "lookup es c = None \<and> ds0 = [] \<or> lookup es c = Some (Dir c ds0)"
      using e(3) unfolding Dir n by (auto split: option.splits)
    then have dir: "dir_at es (c # cs) = dir_at ds0 cs" "at es (c # rs) = (if rs = [] \<and> lookup es c = None then None else at ds0 rs)" for rs
      by (auto simp: at_Nil)
    have run: "in_dir (c # cs) f es = (case in_dir cs f ds0 of Inl x \<Rightarrow> Inl x | Inr ds \<Rightarrow> Inr (es1[i := Dir c ds]))"
      using step Dir n by simp
    have ok: "entries_ok (es1[i := Dir c ds2])" if "entries_ok ds2" for ds2
      by (rule entries_ok_update) (use e that in simp_all)
    have look: "lookup (es1[i := Dir c ds2]) d = (if d = c then Some (Dir c ds2) else lookup es d)" for ds2 d
      using lookup_update(2) [of es1 i "Dir c ds2" d] e by simp
    show ?thesis
    proof (cases "dir_at ds0 cs")
      case (Some ds)
      show ?thesis
      proof (cases "f ds")
        case (Inr ds')
        have "\<exists>es'. in_dir (c # cs) f es = Inr es' \<and> entries_ok es' \<and> (\<forall>r. at es' r
            = (case strip_prefix r (c # cs) of Some s \<Rightarrow> at ds' s | None \<Rightarrow> if prefix r (c # cs) then Some None else at es r))"
          if ok': "entries_ok ds'"
        proof -
          obtain ds2 where ds2: "in_dir cs f ds0 = Inr ds2" "entries_ok ds2"
            and at2: "\<And>r. at ds2 r = (case strip_prefix r cs of Some s \<Rightarrow> at ds' s | None \<Rightarrow> if prefix r cs then Some None else at ds0 r)"
            using Cons.IH [OF ok0] Some Inr ok' by auto
          show ?thesis using run ds2 ok at_replaced [OF look dir(2) at2] by (intro exI [of _ "es1[i := Dir c ds2]"]) simp
        qed
        then show ?thesis using dir(1) Some Inr by simp
      qed (use Cons.IH [OF ok0] run dir(1) Some in simp)
    qed (use Cons.IH [OF ok0] run dir(1) in simp)
  qed (use e(3) step in \<open>auto split: option.splits\<close>)
qed

lemma strip_prefix_Some: "strip_prefix x p = Some s \<longleftrightarrow> x = p @ s"
  by (induction x p rule: strip_prefix.induct) auto

lemma strip_prefix_append [simp]: "strip_prefix (p @ s) p = Some s"
  by (simp add: strip_prefix_Some)

lemma strip_prefix_None: "strip_prefix x p = None \<longleftrightarrow> \<not> prefix p x"
  using strip_prefix_Some [of x p] by (cases "strip_prefix x p") (auto simp: prefix_def)

end
