(* ===== verification/Vfs_Find.thy ===== *)
theory Vfs_Find
  imports Vfs_Laws
begin

text \<open>
  Finding entries. When the targets of links pass through no link on their way, a lookup ends, cycles of links included; when
  they also are no links, a lookup is a plain walk that goes on from the target at every link, and errors say that there
  is nothing. Reads of an open file.
\<close>

declare find_step.simps [simp del] find_entry_inner.simps(2) [simp del]

subsection \<open>Walks\<close>

text \<open>The entry at a path; links are not followed.\<close>

fun entry_at :: "VfsEntry \<Rightarrow> vpath \<Rightarrow> VfsEntry option" where
  "entry_at e [] = Some e"
| "entry_at (Dir n es) (c # cs) = (case lookup es c of None \<Rightarrow> None | Some e \<Rightarrow> entry_at e cs)"
| "entry_at e (c # cs) = None"

abbreviation is_link :: "VfsEntry \<Rightarrow> bool" where
  "is_link e \<equiv> (\<exists>l. e = Symlink l)"

definition link_on :: "VfsEntry \<Rightarrow> vpath \<Rightarrow> bool" where
  "link_on d p \<longleftrightarrow> (\<exists>q l. prefix q p \<and> entry_at d q = Some (Symlink l))"

definition link_inside :: "VfsEntry \<Rightarrow> vpath \<Rightarrow> bool" where
  "link_inside d p \<longleftrightarrow> (\<exists>q l. strict_prefix q p \<and> entry_at d q = Some (Symlink l))"

lemma entry_at_snoc: "entry_at d (p @ [c]) = (case entry_at d p of Some (Dir n es) \<Rightarrow> lookup es c | _ \<Rightarrow> None)"
  by (induction d p rule: entry_at.induct) (auto split: option.splits VfsEntry.splits)

lemma entry_at_append: "entry_at d (p @ q) = (case entry_at d p of None \<Rightarrow> None | Some e \<Rightarrow> entry_at e q)"
  by (induction d p rule: entry_at.induct) (auto split: option.splits)

lemma entry_at_ok: "entry_ok d \<Longrightarrow> entry_at d p = Some e \<Longrightarrow> entry_ok e"
proof (induction d p rule: entry_at.induct)
  case (2 n es c cs)
  then show ?case using lookup_ok [of es c] by (auto split: option.splits)
qed auto

lemma find_step_lookup:
  assumes "names_ok es"
  shows "find_step es c = (case lookup es c of None \<Rightarrow> Inl path_not_found | Some e \<Rightarrow> Inr e)"
  using binary_search_Found [OF assms, of c] binary_search_Absent [OF assms, of c]
  by (auto simp: find_step.simps split: search.splits)

text \<open>A walk through directories only.\<close>

lemma find_loop_plain:
  assumes "entry_ok d" "\<not> link_inside d p"
  shows "find_loop fe root p final d seen =
    (case entry_at d p of None \<Rightarrow> Some (Inl path_not_found, seen) | Some e \<Rightarrow> Some (Inr (final @ p, e), seen))"
  using assms
proof (induction p arbitrary: d final)
  case (Cons c cs)
  show ?case
  proof (cases d)
    case (Dir n es)
    have ok: "entries_ok es" using Cons.prems(1) Dir by simp
    show ?thesis
    proof (cases "lookup es c")
      case None
      then show ?thesis using ok Dir by (simp add: find_step_lookup)
    next
      case (Some e)
      have "\<not> link_inside e cs"
      proof
        assume "link_inside e cs"
        then obtain q l where "strict_prefix q cs" "entry_at e q = Some (Symlink l)" by (auto simp: link_inside_def)
        then have "strict_prefix (c # q) (c # cs)" "entry_at d (c # q) = Some (Symlink l)" using Dir Some by simp_all
        then show False using Cons.prems(2) unfolding link_inside_def by blast
      qed
      then show ?thesis using Cons.IH [of e "final @ [c]"] lookup_ok [OF ok Some] ok Dir Some
        by (simp add: find_step_lookup split: option.split)
    qed
  next
    case (Symlink l)
    then have "link_inside d (c # cs)" unfolding link_inside_def by (intro exI [of _ "[]"]) simp
    then show ?thesis using Cons.prems(2) by simp
  qed simp
qed simp

lemma entry_at_inside: "entry_at d p = Some e \<Longrightarrow> \<not> link_inside d p"
proof
  assume e: "entry_at d p = Some e" and "link_inside d p"
  then obtain q l where q: "strict_prefix q p" "entry_at d q = Some (Symlink l)" by (auto simp: link_inside_def)
  then obtain c cs where "p = q @ c # cs" by (auto elim: strict_prefixE')
  then show False using e q(2) by (simp add: entry_at_append)
qed

lemma link_on_iff: "link_on d p \<longleftrightarrow> link_inside d p \<or> (\<exists>l. entry_at d p = Some (Symlink l))"
  unfolding link_on_def link_inside_def by (metis prefix_order.le_less)

lemma find_no_follow_root:
  "find_entry_no_follow_inner fe r (vfs_root_path r @ p) seen = find_loop fe (vfs_root_path r) p (vfs_root_path r) (vfs_dir r) seen"
  using strip_prefix_append by (simp add: find_entry_no_follow_inner_def)

lemma find_entry_plain:
  assumes "entry_ok (vfs_dir r)" "\<not> link_on (vfs_dir r) p"
  shows "find_entry_inner r (Suc n) (vfs_root_path r @ p) seen =
    Some (case entry_at (vfs_dir r) p of None \<Rightarrow> Inl path_not_found | Some e \<Rightarrow> Inr (vfs_root_path r @ p, e), seen)"
  using assms by (auto simp: find_entry_inner.simps(2) find_no_follow_root find_loop_plain link_on_iff split: option.split VfsEntry.split)

subsection \<open>Links to entries that are no links\<close>

definition canonical_links :: "VfsEntry \<Rightarrow> bool" where
  "canonical_links d \<longleftrightarrow> (\<forall>q l. entry_at d q = Some (Symlink l) \<longrightarrow> \<not> link_on d (dest_parts l))"

text \<open>Where a path leads, with the last component followed if it is a link; the walk with the links inside followed.\<close>

definition follow :: "VfsEntry \<Rightarrow> vpath \<Rightarrow> vpath" where
  "follow d p = (case entry_at d p of Some (Symlink l) \<Rightarrow> dest_parts l | _ \<Rightarrow> p)"

fun walk :: "VfsEntry \<Rightarrow> vpath \<Rightarrow> vpath \<Rightarrow> vpath option" where
  "walk d p [] = Some p"
| "walk d p (c # cs) =
     (case entry_at d (follow d p) of
        Some (Dir n es) \<Rightarrow> if lookup es c = None then None else walk d (follow d p @ [c]) cs
      | _ \<Rightarrow> None)"

definition real_path :: "VfsEntry \<Rightarrow> vpath \<Rightarrow> vpath option" where
  "real_path d p = (case walk d [] p of
     None \<Rightarrow> None | Some q \<Rightarrow> if entry_at d (follow d q) = None then None else Some (follow d q))"

lemma walk_entry: "entry_at d p \<noteq> None \<Longrightarrow> walk d p cs = Some q \<Longrightarrow> entry_at d q \<noteq> None"
proof (induction cs arbitrary: p)
  case (Cons c cs)
  then show ?case using Cons.IH [of "follow d p @ [c]"] by (auto simp: entry_at_snoc split: option.splits VfsEntry.splits if_splits)
qed simp

lemma find_loop_walk:
  assumes ok: "entry_ok (vfs_dir r)" and can: "canonical_links (vfs_dir r)"
    and e: "entry_at (vfs_dir r) p = Some e"
  shows "find_loop (find_entry_inner r (Suc n)) (vfs_root_path r) cs (vfs_root_path r @ p) e seen =
    Some (case walk (vfs_dir r) p cs of None \<Rightarrow> Inl path_not_found
            | Some q \<Rightarrow> Inr (vfs_root_path r @ q, the (entry_at (vfs_dir r) q)), seen)"
  using e
proof (induction cs arbitrary: p e)
  case (Cons c cs)
  let ?d = "vfs_dir r" and ?root = "vfs_root_path r"
  have step: "(case find_step es c of Inl x \<Rightarrow> Some (Inl x, seen)
      | Inr e \<Rightarrow> find_loop (find_entry_inner r (Suc n)) ?root cs ((?root @ q) @ [c]) e seen) =
    Some (case (if lookup es c = None then None else walk ?d (q @ [c]) cs) of None \<Rightarrow> Inl path_not_found
        | Some q \<Rightarrow> Inr (?root @ q, the (entry_at ?d q)), seen)"
    if q: "entry_at ?d q = Some (Dir m es)" for q m es
  proof -
    have "names_ok es" using entry_at_ok [OF ok q] by simp
    then show ?thesis using Cons.IH [of "q @ [c]"] q
      by (simp add: find_step_lookup entry_at_snoc split: option.split)
  qed
  show ?case
  proof (cases e)
    case (Dir m es)
    then have "follow ?d p = p" using Cons.prems by (simp add: follow_def)
    then show ?thesis using Dir Cons.prems step [of p] by auto
  next
    case (File f)
    then show ?thesis using Cons.prems by (simp add: follow_def)
  next
    case (Symlink l)
    then have l: "\<not> link_on ?d (dest_parts l)" "follow ?d p = dest_parts l"
      using Cons.prems can by (auto simp: canonical_links_def follow_def)
    have "find_entry_inner r (Suc n) (?root @ dest_parts l) seen =
      Some (case entry_at ?d (dest_parts l) of None \<Rightarrow> Inl path_not_found | Some e \<Rightarrow> Inr (?root @ dest_parts l, e), seen)"
      by (rule find_entry_plain [OF ok l(1)])
    then show ?thesis using Symlink l step [of "dest_parts l"]
      by (auto simp: resolve_dest_from_root_def link_on_iff split: option.split VfsEntry.split)
  qed
qed simp

lemma find_entry_real_path:
  assumes dir: "vfs_dir r = Dir m es" and ok: "entry_ok (vfs_dir r)" and can: "canonical_links (vfs_dir r)"
  shows "find_entry r (Suc (Suc n)) (vfs_root_path r @ p) =
    Some (case real_path (vfs_dir r) p of None \<Rightarrow> Inl path_not_found
            | Some q \<Rightarrow> Inr (vfs_root_path r @ q, the (entry_at (vfs_dir r) q)))"
proof -
  let ?d = "vfs_dir r" and ?root = "vfs_root_path r"
  have loop: "find_entry_no_follow_inner (find_entry_inner r (Suc n)) r (?root @ p) [] =
      Some (case walk ?d [] p of None \<Rightarrow> Inl path_not_found | Some q \<Rightarrow> Inr (?root @ q, the (entry_at ?d q)), [])"
    using find_loop_walk [OF ok can, of "[]" ?d n p "[]"] unfolding find_no_follow_root by simp
  show ?thesis
  proof (cases "walk ?d [] p")
    case None
    then show ?thesis using loop by (simp add: find_entry_def find_entry_inner.simps(2) [of r "Suc n"] real_path_def)
  next
    case (Some q)
    then obtain e where e: "entry_at ?d q = Some e" using walk_entry [of ?d "[]" p q] by auto
    note unfold = find_entry_def find_entry_inner.simps(2) [of r "Suc n"] real_path_def follow_def
    show ?thesis
    proof (cases e)
      case (Symlink l)
      then have "\<not> link_on ?d (dest_parts l)" using can e by (auto simp: canonical_links_def)
      from find_entry_plain [OF ok this, of n "[?root @ p]"]
      show ?thesis using loop Some e Symlink
        by (simp add: unfold resolve_dest_from_root_def split: option.split)
    qed (use loop Some e in \<open>simp_all add: unfold\<close>)
  qed
qed

lemma walk_plain: "entry_at d (p @ cs) \<noteq> None \<Longrightarrow> \<not> link_inside d (p @ cs) \<Longrightarrow> walk d p cs = Some (p @ cs)"
proof (induction cs arbitrary: p)
  case (Cons c cs)
  obtain e where e: "entry_at d p = Some e" "entry_at e (c # cs) \<noteq> None"
    using Cons.prems(1) by (auto simp: entry_at_append split: option.splits)
  then obtain n es where d: "e = Dir n es" by (cases e) auto
  have "lookup es c \<noteq> None" using e(2) d by (auto split: option.splits)
  then show ?case using Cons.IH [of "p @ [c]"] Cons.prems e(1) d by (simp add: follow_def)
qed simp

lemma real_path_fixed:
  assumes can: "canonical_links d" and p: "real_path d p = Some q"
  shows "real_path d q = Some q" "\<not> link_on d q" "entry_at d q \<noteq> None"
proof -
  obtain u where u: "walk d [] p = Some u" "q = follow d u" "entry_at d q \<noteq> None"
    using p by (auto simp: real_path_def split: option.splits if_splits)
  then obtain e where e: "entry_at d u = Some e" using walk_entry [of d "[]" p u] by auto
  show on: "\<not> link_on d q"
  proof (cases e)
    case (Symlink l)
    then show ?thesis using can e u(2) by (auto simp: canonical_links_def follow_def)
  qed (use e u(2) entry_at_inside [OF e] in \<open>auto simp: follow_def link_on_iff\<close>)
  show "entry_at d q \<noteq> None" by (rule u(3))
  have "walk d [] q = Some q" using walk_plain [of d "[]" q] u(3) on by (simp add: link_on_iff)
  moreover have "follow d q = q" using on by (auto simp: follow_def link_on_iff split: option.split VfsEntry.split)
  ultimately show "real_path d q = Some q" using u(3) by (simp add: real_path_def)
qed

subsection \<open>Lookups end\<close>

definition direct_links :: "VfsEntry \<Rightarrow> bool" where
  "direct_links d \<longleftrightarrow> (\<forall>q l. entry_at d q = Some (Symlink l) \<longrightarrow> \<not> link_inside d (dest_parts l))"

fun link_dests :: "VfsEntry \<Rightarrow> vpath list" where
  "link_dests (Dir n es) = concat (map link_dests es)"
| "link_dests (File f) = []"
| "link_dests (Symlink l) = [dest_parts l]"

lemma link_dests_entry: "entry_at d q = Some (Symlink l) \<Longrightarrow> dest_parts l \<in> set (link_dests d)"
proof (induction d q rule: entry_at.induct)
  case (2 n es c cs)
  then obtain e where e: "lookup es c = Some e" "dest_parts l \<in> set (link_dests e)" by (auto split: option.splits)
  then have "e \<in> set es" unfolding lookup_def by (auto dest!: map_of_SomeD)
  then show ?case using e(2) by auto
qed auto

text \<open>The paths of targets that have not been seen.\<close>

definition unseen :: "VfsRoot \<Rightarrow> vpath list \<Rightarrow> vpath set" where
  "unseen r seen = (\<lambda>t. vfs_root_path r @ t) ` set (link_dests (vfs_dir r)) - set seen"

lemma unseen_finite [simp]: "finite (unseen r seen)"
  by (simp add: unseen_def)

lemma unseen_card: "card (unseen r seen) \<le> length (link_dests (vfs_dir r))"
proof -
  have "card (unseen r seen) \<le> card ((\<lambda>t. vfs_root_path r @ t) ` set (link_dests (vfs_dir r)))"
    by (rule card_mono) (auto simp: unseen_def)
  also have "\<dots> \<le> length (link_dests (vfs_dir r))" by (meson card_image_le card_length finite_set le_trans)
  finally show ?thesis .
qed

lemma find_target_returns:
  assumes ok: "entry_ok (vfs_dir r)" and direct: "direct_links (vfs_dir r)"
    and q: "entry_at (vfs_dir r) q = Some (Symlink l)" and n: "card (unseen r seen) < n"
  shows "find_entry_inner r n (resolve_dest_from_root l (vfs_root_path r)) seen \<noteq> None"
  using q n
proof (induction n arbitrary: q l seen)
  case (Suc n)
  let ?p = "vfs_root_path r @ dest_parts l"
  have "\<not> link_inside (vfs_dir r) (dest_parts l)" using direct Suc.prems(1) by (auto simp: direct_links_def)
  note plain = find_loop_plain [OF ok this, of "find_entry_inner r n" "vfs_root_path r" "vfs_root_path r" seen]
  show ?case
  proof (cases "\<exists>l'. entry_at (vfs_dir r) (dest_parts l) = Some (Symlink l') \<and> ?p \<notin> set seen")
    case True
    then obtain l' where l': "entry_at (vfs_dir r) (dest_parts l) = Some (Symlink l')" "?p \<notin> set seen" by blast
    have "?p \<in> unseen r seen" using link_dests_entry [OF Suc.prems(1)] l'(2) by (simp add: unseen_def)
    moreover have "unseen r (?p # seen) = unseen r seen - {?p}" by (auto simp: unseen_def)
    ultimately have "card (unseen r (?p # seen)) < n" using Suc.prems(2) card_Diff1_less [of "unseen r seen" ?p] by simp
    then show ?thesis using Suc.IH [OF l'(1)] l' plain
      by (simp add: find_entry_inner.simps(2) find_no_follow_root resolve_dest_from_root_def)
  next
    case False
    then show ?thesis using plain
      by (auto simp: find_entry_inner.simps(2) find_no_follow_root resolve_dest_from_root_def split: option.split VfsEntry.split)
  qed
qed simp

text \<open>Lookups give entries of the tree.\<close>

definition in_tree :: "VfsRoot \<Rightarrow> VfsEntry \<Rightarrow> bool" where
  "in_tree r e \<longleftrightarrow> (\<exists>q. entry_at (vfs_dir r) q = Some e)"

definition finds_in_tree :: "VfsRoot \<Rightarrow> (vpath \<Rightarrow> vpath list \<Rightarrow> found) \<Rightarrow> bool" where
  "finds_in_tree r fe \<longleftrightarrow> (\<forall>p seen x e seen'. fe p seen = Some (Inr (x, e), seen') \<longrightarrow> in_tree r e)"

lemma find_step_in_tree:
  assumes ok: "entry_ok (vfs_dir r)" and d: "in_tree r (Dir n es)" and e: "find_step es c = Inr e"
  shows "in_tree r e"
proof -
  obtain q where q: "entry_at (vfs_dir r) q = Some (Dir n es)" using d by (auto simp: in_tree_def)
  have "names_ok es" using entry_at_ok [OF ok q] by simp
  then have "lookup es c = Some e" using e by (auto simp: find_step_lookup split: option.splits)
  then have "entry_at (vfs_dir r) (q @ [c]) = Some e" using q by (simp add: entry_at_snoc)
  then show ?thesis unfolding in_tree_def by blast
qed

lemma find_loop_in_tree:
  assumes ok: "entry_ok (vfs_dir r)" and fe: "finds_in_tree r fe"
  shows "in_tree r e \<Longrightarrow> find_loop fe root cs final e seen = Some (Inr (x, e'), seen') \<Longrightarrow> in_tree r e'"
proof (induction cs arbitrary: final e seen)
  case (Cons c cs)
  have step: "in_tree r e'" if "in_tree r (Dir n es)" "find_step es c = Inr e2"
    "find_loop fe root cs final e2 seen = Some (Inr (x, e'), seen')" for n es final seen e2
    by (rule Cons.IH [OF find_step_in_tree [OF ok that(1,2)] that(3)])
  have sub: "in_tree r (Dir n es)" if "fe p seen = Some (Inr (y, Dir n es), seen')" for p seen y n es seen'
    using fe that unfolding finds_in_tree_def by blast
  show ?case
  proof (cases e)
    case (Dir n es)
    then show ?thesis using Cons.prems step by (auto split: sum.splits)
  next
    case (Symlink l)
    then show ?thesis using Cons.prems sub step
      by (auto split: option.splits prod.splits sum.splits VfsEntry.splits) blast
  qed (use Cons.prems in simp)
qed simp

lemma find_in_tree:
  assumes ok: "entry_ok (vfs_dir r)"
  shows "finds_in_tree r (find_entry_inner r n)"
proof (induction n)
  case 0
  then show ?case by (simp add: finds_in_tree_def)
next
  case (Suc n)
  have root: "in_tree r (vfs_dir r)" unfolding in_tree_def by (intro exI [of _ "[]"]) simp
  have "in_tree r e" if e: "find_entry_inner r (Suc n) p seen = Some (Inr (x, e), seen')" for p seen x e seen'
  proof -
    have in1: "in_tree r e1" if "find_entry_no_follow_inner (find_entry_inner r n) r p seen = Some (Inr (y, e1), s1)" for y e1 s1
      using that find_loop_in_tree [OF ok Suc root] by (auto simp: find_entry_no_follow_inner_def split: option.splits)
    show ?thesis using e in1 Suc unfolding find_entry_inner.simps(2) finds_in_tree_def
      by (auto split: option.splits prod.splits sum.splits VfsEntry.splits if_splits) blast
  qed
  then show ?case unfolding finds_in_tree_def by blast
qed

lemma find_loop_returns:
  assumes ok: "entry_ok (vfs_dir r)" and direct: "direct_links (vfs_dir r)" and n: "length (link_dests (vfs_dir r)) < n"
  shows "in_tree r e \<Longrightarrow> find_loop (find_entry_inner r n) (vfs_root_path r) cs final e seen \<noteq> None"
proof (induction cs arbitrary: final e seen)
  case (Cons c cs)
  have step: "find_loop (find_entry_inner r n) (vfs_root_path r) cs final e2 seen \<noteq> None"
    if "in_tree r (Dir m es)" "find_step es c = Inr e2" for m es final seen e2
    by (rule Cons.IH) (rule find_step_in_tree [OF ok that])
  show ?case
  proof (cases e)
    case (Dir m es)
    then show ?thesis using Cons.prems step by (auto split: sum.split)
  next
    case (Symlink l)
    then obtain q where q: "entry_at (vfs_dir r) q = Some (Symlink l)" using Cons.prems by (auto simp: in_tree_def)
    have small: "card (unseen r seen) < n" using n unseen_card [of r seen] by simp
    obtain y s1 where y: "find_entry_inner r n (resolve_dest_from_root l (vfs_root_path r)) seen = Some (y, s1)"
      using find_target_returns [OF ok direct q small] by auto
    have "in_tree r (Dir m es)" if "y = Inr (x, Dir m es)" for x m es
      using find_in_tree [OF ok, of n] y that unfolding finds_in_tree_def by blast
    then show ?thesis using Symlink y step by (auto split: sum.split prod.split VfsEntry.split)
  qed simp
qed simp

lemma find_entry_returns_inner:
  assumes ok: "entry_ok (vfs_dir r)" and direct: "direct_links (vfs_dir r)" and n: "length (link_dests (vfs_dir r)) < n"
  shows "find_entry_inner r (Suc n) p seen \<noteq> None"
proof -
  have root: "in_tree r (vfs_dir r)" unfolding in_tree_def by (intro exI [of _ "[]"]) simp
  have "find_entry_no_follow_inner (find_entry_inner r n) r p seen \<noteq> None"
    using find_loop_returns [OF ok direct n root] unfolding find_entry_no_follow_inner_def by (cases "strip_prefix p (vfs_root_path r)") simp_all
  then obtain y s1 where y: "find_entry_no_follow_inner (find_entry_inner r n) r p seen = Some (y, s1)" by auto
  have "find_entry_inner r n (resolve_dest_from_root l (vfs_root_path r)) (p # s1) \<noteq> None" if "y = Inr (x, Symlink l)" for x l
  proof -
    have "in_tree r (Symlink l)" using y that find_loop_in_tree [OF ok find_in_tree [OF ok] root]
      by (auto simp: find_entry_no_follow_inner_def split: option.splits)
    then obtain q where q: "entry_at (vfs_dir r) q = Some (Symlink l)" by (auto simp: in_tree_def)
    have "card (unseen r (p # s1)) < n" using n unseen_card [of r "p # s1"] by simp
    then show ?thesis by (rule find_target_returns [OF ok direct q])
  qed
  then show ?thesis using y by (auto simp: find_entry_inner.simps(2) split: sum.split prod.split VfsEntry.split)
qed

text \<open>A link whose target passes through the link itself is never resolved: nothing is marked as seen before the
  recursion.\<close>

lemma endless_link:
  fixes a b :: string
  defines "r \<equiv> \<lparr>vfs_dir = Dir ''v'' [Symlink \<lparr>link_name = a, dest_parts = [a, b]\<rparr>], vfs_root_path = []\<rparr>"
  shows "find_entry r n [a, b] = None"
proof -
  have step: "find_step [Symlink \<lparr>link_name = a, dest_parts = [a, b]\<rparr>] a = Inr (Symlink \<lparr>link_name = a, dest_parts = [a, b]\<rparr>)"
    by (simp add: find_step_lookup names_ok_def lookup_def)
  have "find_entry_inner r n [a, b] seen = None" for seen
  proof (induction n)
    case (Suc n)
    then show ?case
      by (simp add: find_entry_inner.simps(2) find_entry_no_follow_inner_def r_def step resolve_dest_from_root_def)
  qed simp
  then show ?thesis by (simp add: find_entry_def)
qed

subsection \<open>Reads\<close>

lemma unat_u64: "n < 2 ^ 64 \<Longrightarrow> unat (of_nat n :: u64) = n"
  by (simp add: unat_of_nat take_bit_nat_eq_self)

lemma read_file_content:
  "file_content f = Some c \<Longrightarrow> read_file f pos buf = Inr (take (length buf) c @ drop (length c) buf, min (length buf) (length c))"
  by (simp add: read_file_def Let_def min_def)

lemma read_file_all_content:
  assumes "file_content f = Some c" "file_len f = of_nat (length c)" "length c < 2 ^ 64"
  shows "read_file_all f = Inr c"
  using assms by (simp add: read_file_all_def read_file_content unat_u64)

text \<open>A seek relative to the end moves away from the direction that is asked for.\<close>

lemma seek_end_direction:
  assumes "0 \<le> sint off"
  shows "seek (SeekEnd off) fd = (fd\<lparr>open_pos := file_len (open_file_entry fd) - off\<rparr>, Inr (file_len (open_file_entry fd) - off))"
  using assms by (simp add: seek_def Let_def)

text \<open>Both conditions on links are checked by going through the targets.\<close>

lemma canonical_links_check:
  "(\<forall>t\<in>set (link_dests d). \<forall>q\<in>set (prefixes t). \<forall>l. entry_at d q \<noteq> Some (Symlink l)) \<Longrightarrow> canonical_links d"
  using link_dests_entry unfolding canonical_links_def link_on_def by (metis in_set_prefixes)

lemma direct_links_check:
  "(\<forall>t\<in>set (link_dests d). \<forall>q\<in>set (prefixes t). q \<noteq> t \<longrightarrow> (\<forall>l. entry_at d q \<noteq> Some (Symlink l))) \<Longrightarrow> direct_links d"
  using link_dests_entry unfolding direct_links_def link_inside_def strict_prefix_def by (metis in_set_prefixes)

subsection \<open>Properties\<close>

text \<open>C10. In a tree in which names are ordered and the targets of links neither are nor pass through links, a lookup
  goes from component to component and on from the target at every link: it gives the entry there with its path, or
  reports that there is none. The path in the result passes through no link, so \<^verbatim>\<open>canonicalize\<close> is idempotent.\<close>

theorem find_entry_resolves:
  assumes "vfs_dir r = Dir m es" "entry_ok (vfs_dir r)" "canonical_links (vfs_dir r)"
  shows "find_entry r (Suc (Suc n)) (vfs_root_path r @ p) =
      Some (case real_path (vfs_dir r) p of None \<Rightarrow> Inl path_not_found
              | Some q \<Rightarrow> Inr (vfs_root_path r @ q, the (entry_at (vfs_dir r) q)))
    \<and> (canonicalize r (Suc (Suc n)) (vfs_root_path r @ p) = Some (Inr q) \<longrightarrow> canonicalize r (Suc (Suc n)) q = Some (Inr q))"
proof -
  let ?can = "canonicalize r (Suc (Suc n))" and ?d = "vfs_dir r"
  note found = find_entry_real_path [OF assms, of n]
  have can: "?can (vfs_root_path r @ p) =
      Some (case real_path ?d p of None \<Rightarrow> Inl path_not_found | Some q \<Rightarrow> Inr (vfs_root_path r @ q))" for p
    by (simp add: canonicalize_def bindV_def found split: option.split)
  have "?can q = Some (Inr q)" if q: "?can (vfs_root_path r @ p) = Some (Inr q)"
  proof -
    obtain u where u: "real_path ?d p = Some u" "q = vfs_root_path r @ u" using q can [of p] by (auto split: option.splits)
    then show ?thesis using can [of u] real_path_fixed(1) [OF assms(3) u(1)] by simp
  qed
  then show ?thesis using found by blast
qed

text \<open>A directory with a file and a link to it.\<close>

definition demo_file :: VirtualFile where
  "demo_file = \<lparr>file_name = ''f'', file_offset = 0, file_len = 2, file_content = Some [7, 8]\<rparr>"

definition demo_dir :: VfsEntry where
  "demo_dir = Dir ''v'' [Dir ''d'' [File demo_file], Symlink \<lparr>link_name = ''l'', dest_parts = [''d'']\<rparr>]"

definition demo_root :: VfsRoot where
  "demo_root = \<lparr>vfs_dir = demo_dir, vfs_root_path = [''srv'']\<rparr>"

lemma demo_dir_ok: "entry_ok demo_dir"
  by (simp add: demo_dir_def names_ok_def demo_file_def less_char_def)

lemma demo_canonical: "canonical_links demo_dir"
  by (rule canonical_links_check) (simp add: demo_dir_def lookup_def)

theorem find_entry_resolves_witness:
  "find_entry demo_root 2 [''srv'', ''l'', ''f''] = Some (Inr ([''srv'', ''d'', ''f''], File demo_file))"
  using find_entry_resolves [of demo_root "''v''" _ 0 "[''l'', ''f'']" "[]"] demo_dir_ok demo_canonical
  by (simp add: demo_root_def demo_dir_def demo_file_def real_path_def follow_def lookup_def eval_nat_numeral)

text \<open>C16. When the targets of links pass through no link on their way, every lookup returns, whether or not links form
  cycles: the depth of recursion is at most the number of links and two more.\<close>

theorem find_entry_returns:
  assumes "entry_ok (vfs_dir r)" "direct_links (vfs_dir r)" "length (link_dests (vfs_dir r)) + 2 \<le> n"
  shows "\<exists>res. find_entry r n path = Some res"
proof -
  obtain k where k: "n = Suc k" "length (link_dests (vfs_dir r)) < k" using assms(3) by (cases n) auto
  then show ?thesis using find_entry_returns_inner [OF assms(1,2) k(2), of path "[]"] by (auto simp: find_entry_def)
qed

text \<open>Two links to each other.\<close>

theorem find_entry_returns_witness:
  "\<exists>res. find_entry \<lparr>vfs_dir = Dir ''v'' [Symlink \<lparr>link_name = ''a'', dest_parts = [''b'']\<rparr>,
      Symlink \<lparr>link_name = ''b'', dest_parts = [''a'']\<rparr>], vfs_root_path = [''srv'']\<rparr> 4 [''srv'', ''a'', ''c''] = Some res"
  by (rule find_entry_returns)
    (simp_all add: names_ok_def less_char_def lookup_def direct_links_check)

text \<open>A sequence of reads into the given buffers.\<close>

fun read_bufs :: "bytes list \<Rightarrow> FileBackedVfsFile \<Rightarrow> FileBackedVfsFile \<times> (bytes \<times> nat) vfs_result list" where
  "read_bufs [] fd = (fd, [])"
| "read_bufs (buf # bufs) fd =
     (let (fd, res) = read_to_buf buf fd; (fd, rest) = read_bufs bufs fd in (fd, res # rest))"

definition read_from_start :: "bytes \<Rightarrow> bytes \<Rightarrow> (bytes \<times> nat) vfs_result" where
  "read_from_start c buf = Inr (take (length buf) c @ drop (length c) buf, min (length buf) (length c))"

lemma unat_add_min:
  assumes "m < 2 ^ 64" "unat p + k < 2 ^ 64"
  shows "min (of_nat m) (p + of_nat k :: u64) = of_nat (min m (unat p + k))"
proof -
  have "p + of_nat k = of_nat (unat p + k)" by simp
  moreover have "(of_nat m :: u64) \<le> of_nat (unat p + k) \<longleftrightarrow> m \<le> unat p + k"
    using assms by (simp add: word_le_nat_alt unat_u64 del: of_nat_add)
  ultimately show ?thesis by (simp only: min_def split: if_splits) simp
qed

lemma read_to_buf_eq:
  assumes "file_content (open_file_entry fd) = Some c" "file_len (open_file_entry fd) = of_nat (length c)"
    and "length c < 2 ^ 64" "unat (open_pos fd) + length buf < 2 ^ 64"
  shows "read_to_buf buf fd
    = (fd\<lparr>open_pos := of_nat (min (length c) (unat (open_pos fd) + length buf))\<rparr>, read_from_start c buf)"
  using assms unat_add_min [of "length c" "open_pos fd" "length buf"]
  by (simp add: read_to_buf_def Let_def read_file_content read_from_start_def del: of_nat_add)

text \<open>C27. Reading into any sequence of buffers moves the position forward by their lengths up to the end of the file and
  never past it, but every read of the sequence returns the bytes at the start of the file. A read to the end moves a
  position before the end to the end and returns as many bytes as were left, from the start of the file; at a position
  past the end it returns nothing and leaves the position.\<close>

theorem reads_from_start:
  assumes "file_content (open_file_entry fd) = Some c" "file_len (open_file_entry fd) = of_nat (length c)"
    and "length c < 2 ^ 64" "unat (open_pos fd) + sum_list (map length bufs) < 2 ^ 64"
  shows "read_bufs bufs fd =
      (fd\<lparr>open_pos := if bufs = [] then open_pos fd
          else of_nat (min (length c) (unat (open_pos fd) + sum_list (map length bufs)))\<rparr>,
       map (read_from_start c) bufs)
    \<and> read_to_end fd =
      (fd\<lparr>open_pos := max (open_pos fd) (of_nat (length c))\<rparr>,
       Inr (take (length c - unat (open_pos fd)) c))"
proof
  show "read_to_end fd =
      (fd\<lparr>open_pos := max (open_pos fd) (of_nat (length c))\<rparr>,
       Inr (take (length c - unat (open_pos fd)) c))"
    using assms(1-3) by (auto simp: read_to_end_def Let_def read_file_content unat_sub unat_u64 word_le_nat_alt
        word_less_nat_alt max_def not_less)
next
  show "read_bufs bufs fd =
      (fd\<lparr>open_pos := if bufs = [] then open_pos fd
          else of_nat (min (length c) (unat (open_pos fd) + sum_list (map length bufs)))\<rparr>,
       map (read_from_start c) bufs)"
    using assms
  proof (induction bufs arbitrary: fd)
    case (Cons buf bufs)
    let ?p = "min (length c) (unat (open_pos fd) + length buf)"
    let ?fd = "fd\<lparr>open_pos := of_nat ?p\<rparr>"
    have p: "unat (of_nat ?p :: u64) = ?p" using Cons.prems(3) by (intro unat_u64) simp
    have "?p + sum_list (map length bufs) < 2 ^ 64" using Cons.prems(4) by simp
    then have "read_bufs bufs ?fd = (?fd\<lparr>open_pos := if bufs = [] then of_nat ?p
        else of_nat (min (length c) (?p + sum_list (map length bufs)))\<rparr>, map (read_from_start c) bufs)"
      using Cons.IH [of ?fd] Cons.prems(1-3) p by simp
    moreover have "min (length c) (?p + sum_list (map length bufs))
        = min (length c) (unat (open_pos fd) + sum_list (map length (buf # bufs)))" by (auto simp: min_def)
    moreover have "read_to_buf buf fd = (?fd, read_from_start c buf)"
      using Cons.prems by (intro read_to_buf_eq) simp_all
    ultimately show ?case by (simp del: of_nat_add)
  qed simp
qed

theorem reads_from_start_witness:
  "snd (read_bufs [[0], [0, 0], [0, 0, 9]] \<lparr>open_file_entry = demo_file, open_pos = 1\<rparr>)
     = [Inr ([7], 1), Inr ([7, 8], 2), Inr ([7, 8, 9], 2)]
   \<and> read_to_end \<lparr>open_file_entry = demo_file, open_pos = 1\<rparr> = (\<lparr>open_file_entry = demo_file, open_pos = 2\<rparr>, Inr [7])"
  using reads_from_start [of "\<lparr>open_file_entry = demo_file, open_pos = 1\<rparr>" "[7, 8]" "[[0], [0, 0], [0, 0, 9]]"]
  by (simp add: demo_file_def read_from_start_def max_def)

end
