(* ===== verification/Vfs_Build.thy ===== *)
theory Vfs_Build
  imports Vfs_Find
begin

text \<open>
  Packing a directory of the host: the tree that \<open>add_dir_recursive\<close> makes has the directories, files and links of the
  host and nothing else, and the files are read back from it.
\<close>

subsection \<open>Adding an entry\<close>

lemma insert_entry_spec:
  assumes "entries_ok ds" "lookup ds (entry_name e) = None" "entry_ok e"
  shows "\<exists>ds'. insert_entry e ds = Inr ds' \<and> entries_ok ds' \<and> lookup ds' = (lookup ds)(entry_name e \<mapsto> e)"
proof (cases "binary_search ds (entry_name e)")
  case (Found i)
  then show ?thesis using binary_search_Found(3) [OF _ Found] assms by simp
next
  case (Absent i)
  have n: "names_ok (insert_at i e ds)" using binary_search_Absent(2) [OF _ Absent] assms(1) by simp
  then show ?thesis using Absent assms lookup_insert_at [OF n] by (auto simp: insert_entry_def set_insert_at fun_eq_iff)
qed

text \<open>A tree with the directories on the way to a path, or with a file or link at a path.\<close>

definition mkdirs :: "vpath \<Rightarrow> (vpath \<Rightarrow> VfsEntry option option) \<Rightarrow> vpath \<Rightarrow> VfsEntry option option" where
  "mkdirs p t = (\<lambda>r. if prefix r p then Some None else t r)"

definition put :: "vpath \<Rightarrow> VfsEntry \<Rightarrow> (vpath \<Rightarrow> VfsEntry option option) \<Rightarrow> vpath \<Rightarrow> VfsEntry option option" where
  "put q e t = (mkdirs (butlast q) t)(q \<mapsto> Some e)"

definition is_leaf :: "VfsEntry \<Rightarrow> bool" where
  "is_leaf e \<longleftrightarrow> (\<forall>n es. e \<noteq> Dir n es)"

lemma at_below: "at es q = None \<Longrightarrow> at es (q @ s) = None"
  by (induction q arbitrary: es) (auto split: option.splits VfsEntry.splits if_splits)

lemma add_dir_spec:
  assumes ok: "entries_ok (root_entries b)" and clear: "\<forall>r e. prefix r p \<longrightarrow> at (root_entries b) r \<noteq> Some (Some e)"
  shows "\<exists>es. add_dir b (root_path b @ p) Inr = (b\<lparr>root_entries := es\<rparr>, Inr ()) \<and> entries_ok es \<and> at es = mkdirs p (at (root_entries b))"
proof -
  obtain ds where ds: "dir_at (root_entries b) p = Some ds" using clear dir_at_None [of "root_entries b" p] by blast
  have "entries_ok ds" by (rule dir_at_ok [OF ok ds])
  then obtain es where es: "in_dir p Inr (root_entries b) = Inr es" "entries_ok es"
    and at: "\<And>r. at es r = (case strip_prefix r p of Some s \<Rightarrow> at ds s | None \<Rightarrow> if prefix r p then Some None else at (root_entries b) r)"
    using in_dir_spec [OF ok, of p Inr] ds by auto
  have "at es r = mkdirs p (at (root_entries b)) r" for r
  proof (cases "strip_prefix r p")
    case (Some s)
    then have r: "r = p @ s" by (simp add: strip_prefix_Some)
    show ?thesis using at [of r] Some at_dir_at [OF ds] r by (cases "s = []") (auto simp: mkdirs_def)
  qed (simp add: at mkdirs_def)
  then show ?thesis using es by (auto simp: add_dir_def path_relative_root_def fun_eq_iff)
qed

lemma add_leaf_spec:
  assumes ok: "entries_ok (root_entries b)" and clear: "\<forall>r e. prefix r p \<longrightarrow> at (root_entries b) r \<noteq> Some (Some e)"
    and new: "at (root_entries b) (p @ [entry_name e]) = None" and leaf: "is_leaf e"
  shows "\<exists>es. add_dir b (root_path b @ p) (insert_entry e) = (b\<lparr>root_entries := es\<rparr>, Inr ()) \<and> entries_ok es
    \<and> at es = put (p @ [entry_name e]) e (at (root_entries b))"
proof -
  let ?n = "entry_name e"
  obtain ds where ds: "dir_at (root_entries b) p = Some ds" using clear dir_at_None [of "root_entries b" p] by blast
  have okd: "entries_ok ds" by (rule dir_at_ok [OF ok ds])
  have "at ds [?n] = None" using at_dir_at [OF ds, of "[?n]"] new by simp
  then have none: "lookup ds ?n = None" by (auto split: option.splits VfsEntry.splits)
  have "entry_ok e" using leaf by (cases e) (auto simp: is_leaf_def)
  then obtain ds' where ds': "insert_entry e ds = Inr ds'" "entries_ok ds'" "lookup ds' = (lookup ds)(?n \<mapsto> e)"
    using insert_entry_spec [OF okd none] by blast
  then obtain es where es: "in_dir p (insert_entry e) (root_entries b) = Inr es" "entries_ok es"
    and at: "\<And>r. at es r = (case strip_prefix r p of Some s \<Rightarrow> at ds' s | None \<Rightarrow> if prefix r p then Some None else at (root_entries b) r)"
    using in_dir_spec [OF ok, of p "insert_entry e"] ds by auto
  have sub: "at ds' s = (if s = [?n] then Some (Some e) else if s = [] then Some None else at ds s)" for s
    using leaf none by (cases s) (auto simp: ds'(3) is_leaf_def split: VfsEntry.splits)
  have "at es r = put (p @ [?n]) e (at (root_entries b)) r" for r
  proof (cases "strip_prefix r p")
    case (Some s)
    then have r: "r = p @ s" by (simp add: strip_prefix_Some)
    show ?thesis using at [of r] Some at_dir_at [OF ds] r sub [of s] by (cases "s = []") (auto simp: put_def mkdirs_def)
  next
    case None
    then have "r \<noteq> p @ [?n]" by auto
    then show ?thesis using None by (simp add: at put_def mkdirs_def)
  qed
  then show ?thesis using es by (auto simp: add_dir_def path_relative_root_def fun_eq_iff)
qed

text \<open>Files and links that a call adds; files keep all their data and its length.\<close>

datatype node = NDir | NFile bytes | NLink vpath

fun sees :: "VfsEntry option \<Rightarrow> node \<Rightarrow> bool" where
  "sees None v \<longleftrightarrow> v = NDir"
| "sees (Some (File f)) v \<longleftrightarrow> (\<exists>d. v = NFile d \<and> file_content f = Some d \<and> file_len f = of_nat (length d))"
| "sees (Some (Symlink l)) v \<longleftrightarrow> v = NLink (dest_parts l)"
| "sees (Some (Dir n es)) v \<longleftrightarrow> False"

text \<open>Calls that put one entry at a path whose directory is there.\<close>

definition places :: "VfsBuilder \<Rightarrow> vpath \<Rightarrow> (vpath \<Rightarrow> node option) \<Rightarrow> VfsBuilder \<Rightarrow> bool" where
  "places b q v b' \<longleftrightarrow> root_path b' = root_path b \<and> entries_ok (root_entries b')
     \<and> (\<forall>s. rel_option sees (at (root_entries b') (q @ s)) (v s))
     \<and> (\<forall>r. \<not> prefix q r \<longrightarrow> at (root_entries b') r = at (root_entries b) r)"

definition vacant :: "VfsBuilder \<Rightarrow> vpath \<Rightarrow> bool" where
  "vacant b q \<longleftrightarrow> q \<noteq> [] \<and> entries_ok (root_entries b) \<and> at (root_entries b) q = None
     \<and> (\<forall>r. strict_prefix r q \<longrightarrow> at (root_entries b) r = Some None)"

lemma prefix_snoc_strict: "prefix r p \<Longrightarrow> strict_prefix r (p @ [x])"
  by (auto simp: strict_prefix_def prefix_def)

lemma places_leaf:
  assumes vac: "vacant b (p @ [entry_name e])" and b': "root_path b' = root_path b" "entries_ok (root_entries b')"
    and at: "at (root_entries b') = put (p @ [entry_name e]) e (at (root_entries b))" and e: "sees (Some e) v"
  shows "places b (p @ [entry_name e]) (\<lambda>s. if s = [] then Some v else None) b'"
proof -
  let ?q = "p @ [entry_name e]"
  have dirs: "at (root_entries b) r = Some None" if "prefix r p" for r
    using vac prefix_snoc_strict [OF that, of "entry_name e"] by (simp add: vacant_def)
  have "at (root_entries b) (?q @ s) = None" for s
    by (rule at_below) (use vac in \<open>simp add: vacant_def\<close>)
  then have "at (root_entries b') (?q @ s) = (if s = [] then Some (Some e) else None)" for s
    by (auto simp: at put_def mkdirs_def dest: prefix_length_le)
  moreover have "at (root_entries b') r = at (root_entries b) r" if "\<not> prefix ?q r" for r
    using that dirs [of r] by (auto simp: at put_def mkdirs_def)
  ultimately show ?thesis using b' e by (simp add: places_def)
qed

lemma vacant_clear: "vacant b (p @ [n]) \<Longrightarrow> \<forall>r e. prefix r p \<longrightarrow> at (root_entries b) r \<noteq> Some (Some e)"
  by (auto simp: vacant_def strict_prefix_def prefix_append)

lemma add_file_places:
  assumes vac: "vacant b (p @ [n])"
  shows "\<exists>b'. add_file h b (root_path b @ p @ [n]) data = (b', Inr ())
    \<and> places b (p @ [n]) (\<lambda>s. if s = [] then Some (NFile data) else None) b'"
proof -
  let ?sum = "checksum h data"
  define off where "off = (case file_offsets b ?sum of Some off \<Rightarrow> off | None \<Rightarrow> current_offset b)"
  define b1 where "b1 = (case file_offsets b ?sum of Some _ \<Rightarrow> b | None \<Rightarrow> b\<lparr>file_offsets := (file_offsets b)(?sum \<mapsto> current_offset b)\<rparr>)"
  define e where "e = File \<lparr>file_name = n, file_offset = off, file_len = of_nat (length data), file_content = Some data\<rparr>"
  have b1: "root_entries b1 = root_entries b" "root_path b1 = root_path b" by (auto simp: b1_def split: option.splits)
  have ok: "entries_ok (root_entries b)" "at (root_entries b) (p @ [n]) = None" using vac by (simp_all add: vacant_def)
  obtain es where es: "add_dir b1 (root_path b @ p) (insert_entry e) = (b1\<lparr>root_entries := es\<rparr>, Inr ())" "entries_ok es"
    "at es = put (p @ [n]) e (at (root_entries b))"
    using add_leaf_spec [of b1 p e] ok vacant_clear [OF vac] by (auto simp: b1 e_def is_leaf_def)
  define b' where "b' = (let b2 = b1\<lparr>root_entries := es\<rparr> in
    if current_offset b2 = off then b2\<lparr>current_offset := current_offset b2 + of_nat (length data)\<rparr> else b2)"
  have "add_file h b (root_path b @ p @ [n]) data = (b', Inr ())"
    using es(1) unfolding add_file_def Let_def off_def [symmetric] b1_def [symmetric]
    by (simp add: butlast_append e_def b'_def Let_def)
  moreover have "root_path b' = root_path b" "root_entries b' = es" using b1 by (simp_all add: b'_def Let_def)
  moreover have n: "entry_name e = n" "sees (Some e) (NFile data)" by (simp_all add: e_def)
  ultimately show ?thesis using places_leaf [of b p e b' "NFile data"] vac es by auto
qed

lemma add_symlink_places:
  assumes vac: "vacant b (p @ [n])" and t: "strip_prefix target (root_path b) = Some dest"
  shows "\<exists>b'. add_symlink b (root_path b @ p @ [n]) target = (b', Inr ())
    \<and> places b (p @ [n]) (\<lambda>s. if s = [] then Some (NLink dest) else None) b'"
proof -
  define e where "e = Symlink \<lparr>link_name = n, dest_parts = dest\<rparr>"
  have ok: "entries_ok (root_entries b)" "at (root_entries b) (p @ [n]) = None" using vac by (simp_all add: vacant_def)
  obtain es where es: "add_dir b (root_path b @ p) (insert_entry e) = (b\<lparr>root_entries := es\<rparr>, Inr ())" "entries_ok es"
    "at es = put (p @ [n]) e (at (root_entries b))"
    using add_leaf_spec [of b p e] ok vacant_clear [OF vac] by (auto simp: e_def is_leaf_def)
  have "add_symlink b (root_path b @ p @ [n]) target = (b\<lparr>root_entries := es\<rparr>, Inr ())"
    using es(1) t by (simp add: add_symlink_def path_relative_root_def butlast_append e_def)
  moreover have n: "entry_name e = n" "sees (Some e) (NLink dest)" by (simp_all add: e_def)
  ultimately show ?thesis using places_leaf [of b p e "b\<lparr>root_entries := es\<rparr>" "NLink dest"] vac es by auto
qed

subsection \<open>Directories of the host\<close>

text \<open>A tree of the host: files with their data; links with the canonical path of their target and its data if that is a file.\<close>

datatype htree = HDir "(string \<times> htree) list" | HFile bytes | HLink vpath "bytes option" | HOther

fun type_of :: "htree \<Rightarrow> file_type" where
  "type_of (HDir ks) = IsDir"
| "type_of (HFile d) = IsFile"
| "type_of (HLink t d) = IsSymlink"
| "type_of HOther = IsOther"

text \<open>The host has a tree at a path.\<close>

fun has_tree :: "fs_host \<Rightarrow> vpath \<Rightarrow> htree \<Rightarrow> bool" where
  "has_tree h p (HDir ks) \<longleftrightarrow> read_dir_host h p = Inr (map (\<lambda>(n, k). Inr (type_of k, p @ [n])) ks) \<and> distinct (map fst ks)
     \<and> (\<forall>x\<in>set ks. has_tree h (p @ [fst x]) (snd x))"
| "has_tree h p (HFile d) \<longleftrightarrow> read_host h p = Inr d"
| "has_tree h p (HLink t d) \<longleftrightarrow> canonicalize_path h p = Inr t \<and> (is_file_host h t \<longleftrightarrow> d \<noteq> None) \<and> (\<forall>x. d = Some x \<longrightarrow> read_host h t = Inr x)"
| "has_tree h p HOther \<longleftrightarrow> True"

fun depth_below :: "nat \<Rightarrow> htree \<Rightarrow> bool" where
  "depth_below 0 (HDir ks) \<longleftrightarrow> False"
| "depth_below (Suc n) (HDir ks) \<longleftrightarrow> (\<forall>x\<in>set ks. depth_below n (snd x))"
| "depth_below n k \<longleftrightarrow> True"

text \<open>What a tree shows at a path when it is packed below \<open>root\<close>: links to targets outside become files or nothing.\<close>

fun packed :: "vpath \<Rightarrow> htree \<Rightarrow> vpath \<Rightarrow> node option" where
  "packed root (HDir ks) [] = Some NDir"
| "packed root (HDir ks) (c # cs) = (case map_of ks c of None \<Rightarrow> None | Some k \<Rightarrow> packed root k cs)"
| "packed root (HFile d) s = (if s = [] then Some (NFile d) else None)"
| "packed root (HLink t d) s =
     (if s = [] then (case strip_prefix t root of Some dest \<Rightarrow> Some (NLink dest) | None \<Rightarrow> map_option NFile d) else None)"
| "packed root HOther s = None"

text \<open>What the recursion is assumed to do for a directory.\<close>

definition packs_dirs :: "(VfsBuilder \<Rightarrow> vpath \<Rightarrow> (VfsBuilder \<times> unit vfs_result) option) \<Rightarrow> fs_host \<Rightarrow> nat \<Rightarrow> bool" where
  "packs_dirs rec h n \<longleftrightarrow> (\<forall>b q ks. vacant b q \<and> has_tree h (root_path b @ q) (HDir ks) \<and> depth_below n (HDir ks)
     \<longrightarrow> (\<exists>b'. rec b (root_path b @ q) = Some (b', Inr ()) \<and> places b q (packed (root_path b) (HDir ks)) b'))"

lemma packed_leaves:
  "packed root (HFile d) = (\<lambda>s. if s = [] then Some (NFile d) else None)" "packed root HOther = (\<lambda>s. None)"
  "strip_prefix t root = Some dest \<Longrightarrow> packed root (HLink t y) = (\<lambda>s. if s = [] then Some (NLink dest) else None)"
  "strip_prefix t root = None \<Longrightarrow> packed root (HLink t (Some x)) = (\<lambda>s. if s = [] then Some (NFile x) else None)"
  "strip_prefix t root = None \<Longrightarrow> packed root (HLink t None) = (\<lambda>s. None)"
  by (simp_all add: fun_eq_iff)

lemma places_nothing: "vacant b q \<Longrightarrow> places b q (\<lambda>s. None) b"
  by (simp add: places_def vacant_def at_below)

lemma add_host_entry_places:
  assumes rec: "packs_dirs rec h n" and vac: "vacant b q" and tree: "has_tree h (root_path b @ q) k" and depth: "depth_below n k"
  shows "\<exists>b'. add_host_entry h rec b (Inr (type_of k, root_path b @ q)) = Some (b', Inr ()) \<and> places b q (packed (root_path b) k) b'"
proof -
  obtain p x where q: "q = p @ [x]" using vac unfolding vacant_def by (metis append_butlast_last_id)
  note vac' = vac [unfolded q]
  have fil: "\<exists>b'. add_file h b (root_path b @ q) d = (b', Inr ()) \<and> places b q (\<lambda>s. if s = [] then Some (NFile d) else None) b'" for d
    using add_file_places [OF vac', of h d] unfolding q by simp
  show ?thesis
  proof (cases k)
    case (HDir ks)
    then show ?thesis using rec vac tree depth unfolding packs_dirs_def add_host_entry_def by simp
  next
    case (HFile d)
    then show ?thesis using fil [of d] tree unfolding HFile packed_leaves add_host_entry_def by force
  next
    case HOther
    then show ?thesis using places_nothing [OF vac] unfolding HOther packed_leaves add_host_entry_def by simp
  next
    case (HLink t d)
    have can: "canonicalize_path h (root_path b @ q) = Inr t" using tree HLink by simp
    show ?thesis
    proof (cases "strip_prefix t (root_path b)")
      case (Some dest)
      obtain b' where "add_symlink b (root_path b @ q) t = (b', Inr ())"
        "places b q (\<lambda>s. if s = [] then Some (NLink dest) else None) b'"
        using add_symlink_places [OF vac' Some] unfolding q by blast
      then show ?thesis using can unfolding HLink packed_leaves(3) [OF Some] add_host_entry_def by simp
    next
      case None
      have link: "add_symlink b (root_path b @ q) t = (b, Inl (StripRootError (root_path b) t))"
        using None by (simp add: add_symlink_def path_relative_root_def)
      show ?thesis
      proof (cases d)
        case none: None
        have "\<not> is_file_host h t" using tree HLink none by simp
        then show ?thesis using link can places_nothing [OF vac] unfolding HLink none packed_leaves(5) [OF None] add_host_entry_def by simp
      next
        case (Some y)
        have "is_file_host h t" "read_host h t = Inr y" using tree HLink Some by simp_all
        then show ?thesis using link can fil [of y] unfolding HLink Some packed_leaves(4) [OF None] add_host_entry_def by force
      qed
    qed
  qed
qed

text \<open>The entries of a directory that is there and empty.\<close>

lemma add_host_entries_places:
  assumes rec: "packs_dirs rec h n" and ok: "entries_ok (root_entries b)"
    and dirs: "\<forall>r. prefix r q \<longrightarrow> at (root_entries b) r = Some None"
    and new: "\<forall>x\<in>set ks. at (root_entries b) (q @ [fst x]) = None" and dist: "distinct (map fst ks)"
    and tree: "\<forall>x\<in>set ks. has_tree h (root_path b @ q @ [fst x]) (snd x) \<and> depth_below n (snd x)"
  shows "\<exists>b'. add_host_entries h rec b (map (\<lambda>(x, k). Inr (type_of k, root_path b @ q @ [x])) ks) = Some (b', Inr ())
    \<and> root_path b' = root_path b \<and> entries_ok (root_entries b')
    \<and> (\<forall>x k s. (x, k) \<in> set ks \<longrightarrow> rel_option sees (at (root_entries b') (q @ x # s)) (packed (root_path b) k s))
    \<and> (\<forall>r. (\<forall>x\<in>fst ` set ks. \<not> prefix (q @ [x]) r) \<longrightarrow> at (root_entries b') r = at (root_entries b) r)"
  using ok dirs new dist tree
proof (induction ks arbitrary: b)
  case (Cons xk ks)
  obtain x k where xk: "xk = (x, k)" by fastforce
  let ?q = "q @ [x]"
  have "prefix r q" if "strict_prefix r ?q" for r using that by (auto simp: strict_prefix_def)
  then have vac: "vacant b ?q" using Cons.prems(1-3) xk by (simp add: vacant_def)
  obtain b1 where b1: "add_host_entry h rec b (Inr (type_of k, root_path b @ ?q)) = Some (b1, Inr ())"
    and pl: "places b ?q (packed (root_path b) k) b1"
    using add_host_entry_places [OF rec vac] Cons.prems(5) xk by auto
  note pl' = pl [unfolded places_def]
  have other: "at (root_entries b1) r = at (root_entries b) r" if "\<not> prefix ?q r" for r using pl' that by blast
  have dirs1: "\<forall>r. prefix r q \<longrightarrow> at (root_entries b1) r = Some None"
  proof (intro allI impI)
    fix r
    assume r: "prefix r q"
    then have "\<not> prefix ?q r" by (auto dest!: prefix_length_le)
    then show "at (root_entries b1) r = Some None" using Cons.prems(2) other r by simp
  qed
  have new1: "\<forall>y\<in>set ks. at (root_entries b1) (q @ [fst y]) = None"
  proof
    fix y
    assume y: "y \<in> set ks"
    then have "fst y \<noteq> x" using Cons.prems(4) xk by force
    then show "at (root_entries b1) (q @ [fst y]) = None" using Cons.prems(3) other y by simp
  qed
  have ok1: "entries_ok (root_entries b1)" and root1: "root_path b1 = root_path b" using pl' by blast+
  have rest: "distinct (map fst ks)" "\<forall>x\<in>set ks. has_tree h (root_path b1 @ q @ [fst x]) (snd x) \<and> depth_below n (snd x)"
    using Cons.prems(4,5) root1 by simp_all
  obtain b' where b': "add_host_entries h rec b1 (map (\<lambda>(x, k). Inr (type_of k, root_path b1 @ q @ [x])) ks) = Some (b', Inr ())"
    "root_path b' = root_path b1" "entries_ok (root_entries b')"
    and in1: "\<forall>y k s. (y, k) \<in> set ks \<longrightarrow> rel_option sees (at (root_entries b') (q @ y # s)) (packed (root_path b1) k s)"
    and out1: "\<forall>r. (\<forall>y\<in>fst ` set ks. \<not> prefix (q @ [y]) r) \<longrightarrow> at (root_entries b') r = at (root_entries b1) r"
    using Cons.IH [OF ok1 dirs1 new1 rest] by blast
  have x: "x \<notin> fst ` set ks" using Cons.prems(4) xk by simp
  have "rel_option sees (at (root_entries b') (q @ x # s)) (packed (root_path b) k s)" for s
  proof -
    have "\<forall>y\<in>fst ` set ks. \<not> prefix (q @ [y]) (q @ x # s)" using x by auto
    then have "at (root_entries b') (q @ x # s) = at (root_entries b1) (?q @ s)" using out1 by simp
    then show ?thesis using pl' by simp
  qed
  moreover have "at (root_entries b') r = at (root_entries b) r" if "\<forall>y\<in>fst ` set (xk # ks). \<not> prefix (q @ [y]) r" for r
    using that out1 other xk by simp
  moreover have "add_host_entries h rec b (map (\<lambda>(x, k). Inr (type_of k, root_path b @ q @ [x])) (xk # ks)) = Some (b', Inr ())"
    using b'(1) b1 root1 xk by simp
  moreover have "rel_option sees (at (root_entries b') (q @ y # s)) (packed (root_path b) j s)" if "(y, j) \<in> set (xk # ks)" for y j s
    using that calculation(1) in1 root1 xk by auto
  ultimately show ?case using b'(2,3) root1 by (intro exI [of _ b']) simp
qed simp

text \<open>A directory of the host at a path below which there is nothing yet.\<close>

definition open_at :: "VfsBuilder \<Rightarrow> vpath \<Rightarrow> bool" where
  "open_at b q \<longleftrightarrow> entries_ok (root_entries b) \<and> (\<forall>r e. prefix r q \<longrightarrow> at (root_entries b) r \<noteq> Some (Some e))
     \<and> (\<forall>s. s \<noteq> [] \<longrightarrow> at (root_entries b) (q @ s) = None)"

definition packs :: "VfsBuilder \<Rightarrow> vpath \<Rightarrow> (string \<times> htree) list \<Rightarrow> VfsBuilder \<Rightarrow> bool" where
  "packs b q ks b' \<longleftrightarrow> root_path b' = root_path b \<and> entries_ok (root_entries b')
     \<and> (\<forall>s. rel_option sees (at (root_entries b') (q @ s)) (packed (root_path b) (HDir ks) s))
     \<and> (\<forall>r. \<not> prefix q r \<longrightarrow> at (root_entries b') r = mkdirs q (at (root_entries b)) r)"

lemma vacant_open: "vacant b q \<Longrightarrow> open_at b q"
  unfolding vacant_def open_at_def strict_prefix_def using at_below by (metis option.distinct(1) option.inject)

lemma vacant_packs:
  assumes "vacant b q" "packs b q ks b'"
  shows "places b q (packed (root_path b) (HDir ks)) b'"
proof -
  have "mkdirs q (at (root_entries b)) r = at (root_entries b) r" if "\<not> prefix q r" for r
    using assms(1) that by (auto simp: mkdirs_def vacant_def strict_prefix_def)
  then show ?thesis using assms(2) by (simp add: packs_def places_def)
qed

lemma add_entries_packs:
  assumes rec: "packs_dirs rec h n" and op: "open_at b q" and tree: "has_tree h (root_path b @ q) (HDir ks)"
    and depth: "\<forall>x\<in>set ks. depth_below n (snd x)"
    and b1: "root_path b1 = root_path b" "entries_ok (root_entries b1)" "at (root_entries b1) = mkdirs q (at (root_entries b))"
  shows "\<exists>b'. add_host_entries h rec b1 (map (\<lambda>(x, k). Inr (type_of k, root_path b @ q @ [x])) ks) = Some (b', Inr ()) \<and> packs b q ks b'"
proof -
  have new: "at (root_entries b1) (q @ s) = None" if "s \<noteq> []" for s
    using op that by (simp add: b1 mkdirs_def open_at_def)
  have dirs: "\<forall>r. prefix r q \<longrightarrow> at (root_entries b1) r = Some None" by (simp add: b1 mkdirs_def)
  have news: "\<forall>x\<in>set ks. at (root_entries b1) (q @ [fst x]) = None" using new by simp
  have trees: "\<forall>x\<in>set ks. has_tree h (root_path b1 @ q @ [fst x]) (snd x) \<and> depth_below n (snd x)"
    using tree depth b1(1) by simp
  have dist: "distinct (map fst ks)" using tree by simp
  obtain b' where b': "add_host_entries h rec b1 (map (\<lambda>(x, k). Inr (type_of k, root_path b1 @ q @ [x])) ks) = Some (b', Inr ())"
    "root_path b' = root_path b1" "entries_ok (root_entries b')"
    and ins: "\<forall>x k s. (x, k) \<in> set ks \<longrightarrow> rel_option sees (at (root_entries b') (q @ x # s)) (packed (root_path b1) k s)"
    and out: "\<forall>r. (\<forall>x\<in>fst ` set ks. \<not> prefix (q @ [x]) r) \<longrightarrow> at (root_entries b') r = at (root_entries b1) r"
    using add_host_entries_places [OF rec b1(2) dirs news dist trees] by blast
  have "rel_option sees (at (root_entries b') (q @ s)) (packed (root_path b) (HDir ks) s)" for s
  proof (cases s)
    case Nil
    then show ?thesis using out dirs by (simp add: prefix_def)
  next
    case (Cons c cs)
    show ?thesis
    proof (cases "map_of ks c")
      case None
      then have "c \<notin> fst ` set ks" by (simp add: map_of_eq_None_iff)
      then have "\<forall>x\<in>fst ` set ks. \<not> prefix (q @ [x]) (q @ s)" using Cons by auto
      then have "at (root_entries b') (q @ s) = at (root_entries b1) (q @ s)" using out by blast
      then show ?thesis using Cons None new [of s] by simp
    next
      case (Some k)
      then show ?thesis using Cons ins b1(1) map_of_SomeD by fastforce
    qed
  qed
  moreover have "at (root_entries b') r = mkdirs q (at (root_entries b)) r" if "\<not> prefix q r" for r
  proof -
    have "\<not> prefix (q @ [x]) r" for x using that by (auto simp: prefix_def)
    then show ?thesis using out b1(3) by simp
  qed
  ultimately show ?thesis using b' b1(1) by (auto simp: packs_def)
qed

lemma add_dir_recursive_packs:
  assumes "open_at b q" "has_tree h (root_path b @ q) (HDir ks)" "depth_below n (HDir ks)"
  shows "\<exists>b'. add_dir_recursive_internal h n b (root_path b @ q) = Some (b', Inr ()) \<and> packs b q ks b'"
  using assms
proof (induction n arbitrary: b q ks)
  case (Suc n)
  have rec: "packs_dirs (add_dir_recursive_internal h n) h n"
    unfolding packs_dirs_def using Suc.IH vacant_open vacant_packs by blast
  obtain es where es: "add_dir b (root_path b @ q) Inr = (b\<lparr>root_entries := es\<rparr>, Inr ())" "entries_ok es"
    "at es = mkdirs q (at (root_entries b))"
    using add_dir_spec [of b q] Suc.prems(1) unfolding open_at_def by blast
  show ?case using add_entries_packs [OF rec Suc.prems(1,2), of "b\<lparr>root_entries := es\<rparr>"] Suc.prems(2,3) es by simp
qed simp

subsection \<open>Reading the packed tree\<close>

lemma at_entry: "at es p = map_option (\<lambda>e. case e of Dir _ _ \<Rightarrow> None | _ \<Rightarrow> Some e) (entry_at (Dir n es) p)"
proof (induction p arbitrary: es n)
  case (Cons c cs)
  show ?case
  proof (cases "lookup es c")
    case (Some e)
    then show ?thesis using Cons.IH by (cases e; cases cs) simp_all
  qed simp
qed simp

lemma find_here:
  assumes "entry_ok (vfs_dir r)" "entry_at (vfs_dir r) p = Some e" "\<not> is_link e"
  shows "find_entry r (Suc m) (vfs_root_path r @ p) = Some (Inr (vfs_root_path r @ p, e))"
proof -
  have "\<not> link_on (vfs_dir r) p" using entry_at_inside [OF assms(2)] assms(2,3) by (auto simp: link_on_iff)
  from find_entry_plain [OF assms(1) this] show ?thesis using assms(2) by (simp add: find_entry_def)
qed

lemma find_no_follow_here:
  assumes "entry_ok (vfs_dir r)" "\<not> link_inside (vfs_dir r) p"
  shows "find_entry_no_follow r m (vfs_root_path r @ p) =
    Some (case entry_at (vfs_dir r) p of None \<Rightarrow> Inl path_not_found | Some e \<Rightarrow> Inr (vfs_root_path r @ p, e))"
  using assms by (auto simp: find_entry_no_follow_def find_no_follow_root find_loop_plain split: option.split)

text \<open>What the operations on a packed tree say of a path at which the host has a directory, a file, a link or nothing.\<close>

definition reads_as :: "VfsRoot \<Rightarrow> nat \<Rightarrow> vpath \<Rightarrow> node option \<Rightarrow> bool" where
  "reads_as r m path v \<longleftrightarrow> (case v of
     Some NDir \<Rightarrow> (\<exists>es. dir_entry r m path = Some (Inr es))
   | Some (NFile d) \<Rightarrow> length d < 2 ^ 64 \<longrightarrow> bindV (file_entry r m path) read_file_all = Some (Inr d)
   | Some (NLink dest) \<Rightarrow> read_link r m path = Some (Inr (vfs_root_path r @ dest))
   | None \<Rightarrow> lstat r m path = Some (Inl path_not_found))"

lemma sees_reads_as:
  assumes dir: "vfs_dir r = Dir nm es" and ok: "entries_ok es" and sees: "rel_option sees (at es p) v"
    and way: "v = None \<Longrightarrow> \<not> link_inside (vfs_dir r) p"
  shows "reads_as r (Suc m) (vfs_root_path r @ p) v"
proof (cases "entry_at (vfs_dir r) p")
  case None
  then have v: "v = None" using sees by (simp add: at_entry [of es p nm] dir)
  have "find_entry_no_follow r (Suc m) (vfs_root_path r @ p) = Some (Inl path_not_found)"
    using find_no_follow_here [of r p "Suc m"] way [OF v] ok None dir by simp
  then show ?thesis using v by (simp add: reads_as_def lstat_def bindV_def)
next
  case (Some e)
  have here: "find_entry r (Suc m) (vfs_root_path r @ p) = Some (Inr (vfs_root_path r @ p, e))" if "\<not> is_link e"
    using find_here [of r p e m] Some ok dir that by simp
  show ?thesis
  proof (cases e)
    case (Dir n' ds)
    then have "v = Some NDir" using sees Some by (auto simp: at_entry [of es p nm] dir option_rel_Some1)
    then show ?thesis using here Dir by (simp add: reads_as_def dir_entry_def bindV_def)
  next
    case (File f)
    then obtain d where "v = Some (NFile d)" "file_content f = Some d" "file_len f = of_nat (length d)"
      using sees Some by (auto simp: at_entry [of es p nm] dir option_rel_Some1)
    then show ?thesis using here File read_file_all_content [of f d] by (simp add: reads_as_def file_entry_def bindV_def)
  next
    case (Symlink l)
    then have "v = Some (NLink (dest_parts l))" using sees Some by (auto simp: at_entry [of es p nm] dir option_rel_Some1)
    moreover have "find_entry_no_follow r (Suc m) (vfs_root_path r @ p) = Some (Inr (vfs_root_path r @ p, e))"
      using find_no_follow_here [of r p "Suc m"] entry_at_inside [OF Some] ok Some dir by simp
    ultimately show ?thesis using Symlink by (simp add: reads_as_def read_link_def bindV_def resolve_dest_from_root_def)
  qed
qed

lemma no_link_inside:
  assumes packs: "packs b q ks b'" and way: "\<forall>u dest. strict_prefix u s \<longrightarrow> packed (root_path b) (HDir ks) u \<noteq> Some (NLink dest)"
  shows "\<not> link_inside (Dir nm (root_entries b')) (q @ s)"
proof
  assume "link_inside (Dir nm (root_entries b')) (q @ s)"
  then obtain u l where u: "strict_prefix u (q @ s)" "entry_at (Dir nm (root_entries b')) u = Some (Symlink l)"
    by (auto simp: link_inside_def)
  then have at: "at (root_entries b') u = Some (Some (Symlink l))" by (simp add: at_entry [of _ u nm])
  show False
  proof (cases "prefix q u")
    case True
    then obtain w where w: "u = q @ w" by (auto simp: prefix_def)
    then have "rel_option sees (Some (Some (Symlink l))) (packed (root_path b) (HDir ks) w)" using packs at unfolding packs_def by metis
    then have "packed (root_path b) (HDir ks) w = Some (NLink (dest_parts l))" by (auto simp: option_rel_Some1)
    moreover have "strict_prefix w s" using u(1) w by (simp add: strict_prefix_def)
    ultimately show False using way by blast
  next
    case False
    then have "prefix u q" using u(1) by (metis prefix_order.less_imp_le prefix_same_cases prefixI)
    then show False using packs at False by (simp add: packs_def mkdirs_def)
  qed
qed

text \<open>C2. Packing a directory of the host with a new builder succeeds when its entries can be read and its links
  canonicalize, and on every path that passes through no packed link the packed tree reads as the directory: it has the same
  directories; files have the bytes they have in the host; links have their canonical target, or, when that is outside of
  the root, are files with its bytes or missing; special files are missing; and there is nothing else.\<close>

theorem packed_tree_reads_back:
  assumes new: "new_builder h path0 = Inr b" and can: "canonicalize_path h path = Inr (root_path b @ q)"
    and tree: "has_tree h (root_path b @ q) (HDir ks)" and depth: "depth_below n (HDir ks)"
  shows "\<exists>b'. add_dir_recursive h n b path = Some (b', Inr ())
    \<and> (\<forall>s. (\<forall>u dest. strict_prefix u s \<longrightarrow> packed (root_path b) (HDir ks) u \<noteq> Some (NLink dest))
        \<longrightarrow> reads_as \<lparr>vfs_dir = fst (into_dir_and_files b'), vfs_root_path = root_path b\<rparr> (Suc m) (root_path b @ q @ s)
             (packed (root_path b) (HDir ks) s))"
proof -
  have "root_entries b = []" using new by (auto simp: new_builder_def split: sum.splits if_splits)
  then have "open_at b q" by (simp add: open_at_def at_Nil)
  from add_dir_recursive_packs [OF this tree depth] obtain b' where
    b': "add_dir_recursive_internal h n b (root_path b @ q) = Some (b', Inr ())" and packs: "packs b q ks b'" by blast
  let ?r = "\<lparr>vfs_dir = fst (into_dir_and_files b'), vfs_root_path = root_path b\<rparr>"
  have "reads_as ?r (Suc m) (root_path b @ q @ s) (packed (root_path b) (HDir ks) s)"
    if "\<forall>u dest. strict_prefix u s \<longrightarrow> packed (root_path b) (HDir ks) u \<noteq> Some (NLink dest)" for s
    using sees_reads_as [of ?r "root_name b'" "root_entries b'" "q @ s"] no_link_inside [OF packs that] packs
    by (simp add: into_dir_and_files_def packs_def)
  then show ?thesis using b' can by (auto simp: add_dir_recursive_def)
qed

text \<open>A host with a file in a directory, a link to the directory and a link to a file outside.\<close>

definition demo_tree :: "(string \<times> htree) list" where
  "demo_tree = [(''d'', HDir [(''f'', HFile [7, 8])]), (''l'', HLink [''srv'', ''d''] None), (''x'', HLink [''etc''] (Some [9]))]"

definition demo_host :: fs_host where
  "demo_host = \<lparr>
     canonicalize_path = (\<lambda>p. if p = [''srv'', ''l''] then Inr [''srv'', ''d''] else if p = [''srv'', ''x''] then Inr [''etc''] else Inr p),
     read_dir_host = (\<lambda>p. if p = [''srv''] then Inr [Inr (IsDir, [''srv'', ''d'']), Inr (IsSymlink, [''srv'', ''l'']), Inr (IsSymlink, [''srv'', ''x''])]
                          else Inr [Inr (IsFile, [''srv'', ''d'', ''f''])]),
     read_host = (\<lambda>p. if p = [''etc''] then Inr [9] else Inr [7, 8]),
     is_file_host = (\<lambda>p. p = [''etc'']),
     checksum = (\<lambda>d. [])\<rparr>"

theorem packed_tree_reads_back_witness:
  "\<exists>b b'. new_builder demo_host [''srv''] = Inr b \<and> add_dir_recursive demo_host 2 b [''srv''] = Some (b', Inr ())
    \<and> bindV (file_entry \<lparr>vfs_dir = fst (into_dir_and_files b'), vfs_root_path = root_path b\<rparr> 1 [''srv'', ''d'', ''f'']) read_file_all
        = Some (Inr [7, 8])"
proof -
  define b where "b = \<lparr>root_path = [''srv''], root_name = ''srv'', root_entries = [], files = [], current_offset = 0, file_offsets = (\<lambda>_. None)\<rparr>"
  have new: "new_builder demo_host [''srv''] = Inr b" by (simp add: new_builder_def demo_host_def b_def file_stem_def)
  have can: "canonicalize_path demo_host [''srv''] = Inr (root_path b @ [])" by (simp add: demo_host_def b_def)
  have tree: "has_tree demo_host (root_path b @ []) (HDir demo_tree)" by (simp add: demo_tree_def demo_host_def b_def)
  have depth: "depth_below 2 (HDir demo_tree)" by (simp add: demo_tree_def eval_nat_numeral)
  have way: "\<forall>u dest. strict_prefix u [''d'', ''f''] \<longrightarrow> packed (root_path b) (HDir demo_tree) u \<noteq> Some (NLink dest)"
    by (auto simp: strict_prefix_def prefix_Cons demo_tree_def)
  obtain b' where b': "add_dir_recursive demo_host 2 b [''srv''] = Some (b', Inr ())"
    "reads_as \<lparr>vfs_dir = fst (into_dir_and_files b'), vfs_root_path = root_path b\<rparr> (Suc 0) (root_path b @ [] @ [''d'', ''f''])
      (packed (root_path b) (HDir demo_tree) [''d'', ''f''])"
    using packed_tree_reads_back [OF new can tree depth, of 0] way by blast
  then have "bindV (file_entry \<lparr>vfs_dir = fst (into_dir_and_files b'), vfs_root_path = root_path b\<rparr> 1 [''srv'', ''d'', ''f'']) read_file_all
      = Some (Inr [7, 8])" by (simp add: reads_as_def demo_tree_def b_def)
  then show ?thesis using new b'(1) by blast
qed

end
