(* ===== verification/Spec2Isabelle.thy ===== *)
theory Spec2Isabelle
  imports Path_Win32_Parse Path_Win32_Resolve Next_Tick Buffer_Search String_Decoder_Laws Querystring_Laws Events_Spec Vfs_Build
begin

text \<open>
  A verification development for the edge runtime: the parts of its Node compatibility layer
  (\<^verbatim>\<open>src/crates/node/polyfills\<close>, JavaScript) that compute rather than call the host, and the virtual file
  system that is packed into bundles (\<^verbatim>\<open>src/crates/sb_fs/virtual_fs.rs\<close>, Rust).

  \<^bold>\<open>The parts and how they interact.\<close> User code loaded by the runtime calls the Node modules. \<^verbatim>\<open>path\<close> and
  \<^verbatim>\<open>querystring\<close> are functions on strings. \<^verbatim>\<open>Buffer\<close> is used by \<^verbatim>\<open>string_decoder\<close>, which calls its
  \<^verbatim>\<open>toString\<close> and \<^verbatim>\<open>copy\<close>, and by \<^verbatim>\<open>querystring\<close>, whose fallback decoder goes through bytes.
  \<^verbatim>\<open>process.nextTick\<close> keeps its callbacks in the queue of \<^verbatim>\<open>fixed_queue.ts\<close>. \<^verbatim>\<open>EventEmitter\<close> calls
  listeners that may call it again. The virtual file system is built from a directory of the host and serves the lookups
  and reads of the files in a bundle.

  \<^bold>\<open>Conventions.\<close> A JavaScript string is the list of its UTF-16 code units, a byte array the list of its bytes, a number
  of the buffer code a rational, an infinity or \<^verbatim>\<open>NaN\<close>, an argument that the code checks a value of a type with one
  constructor for each \<^verbatim>\<open>typeof\<close>. An exception is the left summand of a sum, so every \<^verbatim>\<open>throw\<close> is a branch.
  A method that changes its receiver returns the new state. Where the code shares objects by reference (buffers of the
  queue, listener arrays and wrappers of an emitter) there is an explicit store of them. What belongs to the host is an
  argument: the fields of the records \<open>host\<close> (text and base64 converters), \<open>deno\<close> (working directory, environment) and
  \<open>fs_host\<close> (the real file system), and user code.

  \<^bold>\<open>Theories.\<close>

  \<^item> \<open>Prelude\<close>: strings, exceptions, the collections of rules, and generic facts on lists.

  \<^item> \<open>Path_Util\<close> models \<^verbatim>\<open>path/_util.ts\<close> (\<^verbatim>\<open>normalizeString\<close>, \<^verbatim>\<open>_format\<close>) and holds the locale
    \<open>path_separators\<close>, in which resolution of dot segments is proved once for both separators; \<open>Path_Scan\<close> the scanning
    loops that both variants contain; \<open>Path_Posix\<close> \<^verbatim>\<open>path/_posix.ts\<close> and \<open>Path_Win32\<close>
    \<^verbatim>\<open>path/_win32.ts\<close>, each exported function with its argument checks. The lemmas show what \<^verbatim>\<open>resolve\<close>,
    \<^verbatim>\<open>normalize\<close> and \<^verbatim>\<open>join\<close> compute (a walk over segments; a reference semantics with drives and
    network shares in \<open>Path_Win32_Resolve\<close>), that \<^verbatim>\<open>normalize\<close> is idempotent and names the same file, that
    \<^verbatim>\<open>relative\<close> leads back, and how \<^verbatim>\<open>parse\<close>, \<^verbatim>\<open>format\<close>, \<^verbatim>\<open>dirname\<close>, \<^verbatim>\<open>basename\<close> and
    \<^verbatim>\<open>extname\<close> fit together (\<open>Path_Win32_Normal\<close> and \<open>Path_Win32_Parse\<close> for Windows).

  \<^item> \<open>Fixed_Queue\<close> models \<^verbatim>\<open>internal/fixed_queue.ts\<close> with its ring buffers, index masks and links; the locale
    \<open>fifo_queue\<close> is its contract, interpreted on the model. \<open>Next_Tick\<close> models \<^verbatim>\<open>_next_tick.ts\<close>: it refines an
    abstract scheduler with a plain list, a pending tick is always scheduled, and the loop ends when callbacks do.

  \<^item> \<open>Js_Number\<close> and \<open>Buffer_Int\<close> model the numbers and the integer accessors of \<^verbatim>\<open>internal/buffer.mjs\<close> with
    the 32 bit operators written out. \<open>Buffer_Int_Codec\<close> has positional notation and the locale \<open>int_accessor\<close>, the
    contract of a read and a write; \<open>Buffer_Int_Access\<close> proves the equations, \<open>Buffer_Int_Round_Trip\<close> interprets the
    locale on every pair and has the round trips and errors. \<open>Buffer_Ops\<close> models allocation, \<^verbatim>\<open>compare\<close>,
    \<^verbatim>\<open>equals\<close>, the byte swaps, \<^verbatim>\<open>concat\<close>, \<^verbatim>\<open>copy\<close> and slices, \<open>Buffer_Ops_Laws\<close> states them on
    lists; \<open>Buffer_Text\<close> models encodings, \<^verbatim>\<open>toString\<close>, \<^verbatim>\<open>write\<close>, \<^verbatim>\<open>from\<close> of strings,
    \<^verbatim>\<open>fill\<close> and \<^verbatim>\<open>alloc\<close>; \<open>Buffer_Search\<close> models \<^verbatim>\<open>indexOf\<close>, \<^verbatim>\<open>lastIndexOf\<close> and
    \<^verbatim>\<open>includes\<close> with \<^verbatim>\<open>internal_binding/buffer.ts\<close>.

  \<^item> \<open>String_Decoder\<close> models \<^verbatim>\<open>string_decoder.ts\<close>; \<open>String_Decoder_Laws\<close> shows that a decoder keeps its
    invariant and that chunk boundaries do not matter, byte order marks apart.

  \<^item> \<open>Querystring\<close> models \<^verbatim>\<open>querystring.js\<close> and \<^verbatim>\<open>internal/querystring.ts\<close>; \<open>Querystring_Laws\<close> has
    the round trips of escaping and of \<^verbatim>\<open>stringify\<close> and \<^verbatim>\<open>parse\<close>.

  \<^item> \<open>Events\<close> models \<^verbatim>\<open>_events.mjs\<close>; \<open>Events_Laws\<close> shows that the counts and flags of an emitter stay
    consistent after any calls of it, nested ones included, and \<open>Events_Spec\<close> that it refines an emitter with a plain list
    of listeners for each event.

  \<^item> \<open>Vfs\<close> models \<^verbatim>\<open>virtual_fs.rs\<close>: the builder, the tree, lookups through links, operations on paths, seeking and
    reading. \<open>Vfs_Laws\<close> treats directories as maps, \<open>Vfs_Find\<close> shows when lookups return and what they find, and what
    a sequence of reads returns, and \<open>Vfs_Build\<close> that a packed directory reads back.

  \<^bold>\<open>Bounds and fuel.\<close> Loops of the code are structural recursions or have termination proofs. Fuel remains where the
  code may run for ever: the tick loop, whose callbacks may schedule without end (enough fuel exists when every callback
  schedules less work than it stands for); nested emissions, whose depth depends on listeners (the theorems hold for every
  amount with which the run returns); the recursion of lookups through links (two more than the number of links is enough
  when targets pass through no link) and of packing (the depth of the directory is enough). The backward search in buffers
  is a partial function, and a theorem shows that it returns. Lengths of buffers are bounded by \<^verbatim>\<open>kMaxLength\<close>, as
  the code has it, so conversions to 32 bits are exact; positions in packed files are 64 bit words that wrap around.

  \<^bold>\<open>Not modelled.\<close> Accessors of floating point numbers, \<^verbatim>\<open>Buffer.from\<close> of arbitrary objects, inspection of
  objects; captured promise rejections, \<^verbatim>\<open>events.once\<close> and \<^verbatim>\<open>events.on\<close> and the texts of warnings; the state
  of a decoder after an exception; user code that changes \<^verbatim>\<open>process._exiting\<close> or starts the tick loop again from
  within a callback. Of the rest of the repository, streams, networking, file I/O, processes, cryptography, compression and
  terminals of the compatibility layer are argument checks around operations of the host; the Rust crates for the server,
  the worker pool and its supervision, the module graph and loader, npm resolution and the command line are calls of
  asynchronous libraries, of V8 and of the Deno crates, whose code is not part of the repository.
\<close>

end
